(* ===== verification/Prelude.thy ===== *)
theory Prelude
  imports Main "HOL-Library.Word" "HOL-Library.List_Lexorder" "HOL-Library.Sublist"
begin

text \<open>
  The shared vocabulary of the development: the machine types of the Rust sources, byte
  slices with their checked and unchecked accesses, the little- and big-endian integer
  encodings, the validity check of UTF-8 strings, three-way comparison, \<open>str::split\<close>
  and the standard library's binary search. A Rust \<open>String\<close> is the list of its UTF-8
  bytes, so that \<open>len()\<close> is \<open>length\<close> and \<open>cmp\<close> is the lexicographic order on bytes.
\<close>

named_theorems codec_simps \<open>rewrite rules for byte-level encoders and decoders\<close>

type_synonym byte = "8 word"
type_synonym u16 = "16 word"
type_synonym u32 = "32 word"
type_synonym u64 = "64 word"
type_synonym i64 = "64 word"
type_synonym f64 = "64 word"
type_synonym bytes = "8 word list"
type_synonym str = "8 word list"

unbundle bit_operations_syntax

section \<open>Byte strings\<close>

definition ascii :: "string \<Rightarrow> str" where
  "ascii s = map of_char s"

lemma ascii_simps [simp]:
  "ascii [] = []"
  "ascii (c # s) = of_char c # ascii s"
  by (simp_all add: ascii_def)

lemma in_map_filter: "y \<in> set (List.map_filter f xs) \<longleftrightarrow> (\<exists>x \<in> set xs. f x = Some y)"
  by (induction xs) (auto simp: map_filter_simps split: option.splits)

text \<open>\<open>bytes.get(i)\<close>, \<open>bytes.get(a..b)\<close> and the slice \<open>&bytes[a..b]\<close>.\<close>

definition get_at :: "'a list \<Rightarrow> nat \<Rightarrow> 'a option" where
  "get_at bs i = (if i < length bs then Some (bs ! i) else None)"

definition subslice :: "nat \<Rightarrow> nat \<Rightarrow> 'a list \<Rightarrow> 'a list" where
  "subslice a b bs = take (b - a) (drop a bs)"

definition get_range :: "'a list \<Rightarrow> nat \<Rightarrow> nat \<Rightarrow> 'a list option" where
  "get_range bs a b = (if a \<le> b \<and> b \<le> length bs then Some (subslice a b bs) else None)"

lemma get_at_Some_iff: "get_at bs i = Some b \<longleftrightarrow> i < length bs \<and> bs ! i = b"
  by (auto simp: get_at_def)

lemma get_at_None_iff: "get_at bs i = None \<longleftrightarrow> length bs \<le> i"
  by (auto simp: get_at_def)

lemma get_range_Some_iff:
  "get_range bs a b = Some s \<longleftrightarrow> a \<le> b \<and> b \<le> length bs \<and> s = subslice a b bs"
  by (auto simp: get_range_def)

lemma get_range_None_iff: "get_range bs a b = None \<longleftrightarrow> \<not> (a \<le> b \<and> b \<le> length bs)"
  by (auto simp: get_range_def)

lemma length_subslice: "b \<le> length bs \<Longrightarrow> length (subslice a b bs) = b - a"
  by (simp add: subslice_def)

lemma length_subslice_le: "length (subslice a b bs) \<le> b - a" "length (subslice a b bs) \<le> length bs - a"
  by (simp_all add: subslice_def)

lemma subslice_append_left [codec_simps]:
  "b \<le> length xs \<Longrightarrow> subslice a b (xs @ ys) = subslice a b xs"
  by (simp add: subslice_def)

lemma subslice_append_mid [codec_simps]:
  "a = length xs \<Longrightarrow> b = length xs + length ys \<Longrightarrow> subslice a b (xs @ ys @ zs) = ys"
  by (simp add: subslice_def)

lemma subslice_append_right [codec_simps]:
  "length xs \<le> a \<Longrightarrow> subslice a b (xs @ ys) = subslice (a - length xs) (b - length xs) ys"
  by (simp add: subslice_def)

lemma subslice_all [codec_simps]: "subslice 0 (length xs) xs = xs"
  by (simp add: subslice_def)

lemma subslice_same [simp]: "subslice a a xs = []"
  by (simp add: subslice_def)

lemma get_at_append [codec_simps]:
  "get_at (xs @ ys) i = (if i < length xs then get_at xs i else get_at ys (i - length xs))"
  by (auto simp: get_at_def nth_append)

lemma get_at_Cons [codec_simps]:
  "get_at (x # xs) i = (if i = 0 then Some x else get_at xs (i - 1))"
  by (auto simp: get_at_def nth_Cons')

lemma get_at_mono: "get_at xs i = Some b \<Longrightarrow> get_at (xs @ ys) i = Some b"
  by (auto simp: get_at_def nth_append split: if_splits)

lemma get_range_mono: "get_range xs a b = Some s \<Longrightarrow> get_range (xs @ ys) a b = Some s"
  by (auto simp: get_range_def subslice_append_left split: if_splits)

lemma get_range_mid [codec_simps]:
  "a = length xs \<Longrightarrow> b = length xs + length ys \<Longrightarrow> get_range (xs @ ys @ zs) a b = Some ys"
  by (simp add: get_range_def subslice_def)

section \<open>Integers as bytes\<close>

text \<open>\<open>to_le_bytes\<close>, \<open>from_le_bytes\<close> and their big-endian counterparts.\<close>

fun nat_to_le :: "nat \<Rightarrow> nat \<Rightarrow> bytes" where
  "nat_to_le 0 v = []"
| "nat_to_le (Suc n) v = of_nat (v mod 256) # nat_to_le n (v div 256)"

fun le_to_nat :: "bytes \<Rightarrow> nat" where
  "le_to_nat [] = 0"
| "le_to_nat (b # bs) = unat b + 256 * le_to_nat bs"

lemma length_nat_to_le [simp]: "length (nat_to_le n v) = n"
  by (induction n arbitrary: v) auto

lemma unat_bounds [simp]:
  "unat (b :: byte) < 256" "unat (h :: u16) < 65536" "unat (w :: u32) < 4294967296"
  "unat (x :: u64) < 18446744073709551616"
  by (rule order.strict_trans2 [OF unsigned_less]; simp)+

lemma unat_of_nat_byte: "unat (of_nat (v mod 256) :: byte) = v mod 256"
  by (simp add: unat_of_nat)

lemma le_to_nat_to_le: "le_to_nat (nat_to_le n v) = v mod 256 ^ n"
proof (induction n arbitrary: v)
  case 0
  then show ?case by simp
next
  case (Suc n)
  have "v mod 256 + 256 * (v div 256 mod 256 ^ n) = v mod (256 * 256 ^ n)"
    by (simp add: mod_mult2_eq)
  then show ?case
    by (simp add: Suc unat_of_nat)
qed

lemma le_to_nat_less: "le_to_nat bs < 256 ^ length bs"
proof (induction bs)
  case Nil
  then show ?case by simp
next
  case (Cons b bs)
  then show ?case
    using unat_bounds(1) [of b] by (simp only: le_to_nat.simps length_Cons power_Suc)
qed

lemma nat_to_le_le_to_nat: "nat_to_le (length bs) (le_to_nat bs) = bs"
proof (induction bs)
  case Nil
  then show ?case by simp
next
  case (Cons b bs)
  have "unat b < 256" by simp
  with Cons show ?case by simp
qed

lemma nat_to_le_inject:
  assumes "nat_to_le n v = nat_to_le n w" "v < 256 ^ n" "w < 256 ^ n"
  shows "v = w"
proof -
  have "le_to_nat (nat_to_le n v) = le_to_nat (nat_to_le n w)" using assms(1) by simp
  with assms(2,3) show ?thesis by (simp add: le_to_nat_to_le)
qed

definition u16_le :: "u16 \<Rightarrow> bytes" where "u16_le w = nat_to_le 2 (unat w)"
definition u32_le :: "u32 \<Rightarrow> bytes" where "u32_le w = nat_to_le 4 (unat w)"
definition u64_le :: "u64 \<Rightarrow> bytes" where "u64_le w = nat_to_le 8 (unat w)"
definition le_u16 :: "bytes \<Rightarrow> u16" where "le_u16 bs = of_nat (le_to_nat bs)"
definition le_u32 :: "bytes \<Rightarrow> u32" where "le_u32 bs = of_nat (le_to_nat bs)"
definition le_u64 :: "bytes \<Rightarrow> u64" where "le_u64 bs = of_nat (le_to_nat bs)"

definition u16_be :: "u16 \<Rightarrow> bytes" where "u16_be w = rev (u16_le w)"
definition u32_be :: "u32 \<Rightarrow> bytes" where "u32_be w = rev (u32_le w)"
definition u64_be :: "u64 \<Rightarrow> bytes" where "u64_be w = rev (u64_le w)"
definition be_u64 :: "bytes \<Rightarrow> u64" where "be_u64 bs = le_u64 (rev bs)"

lemma length_int_bytes [simp]:
  "length (u16_le a) = 2" "length (u32_le b) = 4" "length (u64_le c) = 8"
  "length (u16_be a) = 2" "length (u32_be b) = 4" "length (u64_be c) = 8"
  by (simp_all add: u16_le_def u32_le_def u64_le_def u16_be_def u32_be_def u64_be_def)

lemma int_bytes_roundtrip [simp]:
  "le_u16 (u16_le a) = a" "le_u32 (u32_le b) = b" "le_u64 (u64_le c) = c" "be_u64 (u64_be c) = c"
  using unat_bounds(2) [of a] unat_bounds(3) [of b] unat_bounds(4) [of c]
  by (simp_all add: le_u16_def le_u32_def le_u64_def u16_le_def u32_le_def u64_le_def
      u64_be_def be_u64_def le_to_nat_to_le)

lemma int_bytes_inject [simp]:
  "u16_le a = u16_le a' \<longleftrightarrow> a = a'" "u32_le b = u32_le b' \<longleftrightarrow> b = b'"
  "u64_le c = u64_le c' \<longleftrightarrow> c = c'" "u16_be a = u16_be a' \<longleftrightarrow> a = a'"
  "u32_be b = u32_be b' \<longleftrightarrow> b = b'" "u64_be c = u64_be c' \<longleftrightarrow> c = c'"
  by (metis int_bytes_roundtrip(1)) (metis int_bytes_roundtrip(2), metis int_bytes_roundtrip(3),
    metis int_bytes_roundtrip(1) u16_be_def rev_rev_ident,
    metis int_bytes_roundtrip(2) u32_be_def rev_rev_ident,
    metis int_bytes_roundtrip(3) u64_be_def rev_rev_ident)

lemma unat_le_u32_bound: "length bs = 4 \<Longrightarrow> unat (le_u32 bs) = le_to_nat bs"
  using le_to_nat_less [of bs] by (simp add: le_u32_def unat_of_nat)

text \<open>\<open>len as u8\<close>, \<open>len as u16\<close> and \<open>len as u32\<close> truncate.\<close>

lemma signed_drop_bit_63: "signed_drop_bit 63 (n :: i64) = (if bit n 63 then - 1 else 0)"
proof (rule bit_eqI)
  fix i
  assume "possible_bit TYPE(64 word) i"
  then show "bit (signed_drop_bit 63 n) i = bit (if bit n 63 then - 1 else 0 :: i64) i"
    by (cases "i = 0") (auto simp: bit_simps)
qed

lemma sint_eq_iff: "sint a = sint b \<longleftrightarrow> a = b"
  by (metis signed_word_eqI)

lemma unat_of_nat_small:
  "n < 256 \<Longrightarrow> unat (of_nat n :: byte) = n"
  "n < 65536 \<Longrightarrow> unat (of_nat n :: u16) = n"
  "n < 4294967296 \<Longrightarrow> unat (of_nat n :: u32) = n"
  by (simp_all add: unat_of_nat)

text \<open>Big-endian bytes compare like the unsigned integers they hold.\<close>

lemma of_nat_inject_small:
  "m < 2 ^ 32 \<Longrightarrow> n < 2 ^ 32 \<Longrightarrow> (of_nat m :: u32) = of_nat n \<longleftrightarrow> m = n"
  "m < 256 \<Longrightarrow> n < 256 \<Longrightarrow> (of_nat m :: byte) = of_nat n \<longleftrightarrow> m = n"
  "m < 2 ^ 64 \<Longrightarrow> n < 2 ^ 64 \<Longrightarrow> (of_nat m :: u64) = of_nat n \<longleftrightarrow> m = n"
  by (auto dest: arg_cong [where f = unat] simp: unat_of_nat)

lemma append1_less_iff:
  fixes xs ys :: "'a::linorder list"
  assumes "length xs = length ys"
  shows "xs @ [a] < ys @ [b] \<longleftrightarrow> xs < ys \<or> xs = ys \<and> a < b"
  using assms by (induction xs ys rule: list_induct2) auto

lemma less_div_mod_iff:
  fixes m n d :: nat
  assumes "0 < d"
  shows "m < n \<longleftrightarrow> m div d < n div d \<or> m div d = n div d \<and> m mod d < n mod d"
proof -
  have less: "x < y" if "x div d < y div d" for x y :: nat
    using that by (meson div_le_mono leD leI)
  show ?thesis
  proof (cases "m div d = n div d")
    case True
    then have "m = d * (n div d) + m mod d" by (metis mult_div_mod_eq)
    moreover have "n = d * (n div d) + n mod d" by simp
    ultimately show ?thesis using True by (metis add_less_cancel_left less_irrefl)
  next
    case False
    then show ?thesis using less [of m n] less [of n m] by (metis linorder_neqE_nat order_less_asym)
  qed
qed

lemma rev_nat_to_le_less:
  "m < 256 ^ k \<Longrightarrow> n < 256 ^ k \<Longrightarrow> rev (nat_to_le k m) < rev (nat_to_le k n) \<longleftrightarrow> m < n"
proof (induction k arbitrary: m n)
  case (Suc k)
  have b: "m div 256 < 256 ^ k" "n div 256 < 256 ^ k"
    using Suc.prems by (auto simp: less_mult_imp_div_less mult.commute)
  have "(of_nat (m mod 256) :: byte) < of_nat (n mod 256) \<longleftrightarrow> m mod 256 < n mod 256"
    by (simp add: word_less_nat_alt unat_of_nat)
  moreover have "m < n \<longleftrightarrow> m div 256 < n div 256 \<or> m div 256 = n div 256 \<and> m mod 256 < n mod 256"
    by (rule less_div_mod_iff) simp
  moreover have "nat_to_le k (m div 256) = nat_to_le k (n div 256) \<longleftrightarrow> m div 256 = n div 256"
    using nat_to_le_inject [OF _ b] by auto
  ultimately show ?case using Suc.IH [OF b] by (simp add: append1_less_iff)
qed simp

lemma u64_be_less: "u64_be a < u64_be b \<longleftrightarrow> a < b"
  using rev_nat_to_le_less [of "unat a" 8 "unat b"] unat_bounds(4) [of a] unat_bounds(4) [of b]
  by (simp add: u64_be_def u64_le_def word_less_nat_alt)

lemma sint_uint_64: "sint (w :: i64) = uint w - (if bit w 63 then 2 ^ 64 else 0)"
proof -
  have "take_bit 64 (uint w) = uint w"
    using uint_nonnegative [of w] uint_bounded [of w] by (intro take_bit_int_eq_self) simp_all
  then show ?thesis
    by (simp add: sint_uint signed_take_bit_eq_take_bit_minus bit_uint_iff)
qed

lemma word_less_sint:
  fixes a b :: i64
  shows "a < b \<longleftrightarrow> (if (sint a < 0) = (sint b < 0) then sint a < sint b else sint b < 0)"
proof -
  have "uint w = sint w + (if sint w < 0 then 2 ^ 64 else 0)" "sint w < 2 ^ 63" "- (2 ^ 63) \<le> sint w"
    for w :: i64
    using sint_uint_64 [of w] sint_less [of w] sint_greater_eq [of w] uint_bounded [of w]
    by (auto simp: sint_uint bit_uint_iff)
  from this [of a] this [of b] show ?thesis by (auto simp: word_less_def)
qed

section \<open>UTF-8\<close>

text \<open>
  \<open>str::from_utf8(..).is_ok()\<close>: well-formed byte sequences of the Unicode standard (no
  overlong forms, no surrogates, nothing above U+10FFFF).
\<close>

definition utf8_cont :: "byte \<Rightarrow> bool" where
  "utf8_cont b \<longleftrightarrow> 0x80 \<le> b \<and> b \<le> 0xBF"

fun utf8_valid :: "bytes \<Rightarrow> bool" where
  "utf8_valid [] = True"
| "utf8_valid (b # bs) =
    (if b < 0x80 then utf8_valid bs
     else if 0xC2 \<le> b \<and> b \<le> 0xDF then
       (case bs of c # r \<Rightarrow> utf8_cont c \<and> utf8_valid r | _ \<Rightarrow> False)
     else if 0xE0 \<le> b \<and> b \<le> 0xEF then
       (case bs of c # d # r \<Rightarrow>
          (if b = 0xE0 then 0xA0 \<le> c \<and> c \<le> 0xBF
           else if b = 0xED then 0x80 \<le> c \<and> c \<le> 0x9F else utf8_cont c) \<and>
          utf8_cont d \<and> utf8_valid r
        | _ \<Rightarrow> False)
     else if 0xF0 \<le> b \<and> b \<le> 0xF4 then
       (case bs of c # d # e # r \<Rightarrow>
          (if b = 0xF0 then 0x90 \<le> c \<and> c \<le> 0xBF
           else if b = 0xF4 then 0x80 \<le> c \<and> c \<le> 0x8F else utf8_cont c) \<and>
          utf8_cont d \<and> utf8_cont e \<and> utf8_valid r
        | _ \<Rightarrow> False)
     else False)"

declare utf8_valid.simps(2) [simp del]

text \<open>\<open>str::from_utf8(bytes).ok()\<close> and \<open>bytes.get(a..b)\<close> read as a string.\<close>

definition from_utf8 :: "bytes \<Rightarrow> str option" where
  "from_utf8 bs = (if utf8_valid bs then Some bs else None)"

lemma from_utf8_Some_iff: "from_utf8 bs = Some s \<longleftrightarrow> utf8_valid bs \<and> s = bs"
  by (auto simp: from_utf8_def)

section \<open>Three-way comparison\<close>

datatype ordering = Less | Equal | Greater

definition cmp :: "'a::linorder \<Rightarrow> 'a \<Rightarrow> ordering" where
  "cmp x y = (if x < y then Less else if x = y then Equal else Greater)"

fun ord_then :: "ordering \<Rightarrow> ordering \<Rightarrow> ordering" where
  "ord_then Equal o2 = o2"
| "ord_then o1 o2 = o1"

fun ord_rev :: "ordering \<Rightarrow> ordering" where
  "ord_rev Less = Greater"
| "ord_rev Equal = Equal"
| "ord_rev Greater = Less"

lemma cmp_iff [simp]:
  "cmp x y = Less \<longleftrightarrow> x < y" "cmp x y = Equal \<longleftrightarrow> x = y" "cmp x y = Greater \<longleftrightarrow> y < x"
  by (auto simp: cmp_def)

lemma cmp_refl [simp]: "cmp x x = Equal"
  by simp

lemma cmp_swap: "cmp y x = ord_rev (cmp x y)"
  by (auto simp: cmp_def)

lemma ord_rev_then [simp]: "ord_rev (ord_then a b) = ord_then (ord_rev a) (ord_rev b)"
  by (cases a) auto

lemma ord_rev_rev [simp]: "ord_rev (ord_rev a) = a"
  by (cases a) auto

lemma ord_then_Equal [simp]: "ord_then a b = Equal \<longleftrightarrow> a = Equal \<and> b = Equal"
  by (cases a) auto

section \<open>Splitting strings\<close>

text \<open>\<open>s.split(c)\<close>: the segments between the separators, one more than there are separators.\<close>

fun split_on :: "'a \<Rightarrow> 'a list \<Rightarrow> 'a list list" where
  "split_on c [] = [[]]"
| "split_on c (x # xs) =
    (if x = c then [] # split_on c xs
     else (case split_on c xs of s # ss \<Rightarrow> (x # s) # ss | [] \<Rightarrow> [[x]]))"

lemma split_on_not_Nil [simp]: "split_on c xs \<noteq> []"
  by (induction xs) (auto split: list.splits)

lemma split_on_no_sep: "c \<notin> set xs \<Longrightarrow> split_on c xs = [xs]"
  by (induction xs) auto

lemma split_on_segments: "s \<in> set (split_on c xs) \<Longrightarrow> c \<notin> set s"
  by (induction xs arbitrary: s) (auto split: list.splits if_splits)

section \<open>Binary search\<close>

text \<open>
  \<open>slice::binary_search_by\<close> of the standard library: \<open>Inr\<close> is \<open>Ok\<close> of the position
  found, \<open>Inl\<close> is \<open>Err\<close> of the insertion position.
\<close>

function bsearch_loop :: "('a \<Rightarrow> ordering) \<Rightarrow> 'a list \<Rightarrow> nat \<Rightarrow> nat \<Rightarrow> nat" where
  "bsearch_loop f xs base sz =
    (if sz \<le> 1 then base
     else let half = sz div 2; mid = base + half
          in bsearch_loop f xs (if f (xs ! mid) = Greater then base else mid) (sz - half))"
  by pat_completeness auto
termination
  by (relation "measure (\<lambda>(f, xs, base, sz). sz)") auto

declare bsearch_loop.simps [simp del]

definition binary_search_by :: "('a \<Rightarrow> ordering) \<Rightarrow> 'a list \<Rightarrow> nat + nat" where
  "binary_search_by f xs =
    (if xs = [] then Inl 0
     else let base = bsearch_loop f xs 0 (length xs)
          in case f (xs ! base) of
               Equal \<Rightarrow> Inr base
             | Less \<Rightarrow> Inl (base + 1)
             | Greater \<Rightarrow> Inl base)"

text \<open>A probe function fits a list when its answers run Less, then Equal, then Greater.\<close>

definition probe_sorted :: "('a \<Rightarrow> ordering) \<Rightarrow> 'a list \<Rightarrow> bool" where
  "probe_sorted f =
    sorted_wrt (\<lambda>x y. (f y \<noteq> Greater \<longrightarrow> f x = Less) \<and> (f x \<noteq> Less \<longrightarrow> f y = Greater))"

lemmas probe_sorted_nth = probe_sorted_def [THEN fun_cong, unfolded sorted_wrt_iff_nth_less]

lemma bsearch_loop_inv:
  assumes "0 < sz" "base + sz \<le> length xs" "probe_sorted f xs"
    and "base = 0 \<or> f (xs ! base) \<noteq> Greater"
    and "\<forall>i. base + sz \<le> i \<longrightarrow> i < length xs \<longrightarrow> f (xs ! i) = Greater"
  shows "let r = bsearch_loop f xs base sz in
    r < length xs \<and> (r = 0 \<or> f (xs ! r) \<noteq> Greater) \<and>
    (\<forall>i. r < i \<longrightarrow> i < length xs \<longrightarrow> f (xs ! i) = Greater)"
  using assms
proof (induction f xs base sz rule: bsearch_loop.induct)
  case (1 f xs base sz)
  show ?case
  proof (cases "sz \<le> 1")
    case True
    with 1 have sz: "sz = 1" by simp
    have "bsearch_loop f xs base sz = base" using True by (subst bsearch_loop.simps) simp
    with 1 sz show ?thesis by (auto simp: Let_def)
  next
    case False
    define half where "half = sz div 2"
    define mid where "mid = base + half"
    have h: "0 < half" "half < sz" using False by (auto simp: half_def)
    have midlen: "mid < length xs" using h 1(3) by (simp add: mid_def)
    have eq: "bsearch_loop f xs base sz =
      bsearch_loop f xs (if f (xs ! mid) = Greater then base else mid) (sz - half)"
      using False by (subst bsearch_loop.simps) (simp add: half_def mid_def Let_def)
    have gt: "f (xs ! i) = Greater" if "f (xs ! mid) = Greater" "mid \<le> i" "i < length xs" for i
      using that 1(4) unfolding probe_sorted_nth
      by (metis (no_types) le_neq_implies_less ordering.distinct(3))
    have tail: "f (xs ! i) = Greater"
      if "f (xs ! mid) = Greater" "base + (sz - half) \<le> i" "i < length xs" for i
    proof (cases "mid \<le> i")
      case True
      with gt that show ?thesis by simp
    next
      case False
      with that h have False by (simp add: mid_def half_def)
      then show ?thesis ..
    qed
    show ?thesis
    proof (cases "f (xs ! mid) = Greater")
      case True
      with 1(1)[OF False half_def mid_def] h 1(2-6) tail show ?thesis
        by (simp add: eq)
    next
      case False2: False
      have "mid + (sz - half) = base + sz" using h by (simp add: mid_def)
      with 1(1)[OF False half_def mid_def] h 1(2-6) False2 show ?thesis
        by (simp add: eq)
    qed
  qed
qed

lemma binary_search_Inr:
  assumes "probe_sorted f xs" "binary_search_by f xs = Inr p"
  shows "p < length xs \<and> f (xs ! p) = Equal"
proof -
  have ne: "xs \<noteq> []" using assms(2) by (auto simp: binary_search_by_def)
  then show ?thesis
    using assms bsearch_loop_inv [of "length xs" 0 xs f]
    by (auto simp: binary_search_by_def Let_def split: ordering.splits)
qed

lemma binary_search_Inl:
  assumes "probe_sorted f xs" "binary_search_by f xs = Inl p"
  shows "p \<le> length xs \<and> (\<forall>i < p. f (xs ! i) = Less) \<and>
    (\<forall>i. p \<le> i \<longrightarrow> i < length xs \<longrightarrow> f (xs ! i) = Greater)"
proof (cases "xs = []")
  case True
  with assms show ?thesis by (simp add: binary_search_by_def)
next
  case ne: False
  define r where "r = bsearch_loop f xs 0 (length xs)"
  have inv: "r < length xs" "r = 0 \<or> f (xs ! r) \<noteq> Greater"
    "\<forall>i. r < i \<longrightarrow> i < length xs \<longrightarrow> f (xs ! i) = Greater"
    using bsearch_loop_inv [of "length xs" 0 xs f] assms(1) ne by (auto simp: r_def Let_def)
  have less: "f (xs ! i) = Less" if "i < r" "f (xs ! r) \<noteq> Greater" for i
    using that inv(1) assms(1) unfolding probe_sorted_nth by blast
  show ?thesis
  proof (cases "f (xs ! r)")
    case Less
    with assms(2) ne have "p = r + 1" by (simp add: binary_search_by_def r_def Let_def)
    moreover have "f (xs ! i) = Less" if "i < r + 1" for i
      using that less Less by (cases "i = r") auto
    ultimately show ?thesis using inv by auto
  next
    case Equal
    with assms(2) ne show ?thesis by (simp add: binary_search_by_def r_def Let_def)
  next
    case Greater
    with inv have "r = 0" by auto
    moreover from Greater assms(2) ne have "p = r"
      by (simp add: binary_search_by_def r_def Let_def)
    ultimately show ?thesis using inv Greater
      by (metis bot_nat_0.extremum_strict le_neq_implies_less le0)
  qed
qed

section \<open>Association lists\<close>

lemma strict_sorted_distinct: "sorted_wrt (<) (xs :: 'a::linorder list) \<Longrightarrow> distinct xs"
  by (simp add: strict_sorted_iff)

lemma map_of_insert_mid:
  "k \<notin> fst ` set xs \<Longrightarrow> map_of (xs @ (k, v) # ys) = (map_of (xs @ ys))(k \<mapsto> v)"
  by (induction xs) (auto simp: fun_eq_iff)

lemma map_of_list_update:
  assumes "distinct (map fst xs)" "p < length xs" "fst (xs ! p) = k"
  shows "map_of (xs[p := (k, v)]) = (map_of xs)(k \<mapsto> v)"
proof -
  have xs: "xs = take p xs @ (k, snd (xs ! p)) # drop (Suc p) xs"
    using assms(2,3) id_take_nth_drop [of p xs] by (metis prod.collapse)
  have "distinct (map fst (take p xs @ (k, snd (xs ! p)) # drop (Suc p) xs))"
    using assms(1) xs by simp
  then have "k \<notin> fst ` set (take p xs)" by auto
  then show ?thesis
    using assms(2) xs map_of_insert_mid [of k "take p xs" _ "drop (Suc p) xs"]
    by (metis fun_upd_upd upd_conv_take_nth_drop)
qed

lemma cmp_probe:
  "a < b \<Longrightarrow> cmp b k \<noteq> Greater \<Longrightarrow> cmp a k = Less"
  "a < b \<Longrightarrow> cmp a k \<noteq> Less \<Longrightarrow> cmp b k = Greater"
  by (auto simp: not_less)

lemma map_of_nth_sorted:
  fixes fs :: "('k::linorder \<times> 'v) list"
  assumes "sorted_wrt (<) (map fst fs)" "i < length fs"
  shows "map_of fs (fst (fs ! i)) = Some (snd (fs ! i))"
proof (rule map_of_is_SomeI)
  show "distinct (map fst fs)" using assms(1) by (rule strict_sorted_distinct)
  show "(fst (fs ! i), snd (fs ! i)) \<in> set fs" using assms(2) by simp
qed

end
