(* ===== verification/Float64.thy ===== *)
theory Float64
  imports Prelude
begin

text \<open>
  The parts of Rust's \<open>f64\<close> the sources use, on the 64 bits of the IEEE 754 value: the
  numeric equality and partial order (NaN compares with nothing, the two zeros are equal),
  \<open>total_cmp\<close> (the total order on bit patterns), and the cast \<open>i64 as f64\<close> with its
  rounding to nearest, ties to even.
\<close>

definition f64_is_nan :: "f64 \<Rightarrow> bool" where
  "f64_is_nan b \<longleftrightarrow> 0x7FF0000000000000 < (b AND 0x7FFFFFFFFFFFFFFF)"

definition f64_is_zero :: "f64 \<Rightarrow> bool" where
  "f64_is_zero b \<longleftrightarrow> b AND 0x7FFFFFFFFFFFFFFF = 0"

definition f64_eq :: "f64 \<Rightarrow> f64 \<Rightarrow> bool" where
  "f64_eq a b \<longleftrightarrow>
    \<not> f64_is_nan a \<and> \<not> f64_is_nan b \<and> (a = b \<or> f64_is_zero a \<and> f64_is_zero b)"

definition f64_total_key :: "f64 \<Rightarrow> int" where
  "f64_total_key b = sint (b XOR drop_bit 1 (signed_drop_bit 63 b))"

definition f64_total_cmp :: "f64 \<Rightarrow> f64 \<Rightarrow> ordering" where
  "f64_total_cmp a b = cmp (f64_total_key a) (f64_total_key b)"

definition f64_partial_cmp :: "f64 \<Rightarrow> f64 \<Rightarrow> ordering option" where
  "f64_partial_cmp a b =
    (if f64_is_nan a \<or> f64_is_nan b then None
     else if f64_eq a b then Some Equal
     else Some (f64_total_cmp a b))"

fun nat_log2 :: "nat \<Rightarrow> nat" where
  "nat_log2 n = (if n < 2 then 0 else Suc (nat_log2 (n div 2)))"

declare nat_log2.simps [simp del]

definition div_half_even :: "nat \<Rightarrow> nat \<Rightarrow> nat" where
  "div_half_even num den =
    (let q = num div den; r = num mod den in
     if den < 2 * r \<or> (2 * r = den \<and> odd q) then q + 1 else q)"

text \<open>
  The double nearest to the positive rational \<open>p / q\<close>: the exponent \<open>e\<close> with
  \<open>2 ^ e \<le> p / q < 2 ^ (e + 1)\<close> (not below the subnormal range), the significand rounded to
  53 bits, and infinity on overflow.
\<close>

definition f64_exponent :: "nat \<Rightarrow> nat \<Rightarrow> int" where
  "f64_exponent p q =
    (let e = int (nat_log2 p) - int (nat_log2 q);
         fits = (if 0 \<le> e then q * 2 ^ nat e \<le> p else q \<le> p * 2 ^ nat (- e))
     in if fits then e else e - 1)"

definition f64_round :: "nat \<Rightarrow> nat \<Rightarrow> f64" where
  "f64_round p q =
    (if p = 0 then 0
     else let e = max (f64_exponent p q) (-1022);
              u = e - 52;
              m = (if 0 \<le> u then div_half_even p (q * 2 ^ nat u)
                   else div_half_even (p * 2 ^ nat (- u)) q);
              bits = nat (e + 1022) * 2 ^ 52 + m
          in if 0x7FF0000000000000 \<le> bits then 0x7FF0000000000000 else of_nat bits)"

definition f64_neg :: "f64 \<Rightarrow> f64" where
  "f64_neg b = b XOR 0x8000000000000000"

definition i64_as_f64 :: "i64 \<Rightarrow> f64" where
  "i64_as_f64 n =
    (if sint n < 0 then f64_neg (f64_round (nat (- sint n)) 1) else f64_round (nat (sint n)) 1)"

lemma f64_total_key_inject: "f64_total_key a = f64_total_key b \<longleftrightarrow> a = b"
proof -
  define k where "k = (\<lambda>w :: f64. w XOR drop_bit 1 (signed_drop_bit 63 w))"
  have top: "bit (k w) 63 = bit w 63" for w
    by (auto simp: k_def bit_simps dest: bit_imp_le_length)
  have "k (k w) = w" for w
  proof (rule bit_eqI)
    fix i
    assume "possible_bit TYPE(64 word) i"
    then show "bit (k (k w)) i = bit w i"
      using top [of w] by (cases "i = 63") (auto simp: k_def bit_simps dest: bit_imp_le_length)
  qed
  then have "k a = k b \<longleftrightarrow> a = b" by metis
  moreover have "sint (k a) = sint (k b) \<longleftrightarrow> k a = k b" by (metis signed_word_eqI)
  ultimately show ?thesis by (simp add: f64_total_key_def k_def)
qed

lemma f64_total_cmp_simps [simp]:
  "f64_total_cmp a b = Equal \<longleftrightarrow> a = b" "f64_total_cmp a a = Equal"
  by (simp_all add: f64_total_cmp_def f64_total_key_inject)

lemma f64_total_cmp_swap: "f64_total_cmp b a = ord_rev (f64_total_cmp a b)"
  unfolding f64_total_cmp_def by (rule cmp_swap)

text \<open>
  Integers below \<open>2 ^ 53\<close> in magnitude cast to \<open>f64\<close> exactly: \<open>exact_bits\<close> is the bit pattern, and
  the cast is strictly monotone for \<open>total_cmp\<close>, never NaN and never the negative zero.
\<close>

section \<open>Integers as floats\<close>

lemma nat_log2_bounds: "0 < n \<Longrightarrow> 2 ^ nat_log2 n \<le> n \<and> n < 2 ^ Suc (nat_log2 n)"
proof (induction n rule: nat_log2.induct)
  case (1 n)
  show ?case
  proof (cases "n < 2")
    case True
    with 1 show ?thesis by (simp add: nat_log2.simps)
  next
    case False
    with 1 have "2 ^ nat_log2 (n div 2) \<le> n div 2" "n div 2 < 2 ^ Suc (nat_log2 (n div 2))"
      by auto
    then show ?thesis using False by (subst (1 2) nat_log2.simps) auto
  qed
qed

lemma nat_log2_less:
  assumes "0 < n" "n < 2 ^ k"
  shows "nat_log2 n < k"
  using nat_log2_bounds [OF assms(1)] assms(2) by (metis le_less_trans nat_power_less_imp_less zero_less_numeral)

definition exact_bits :: "nat \<Rightarrow> nat" where
  "exact_bits n = (if n = 0 then 0 else (nat_log2 n + 1022) * 2 ^ 52 + n * 2 ^ (52 - nat_log2 n))"

lemma exact_bits_range:
  assumes "0 < n" "n < 2 ^ 53"
  shows "(nat_log2 n + 1023) * 2 ^ 52 \<le> exact_bits n"
    and "exact_bits n < (nat_log2 n + 1024) * 2 ^ 52"
proof -
  let ?e = "nat_log2 n"
  have e: "?e \<le> 52" using nat_log2_less [OF assms] by simp
  note b = nat_log2_bounds [OF assms(1)]
  have p: "(2::nat) ^ ?e * 2 ^ (52 - ?e) = 2 ^ 52" using e by (simp flip: power_add)
  have "2 ^ ?e * 2 ^ (52 - ?e) \<le> n * 2 ^ (52 - ?e)" using b by (intro mult_right_mono) auto
  moreover have "n * 2 ^ (52 - ?e) < 2 ^ Suc ?e * 2 ^ (52 - ?e)"
    using b by (intro mult_strict_right_mono) auto
  ultimately show "(?e + 1023) * 2 ^ 52 \<le> exact_bits n"
    "exact_bits n < (?e + 1024) * 2 ^ 52"
    using p assms(1) by (auto simp: exact_bits_def algebra_simps)
qed

lemma exact_bits_less: "n < 2 ^ 53 \<Longrightarrow> exact_bits n < 0x7FF0000000000000"
  using exact_bits_range(2) [of n] nat_log2_less [of n 53]
  by (cases "n = 0") (auto simp: exact_bits_def)

lemma exact_bits_mono:
  assumes "m < n" "n < 2 ^ 53"
  shows "exact_bits m < exact_bits n"
proof (cases "m = 0")
  case True
  then show ?thesis using assms exact_bits_range(1) [of n] by (auto simp: exact_bits_def)
next
  case False
  then have m: "0 < m" "m < 2 ^ 53" and n: "0 < n" using assms by auto
  have "2 ^ nat_log2 m \<le> m" "n < 2 ^ Suc (nat_log2 n)"
    using nat_log2_bounds m n by blast+
  then have "(2::nat) ^ nat_log2 m < 2 ^ Suc (nat_log2 n)" using assms by linarith
  then have le: "nat_log2 m \<le> nat_log2 n" by (simp only: power_strict_increasing_iff)
  show ?thesis
  proof (cases "nat_log2 m = nat_log2 n")
    case True
    then show ?thesis using m n assms by (simp add: exact_bits_def)
  next
    case False
    with le have "(nat_log2 m + 1024) * 2 ^ 52 \<le> (nat_log2 n + 1023) * 2 ^ 52"
      by (intro mult_right_mono) auto
    with exact_bits_range(2) [OF m] exact_bits_range(1) [OF n assms(2)] show ?thesis by linarith
  qed
qed

lemma f64_round_exact:
  assumes "n < 2 ^ 53"
  shows "f64_round n 1 = of_nat (exact_bits n)"
proof (cases "n = 0")
  case False
  then have n: "0 < n" by simp
  let ?e = "nat_log2 n"
  have e: "?e \<le> 52" using nat_log2_less [OF n assms] by simp
  have "nat_log2 (Suc 0) = 0" by (simp add: nat_log2.simps)
  then have x: "f64_exponent n 1 = int ?e"
    using nat_log2_bounds [OF n] by (simp add: f64_exponent_def Let_def)
  have "nat (52 - int ?e) = 52 - ?e" "nat (int ?e + 1022) = ?e + 1022" by linarith+
  moreover have "div_half_even k 1 = k" for k by (simp add: div_half_even_def)
  ultimately show ?thesis using n e x exact_bits_less [OF assms]
    by (auto simp: f64_round_def Let_def exact_bits_def)
qed (simp add: f64_round_def exact_bits_def)

lemma total_key_word:
  assumes "\<not> bit w 63"
  shows "f64_total_key w = uint w" and "f64_total_key (f64_neg w) = - uint w - 1"
proof -
  have "bit w i \<Longrightarrow> i < 63" for i
    using assms bit_imp_le_length [of w i] by (cases "i = 63") auto
  then have "take_bit 63 (uint w) = uint w"
    by (intro bit_eqI) (auto simp: bit_simps)
  then have s: "sint w = uint w"
    using assms by (simp add: sint_uint signed_take_bit_def bit_uint_iff)
  show "f64_total_key w = uint w"
    using assms s by (simp add: f64_total_key_def signed_drop_bit_63)
  have n: "f64_neg w = w XOR push_bit 63 1" by (simp add: f64_neg_def)
  have "bit (f64_neg w) 63" using assms unfolding n by (simp only: bit_simps) simp
  then have "f64_neg w XOR drop_bit 1 (signed_drop_bit 63 (f64_neg w)) =
      (w XOR push_bit 63 1) XOR drop_bit 1 (- 1)"
    by (simp only: signed_drop_bit_63 n if_True)
  also have "\<dots> = NOT w"
  proof (rule bit_eqI)
    fix i
    assume "possible_bit TYPE(64 word) i"
    then show "bit ((w XOR push_bit 63 1) XOR drop_bit 1 (- 1)) i = bit (NOT w) i"
      using assms by (simp only: bit_simps) auto
  qed
  finally have "f64_total_key (f64_neg w) = signed_take_bit 64 (- uint w - 1)"
    using s by (simp add: f64_total_key_def signed_not_eq not_int_def)
  moreover have "0 \<le> uint w" "uint w < 2 ^ 64" using uint_bounded [of w] by simp_all
  then have "signed_take_bit 64 (- uint w - 1) = - uint w - 1"
    by (intro signed_take_bit_int_eq_self) linarith+
  ultimately show "f64_total_key (f64_neg w) = - uint w - 1" by simp
qed

definition safe_int :: "i64 \<Rightarrow> bool" where
  "safe_int n \<longleftrightarrow> \<bar>sint n\<bar> < 2 ^ 53"

lemma exact_word:
  assumes "k < 2 ^ 53"
  shows "\<not> bit (of_nat (exact_bits k) :: f64) 63" "uint (of_nat (exact_bits k) :: f64) = int (exact_bits k)"
proof -
  have k: "exact_bits k < 2 ^ 63" using exact_bits_less [OF assms] by simp
  show u: "uint (of_nat (exact_bits k) :: f64) = int (exact_bits k)"
    using k by (simp add: unsigned_of_nat take_bit_nat_eq_self)
  have "\<not> bit (int (exact_bits k)) 63" using k by (simp add: bit_iff_odd)
  then show "\<not> bit (of_nat (exact_bits k) :: f64) 63"
    unfolding u [symmetric] by (simp add: bit_uint_iff)
qed

lemma i64_as_f64_key:
  assumes "safe_int n"
  shows "f64_total_key (i64_as_f64 n) =
    (if sint n < 0 then - int (exact_bits (nat (- sint n))) - 1 else int (exact_bits (nat (sint n))))"
proof -
  have "nat (sint n) < 2 ^ 53" "nat (- sint n) < 2 ^ 53" using assms by (auto simp: safe_int_def)
  then show ?thesis
    using exact_word [of "nat (sint n)"] exact_word [of "nat (- sint n)"] total_key_word
    by (auto simp: i64_as_f64_def f64_round_exact [unfolded One_nat_def])
qed

lemma i64_as_f64_mono:
  assumes "safe_int a" "safe_int b"
  shows "f64_total_key (i64_as_f64 a) < f64_total_key (i64_as_f64 b) \<longleftrightarrow> sint a < sint b"
proof -
  have less: "f64_total_key (i64_as_f64 a) < f64_total_key (i64_as_f64 b)"
    if "sint a < sint b" "safe_int a" "safe_int b" for a b
    using that exact_bits_mono [of "nat (sint a)" "nat (sint b)"]
      exact_bits_mono [of "nat (- sint b)" "nat (- sint a)"]
    by (auto simp: i64_as_f64_key safe_int_def)
  show ?thesis using less [of a b] less [of b a] assms
    by (metis linorder_neqE_linordered_idom order_less_asym signed_word_eqI order_less_irrefl)
qed

lemma magnitude_word:
  assumes "\<not> bit w 63"
  shows "w AND 0x7FFFFFFFFFFFFFFF = w" "f64_neg w AND 0x7FFFFFFFFFFFFFFF = (w :: f64)"
proof -
  have m: "(0x7FFFFFFFFFFFFFFF :: f64) = mask 63" by (simp add: mask_eq_exp_minus_1)
  have b: "bit w i \<Longrightarrow> i < 63" for i
    using assms bit_imp_le_length [of w i] by (cases "i = 63") auto
  show "w AND 0x7FFFFFFFFFFFFFFF = w" unfolding m
    by (rule bit_eqI) (auto simp: bit_simps dest: b)
  have "(w XOR push_bit 63 1) AND mask 63 = w"
    by (rule bit_eqI) (auto simp only: bit_simps dest: b)
  then show "f64_neg w AND 0x7FFFFFFFFFFFFFFF = w" unfolding m f64_neg_def by simp
qed

lemma i64_as_f64_not_nan:
  assumes "safe_int n"
  shows "\<not> f64_is_nan (i64_as_f64 n)"
proof -
  have "nat (sint n) < 2 ^ 53" "nat (- sint n) < 2 ^ 53" using assms by (auto simp: safe_int_def)
  note k = this exact_word [OF this(1)] exact_word [OF this(2)]
  have "\<not> 0x7FF0000000000000 < (of_nat (exact_bits k) :: f64)" if "k < 2 ^ 53" for k
    using exact_bits_less [OF that] exact_word [OF that] by (simp add: word_less_def)
  with k show ?thesis
    by (auto simp: f64_is_nan_def i64_as_f64_def f64_round_exact [unfolded One_nat_def] magnitude_word)
qed

lemma int_cmp_key:
  assumes "safe_int a" "safe_int b"
  shows "cmp (sint a) (sint b) = f64_total_cmp (i64_as_f64 a) (i64_as_f64 b)"
  using i64_as_f64_mono [OF assms] i64_as_f64_mono [OF assms(2,1)]
  by (auto simp: f64_total_cmp_def cmp_def)

lemma f64_is_zero_iff: "f64_is_zero b \<longleftrightarrow> b = 0 \<or> b = 0x8000000000000000"
proof
  assume "f64_is_zero b"
  then have m: "b AND mask 63 = 0" by (simp add: f64_is_zero_def mask_eq_exp_minus_1)
  have low: "\<not> bit b i" if "i < 63" for i
  proof
    assume "bit b i"
    then have "bit (b AND mask 63) i" using that by (simp add: bit_simps)
    then show False by (simp add: m)
  qed
  have "b = (if bit b 63 then push_bit 63 1 else 0)"
  proof (rule bit_eqI)
    fix i
    assume "possible_bit TYPE(64 word) i"
    then have "i < 63 \<or> i = 63" by auto
    then show "bit b i = bit (if bit b 63 then push_bit 63 1 else 0 :: f64) i"
      using low by (cases "bit b 63") (simp_all only: if_True if_False bit_simps, auto)
  qed
  then show "b = 0 \<or> b = 0x8000000000000000" by (auto split: if_splits)
qed (auto simp: f64_is_zero_def)

lemma total_key_zeros [simp]: "f64_total_key 0 = 0" "f64_total_key 0x8000000000000000 = - 1"
  using total_key_word [of 0] by (simp_all add: f64_neg_def)

lemma i64_as_f64_not_neg_zero:
  assumes "safe_int n"
  shows "i64_as_f64 n \<noteq> 0x8000000000000000"
proof
  assume "i64_as_f64 n = 0x8000000000000000"
  then have "f64_total_key (i64_as_f64 n) = - 1" by simp
  moreover have "0 < exact_bits (nat (- sint n))" if "sint n < 0"
    using that by (simp add: exact_bits_def)
  ultimately show False by (auto simp: i64_as_f64_key [OF assms] split: if_splits)
qed

lemma f64_eq_safe:
  assumes "safe_int n" "b \<noteq> 0x8000000000000000"
  shows "f64_eq (i64_as_f64 n) b \<longleftrightarrow> i64_as_f64 n = b" "f64_eq b (i64_as_f64 n) \<longleftrightarrow> b = i64_as_f64 n"
  using assms i64_as_f64_not_nan [of n] i64_as_f64_not_neg_zero [of n]
  by (auto simp: f64_eq_def f64_is_zero_iff)

end
