(* ===== verification/Value.thy ===== *)
theory Value
  imports Float64
begin

text \<open>
  The document value type of \<open>src/document/value.rs\<close>: its constructors, the type weights, the
  hand-written \<open>PartialEq\<close> and \<open>Ord\<close>, and the projection of a value to dotted paths. Integers
  and timestamps are \<open>i64\<close> words read as signed, floats are their bit patterns, strings are
  their UTF-8 bytes.
\<close>

section \<open>Data\<close>

datatype "value" =
    Null
  | Bool bool
  | Int64 i64
  | Float f64
  | String str
  | Binary bytes
  | BlobLink u64 u32
  | Reference str str
  | Timestamp i64
  | ServerTimestamp
  | Map "(str \<times> value) list"
  | Array "value list"

type_synonym fields = "(str \<times> value) list"

fun type_weight :: "value \<Rightarrow> nat" where
  "type_weight Null = 0"
| "type_weight (Bool _) = 1"
| "type_weight (Int64 _) = 2"
| "type_weight (Float _) = 2"
| "type_weight (Timestamp _) = 3"
| "type_weight (String _) = 4"
| "type_weight (Binary _) = 5"
| "type_weight (BlobLink _ _) = 5"
| "type_weight (Reference _ _) = 6"
| "type_weight (Array _) = 7"
| "type_weight (Map _) = 8"
| "type_weight ServerTimestamp = 9"

fun len_bytes :: "value \<Rightarrow> nat" where
  "len_bytes (String s) = length s"
| "len_bytes (Binary b) = length b"
| "len_bytes _ = 0"

section \<open>Equality and order\<close>

text \<open>\<open>impl PartialEq for Value\<close>; vectors and tuples compare element by element.\<close>

fun value_eq :: "value \<Rightarrow> value \<Rightarrow> bool"
  and values_eq :: "value list \<Rightarrow> value list \<Rightarrow> bool"
  and fields_eq :: "fields \<Rightarrow> fields \<Rightarrow> bool"
where
  "value_eq Null v = (case v of Null \<Rightarrow> True | _ \<Rightarrow> False)"
| "value_eq (Bool a) v = (case v of Bool b \<Rightarrow> a = b | _ \<Rightarrow> False)"
| "value_eq (Int64 a) v =
    (case v of Int64 b \<Rightarrow> a = b | Float b \<Rightarrow> f64_eq (i64_as_f64 a) b | _ \<Rightarrow> False)"
| "value_eq (Float a) v =
    (case v of Float b \<Rightarrow> a = b | Int64 b \<Rightarrow> f64_eq a (i64_as_f64 b) | _ \<Rightarrow> False)"
| "value_eq (String a) v = (case v of String b \<Rightarrow> a = b | _ \<Rightarrow> False)"
| "value_eq (Binary a) v = (case v of Binary b \<Rightarrow> a = b | _ \<Rightarrow> False)"
| "value_eq (Array a) v = (case v of Array b \<Rightarrow> values_eq a b | _ \<Rightarrow> False)"
| "value_eq (Reference a ad) v = (case v of Reference b bd \<Rightarrow> a = b \<and> ad = bd | _ \<Rightarrow> False)"
| "value_eq (BlobLink a al) v = (case v of BlobLink b bl \<Rightarrow> a = b \<and> al = bl | _ \<Rightarrow> False)"
| "value_eq (Timestamp a) v = (case v of Timestamp b \<Rightarrow> a = b | _ \<Rightarrow> False)"
| "value_eq (Map a) v = (case v of Map b \<Rightarrow> fields_eq a b | _ \<Rightarrow> False)"
| "value_eq ServerTimestamp v = (case v of ServerTimestamp \<Rightarrow> True | _ \<Rightarrow> False)"
| "values_eq [] vs = (vs = [])"
| "values_eq (x # xs) vs = (case vs of [] \<Rightarrow> False | y # ys \<Rightarrow> value_eq x y \<and> values_eq xs ys)"
| "fields_eq [] vs = (vs = [])"
| "fields_eq ((k, x) # xs) vs =
    (case vs of [] \<Rightarrow> False | (l, y) # ys \<Rightarrow> k = l \<and> value_eq x y \<and> fields_eq xs ys)"

text \<open>
  \<open>impl Ord for Value\<close>. Values of different type weights compare by weight, and a pair of one
  weight with no arm of its own is \<open>Equal\<close>. Maps and arrays compare their lengths first;
  \<open>fields_cmp\<close> is the loop over the zipped entries, \<open>values_cmp\<close> the lexicographic order of
  slices.
\<close>

definition weight_cmp :: "value \<Rightarrow> value \<Rightarrow> ordering" where
  "weight_cmp a b =
    (if type_weight a \<noteq> type_weight b then cmp (type_weight a) (type_weight b) else Equal)"

fun value_cmp :: "value \<Rightarrow> value \<Rightarrow> ordering"
  and values_cmp :: "value list \<Rightarrow> value list \<Rightarrow> ordering"
  and fields_cmp :: "fields \<Rightarrow> fields \<Rightarrow> ordering"
where
  "value_cmp Null v = weight_cmp Null v"
| "value_cmp (Bool a) v = (case v of Bool b \<Rightarrow> cmp a b | _ \<Rightarrow> weight_cmp (Bool a) v)"
| "value_cmp (Int64 a) v =
    (case v of Int64 b \<Rightarrow> cmp (sint a) (sint b)
     | Float b \<Rightarrow> f64_total_cmp (i64_as_f64 a) b
     | _ \<Rightarrow> weight_cmp (Int64 a) v)"
| "value_cmp (Float a) v =
    (case v of Float b \<Rightarrow> f64_total_cmp a b
     | Int64 b \<Rightarrow> f64_total_cmp a (i64_as_f64 b)
     | _ \<Rightarrow> weight_cmp (Float a) v)"
| "value_cmp (String a) v = (case v of String b \<Rightarrow> cmp a b | _ \<Rightarrow> weight_cmp (String a) v)"
| "value_cmp (Binary a) v = (case v of Binary b \<Rightarrow> cmp a b | _ \<Rightarrow> weight_cmp (Binary a) v)"
| "value_cmp (BlobLink a al) v = weight_cmp (BlobLink a al) v"
| "value_cmp (Timestamp a) v =
    (case v of Timestamp b \<Rightarrow> cmp (sint a) (sint b) | _ \<Rightarrow> weight_cmp (Timestamp a) v)"
| "value_cmp (Reference c1 i1) v =
    (case v of Reference c2 i2 \<Rightarrow> ord_then (cmp c1 c2) (cmp i1 i2)
     | _ \<Rightarrow> weight_cmp (Reference c1 i1) v)"
| "value_cmp (Map a) v =
    (case v of Map b \<Rightarrow>
       (if length a \<noteq> length b then cmp (length a) (length b) else fields_cmp a b)
     | _ \<Rightarrow> weight_cmp (Map a) v)"
| "value_cmp (Array a) v =
    (case v of Array b \<Rightarrow>
       (if length a \<noteq> length b then cmp (length a) (length b) else values_cmp a b)
     | _ \<Rightarrow> weight_cmp (Array a) v)"
| "value_cmp ServerTimestamp v = weight_cmp ServerTimestamp v"
| "values_cmp [] vs = (case vs of [] \<Rightarrow> Equal | _ \<Rightarrow> Less)"
| "values_cmp (x # xs) vs =
    (case vs of [] \<Rightarrow> Greater | y # ys \<Rightarrow> ord_then (value_cmp x y) (values_cmp xs ys))"
| "fields_cmp [] vs = Equal"
| "fields_cmp ((k1, v1) # xs) vs =
    (case vs of [] \<Rightarrow> Equal
     | (k2, v2) # ys \<Rightarrow>
         ord_then (cmp k1 k2) (ord_then (value_cmp v1 v2) (fields_cmp xs ys)))"

section \<open>Projection\<close>

text \<open>
  The inner loop of \<open>prune_value\<close>: whether some path ends at the key (the loop breaks there),
  and the relative rests of the paths that go below it.
\<close>

fun path_subs :: "str \<Rightarrow> str list list \<Rightarrow> bool \<times> str list list" where
  "path_subs k [] = (False, [])"
| "path_subs k ([] # ps) = path_subs k ps"
| "path_subs k ((seg # rest) # ps) =
    (if seg = k then
       (if rest = [] then (True, [])
        else let (whole, subs) = path_subs k ps in (whole, rest # subs))
     else path_subs k ps)"

fun prune_value :: "value \<Rightarrow> str list list \<Rightarrow> value"
  and prune_entries :: "fields \<Rightarrow> str list list \<Rightarrow> fields"
  and prune_items :: "value list \<Rightarrow> str list list \<Rightarrow> value list"
where
  "prune_value (Map entries) paths =
    (if paths = [] then Map entries else Map (prune_entries entries paths))"
| "prune_value (Array items) paths =
    (if paths = [] then Array items else Array (prune_items items paths))"
| "prune_value v paths = v"
| "prune_entries [] paths = []"
| "prune_entries ((k, v) # es) paths =
    (let (whole, subs) = path_subs k paths in
     if whole then (k, v) # prune_entries es paths
     else if subs \<noteq> [] then (k, prune_value v subs) # prune_entries es paths
     else prune_entries es paths)"
| "prune_items [] paths = []"
| "prune_items (v # vs) paths = prune_value v paths # prune_items vs paths"

text \<open>The loop of \<open>prune_field_value\<close> over the projection's dotted paths.\<close>

fun field_subs :: "str \<Rightarrow> str list \<Rightarrow> bool \<times> str list list" where
  "field_subs key [] = (False, [])"
| "field_subs key (p # ps) =
    (case split_on 0x2E p of
       [] \<Rightarrow> field_subs key ps
     | seg # rest \<Rightarrow>
         if seg \<noteq> key then field_subs key ps
         else if rest = [] then (True, [])
         else if [] \<in> set rest then field_subs key ps
         else let (whole, subs) = field_subs key ps in (whole, rest # subs))"

definition prune_field_value :: "value \<Rightarrow> str list \<Rightarrow> str \<Rightarrow> value option" where
  "prune_field_value v projection key =
    (let (whole, subs) = field_subs key projection in
     if whole then Some v
     else if subs = [] then None
     else Some (prune_value v subs))"

fun projection_prefixes_loop :: "str list \<Rightarrow> str list \<Rightarrow> str list" where
  "projection_prefixes_loop out [] = out"
| "projection_prefixes_loop out (p # ps) =
    (let first = hd (split_on 0x2E p) in
     projection_prefixes_loop
       (if first \<noteq> [] \<and> first \<notin> set out then out @ [first] else out) ps)"

definition projection_prefixes :: "str list \<Rightarrow> str list" where
  "projection_prefixes projection = projection_prefixes_loop [] projection"

end
