(* ===== verification/Varint.thy ===== *)
theory Varint
  imports Prelude
begin

text \<open>
  The variable-length integer codec of \<open>src/util/varint.rs\<close>: the LEB128 writer and reader on
  64-bit words and the zigzag mapping of signed to unsigned integers. The reader takes the
  slice and the read position and returns the value with the position after it.
\<close>

section \<open>Operations\<close>

function encode_varint :: "u64 \<Rightarrow> bytes" where
  "encode_varint n =
    (if 0x80 \<le> n then (ucast n OR 0x80) # encode_varint (drop_bit 7 n) else [ucast n])"
  by pat_completeness auto
termination
proof (relation "measure unat")
  fix n :: u64
  assume "0x80 \<le> n"
  then have "128 \<le> unat n" by (simp add: word_le_nat_alt)
  moreover have "unat (drop_bit 7 n) = unat n div 128" unfolding unat_drop_bit_eq by (simp add: drop_bit_eq_div)
  ultimately show "(drop_bit 7 n, n) \<in> measure unat" by simp
qed simp

declare encode_varint.simps [simp del]

function decode_varint_loop :: "bytes \<Rightarrow> nat \<Rightarrow> u64 \<Rightarrow> nat \<Rightarrow> (u64 \<times> nat) option" where
  "decode_varint_loop bytes pos res shift =
    (if shift < 64 then
       (case get_at bytes pos of
          None \<Rightarrow> None
        | Some b8 \<Rightarrow>
            let b = (ucast b8 :: u64) in
            if shift = 63 \<and> 1 < b then None
            else let res' = res OR push_bit shift (b AND 0x7F) in
              if b AND 0x80 = 0 then Some (res', pos + 1)
              else decode_varint_loop bytes (pos + 1) res' (shift + 7))
     else None)"
  by pat_completeness auto
termination
  by (relation "measure (\<lambda>(bytes, pos, res, shift). 64 - shift)") auto

declare decode_varint_loop.simps [simp del]

definition decode_varint :: "bytes \<Rightarrow> nat \<Rightarrow> (u64 \<times> nat) option" where
  "decode_varint bytes pos = decode_varint_loop bytes pos 0 0"

definition zigzag_encode :: "i64 \<Rightarrow> u64" where
  "zigzag_encode n = push_bit 1 n XOR signed_drop_bit 63 n"

definition zigzag_decode :: "u64 \<Rightarrow> i64" where
  "zigzag_decode n = drop_bit 1 n XOR - (n AND 1)"

section \<open>Bit-level lemmas\<close>

lemma bit_128_int: "bit (128 :: int) n \<longleftrightarrow> n = 7"
proof -
  have "(128 :: int) = 2 ^ 7" by simp
  then show ?thesis by (simp only: bit_exp_iff) auto
qed

lemma bit_127_int: "bit (127 :: int) n \<longleftrightarrow> n < 7"
proof -
  have "(127 :: int) = mask 7" by (simp add: mask_eq_exp_minus_1)
  then show ?thesis by (simp only: bit_mask_iff) auto
qed

lemma bit_less_128:
  fixes n :: u64
  assumes "n < 0x80" "bit n i"
  shows "i < 7"
proof (rule ccontr)
  assume "\<not> i < 7"
  then have "2 ^ 7 \<le> (2::nat) ^ i" by (intro power_increasing) auto
  moreover have "2 ^ i \<le> unat n"
  proof -
    have "bit (unat n) i" using assms(2) by (simp add: bit_unsigned_iff bit_imp_possible_bit)
    then show ?thesis by (metis bit_iff_odd div_less even_zero not_le)
  qed
  ultimately show False using assms(1) by (simp add: word_less_nat_alt)
qed

lemma byte_of_u64_low:
  fixes n :: u64
  shows "ucast (ucast n OR 0x80 :: byte) AND (0x7F :: u64) = n AND 0x7F"
    and "ucast (ucast n OR 0x80 :: byte) AND (0x80 :: u64) = 0x80"
  by (rule bit_eqI; force simp: bit_simps bit_128_int bit_127_int)+

lemma small_u64:
  fixes n :: u64
  assumes "n < 0x80"
  shows "ucast (ucast n :: byte) = n" and "n AND 0x7F = n" and "n AND 0x80 = 0"
  by (rule bit_eqI; force simp: bit_simps bit_128_int bit_127_int dest: bit_less_128 [OF assms])+

lemma push_bit_split_7:
  fixes n :: u64
  shows "push_bit s (n AND 0x7F) OR push_bit (s + 7) (drop_bit 7 n) = push_bit s n"
proof (rule bit_eqI)
  fix i
  assume "possible_bit TYPE(64 word) i"
  have "i - s < 7 \<or> 7 + (i - (s + 7)) = i - s" by arith
  then show "bit (push_bit s (n AND 0x7F) OR push_bit (s + 7) (drop_bit 7 n)) i = bit (push_bit s n) i"
    by (auto simp: bit_simps bit_127_int)
qed

lemma zigzag_decode_encode: "zigzag_decode (zigzag_encode n) = n"
proof (cases "bit n 63")
  case True
  then have e: "zigzag_encode n = NOT (push_bit 1 n)"
    by (simp only: zigzag_encode_def signed_drop_bit_63) simp
  have "NOT (push_bit 1 n) AND 1 = 1"
    by (rule bit_eqI) (auto simp only: bit_and_iff bit_not_iff bit_push_bit_iff bit_1_iff)
  then have "zigzag_decode (zigzag_encode n) = NOT (drop_bit 1 (NOT (push_bit 1 n)))"
    by (simp only: zigzag_decode_def e) simp
  also have "\<dots> = n"
  proof (rule bit_eqI)
    fix i
    assume "possible_bit TYPE(64 word) i"
    then show "bit (NOT (drop_bit 1 (NOT (push_bit 1 n)))) i = bit n i"
      using True by (cases "i = 63") (auto simp: bit_simps bit_double_iff mult.commute [of n 2])
  qed
  finally show ?thesis .
next
  case False
  then have e: "zigzag_encode n = push_bit 1 n"
    by (simp only: zigzag_encode_def signed_drop_bit_63) simp
  have "push_bit 1 n AND 1 = 0"
    by (rule bit_eqI) (auto simp: bit_simps bit_double_iff mult.commute [of n 2])
  then have "zigzag_decode (zigzag_encode n) = drop_bit 1 (push_bit 1 n)"
    by (simp only: zigzag_decode_def e) simp
  also have "\<dots> = n"
  proof (rule bit_eqI)
    fix i
    assume "possible_bit TYPE(64 word) i"
    then show "bit (drop_bit 1 (push_bit 1 n)) i = bit n i"
      using False by (cases "i = 63") (auto simp: bit_simps bit_double_iff mult.commute [of n 2])
  qed
  finally show ?thesis .
qed

section \<open>The varint round trip\<close>

lemma decode_varint_loop_encode:
  assumes "unat n < 2 ^ (64 - shift)" "shift < 64" "shift mod 7 = 0"
  shows "decode_varint_loop (pre @ encode_varint n @ rest) (length pre) res shift =
    Some (res OR push_bit shift n, length pre + length (encode_varint n))"
  using assms
proof (induction n arbitrary: pre res shift rule: encode_varint.induct)
  case (1 n)
  show ?case
  proof (cases "0x80 \<le> n")
    case False
    then have n: "n < 0x80" by simp
    have "unat n < 2" if "shift = 63" using 1(2) that by simp
    then have "\<not> (shift = 63 \<and> 1 < n)" by (auto simp: word_less_nat_alt)
    with False 1(3) small_u64 [OF n] show ?thesis
      by (simp add: encode_varint.simps [of n] decode_varint_loop.simps [of _ _ _ shift] get_at_def)
  next
    case True
    then have "2 ^ 7 \<le> unat n" by (simp add: word_le_nat_alt)
    from this 1(2) have "(2::nat) ^ 7 < 2 ^ (64 - shift)" by (rule le_less_trans)
    then have s: "shift + 7 < 64" using power_less_imp_less_exp [of "2::nat" 7 "64 - shift"] by simp
    let ?b = "ucast n OR 0x80 :: byte"
    let ?m = "drop_bit 7 n"
    have "unat ?m = unat n div 2 ^ 7" unfolding unat_drop_bit_eq by (simp add: drop_bit_eq_div)
    also have "\<dots> < 2 ^ (64 - (shift + 7))"
    proof (rule less_mult_imp_div_less)
      have "(2::nat) ^ (64 - (shift + 7)) * 2 ^ 7 = 2 ^ (64 - shift)"
        using s by (simp only: power_add [symmetric]) simp
      then show "unat n < 2 ^ (64 - (shift + 7)) * 2 ^ 7" using 1(2) by simp
    qed
    finally have m: "unat ?m < 2 ^ (64 - (shift + 7))" .
    have mod7: "(shift + 7) mod 7 = 0" using 1(4) by simp
    have "decode_varint_loop (pre @ encode_varint n @ rest) (length pre) res shift =
      decode_varint_loop ((pre @ [?b]) @ encode_varint ?m @ rest) (length (pre @ [?b]))
        (res OR push_bit shift (n AND 0x7F)) (shift + 7)"
      using True s byte_of_u64_low [of n]
      by (simp add: encode_varint.simps [of n] decode_varint_loop.simps [of _ "length pre"]
          get_at_def Let_def del: push_bit_and)
    also have "\<dots> = Some ((res OR push_bit shift (n AND 0x7F)) OR push_bit (shift + 7) ?m,
      length (pre @ [?b]) + length (encode_varint ?m))"
      by (rule 1(1) [OF True m s mod7])
    also have "(res OR push_bit shift (n AND 0x7F)) OR push_bit (shift + 7) ?m = res OR push_bit shift n"
      by (simp only: or.assoc push_bit_split_7)
    finally show ?thesis using True by (simp add: encode_varint.simps [of n])
  qed
qed

lemma decode_varint_encode [codec_simps]:
  "p = length pre \<Longrightarrow> decode_varint (pre @ encode_varint n @ rest) p =
    Some (n, length pre + length (encode_varint n))"
  using decode_varint_loop_encode [of n 0 pre rest 0] by (simp add: decode_varint_def)

lemma length_encode_varint_le:
  "unat n < 2 ^ (7 * k) \<Longrightarrow> 0 < k \<Longrightarrow> length (encode_varint n) \<le> k"
proof (induction n arbitrary: k rule: encode_varint.induct)
  case (1 n)
  show ?case
  proof (cases "0x80 \<le> n")
    case False
    with 1 show ?thesis by (simp add: encode_varint.simps [of n])
  next
    case True
    then have big: "2 ^ 7 \<le> unat n" by (simp add: word_le_nat_alt)
    have "k \<noteq> 1" using big 1(2) by auto
    with 1(3) obtain j where k: "k = Suc j" "0 < j" by (cases k) auto
    have "unat (drop_bit 7 n) = unat n div 2 ^ 7"
      unfolding unat_drop_bit_eq by (simp add: drop_bit_eq_div)
    also have "\<dots> < 2 ^ (7 * j)"
      using 1(2) by (intro less_mult_imp_div_less) (simp add: k power_add mult.commute)
    finally have "length (encode_varint (drop_bit 7 n)) \<le> j" using 1(1) True k by simp
    with True k show ?thesis by (simp add: encode_varint.simps [of n])
  qed
qed

lemma length_encode_varint: "length (encode_varint n) \<le> 10"
proof (rule length_encode_varint_le)
  have "unat n < 2 ^ 64" using unat_bounds(4) [of n] by simp
  also have "(2::nat) ^ 64 \<le> 2 ^ (7 * 10)" by (rule power_increasing) auto
  finally show "unat n < 2 ^ (7 * 10)" .
qed simp


text \<open>C39. A signed 64-bit integer written as a zigzag varint behind any prefix is read back by the
  decoder at that position, which leaves the position right behind it whatever bytes follow, and
  the encoding takes at most ten bytes.\<close>

theorem varint_zigzag_roundtrip:
  "map_option (\<lambda>(z, pos). (zigzag_decode z, pos))
      (decode_varint (pre @ encode_varint (zigzag_encode n) @ rest) (length pre)) =
    Some (n, length pre + length (encode_varint (zigzag_encode n))) \<and>
   length (encode_varint (zigzag_encode n)) \<le> 10"
  by (simp add: codec_simps zigzag_decode_encode length_encode_varint)

end
