(* ===== verification/Framing.thy ===== *)
theory Framing
  imports Prelude
begin

text \<open>
  The interface of a self-delimiting byte stream: a writer \<open>enc\<close>, and a reader step that takes
  the buffer and a position and returns the next item with the position behind it. What the
  clients of the document framing and of the write-ahead log rely on follows from three laws:
  a step reads back what was written, a step that succeeds is not changed by bytes appended to
  the buffer, and a step stays inside the buffer and advances.
\<close>

fun read_n :: "(bytes \<Rightarrow> nat \<Rightarrow> ('a \<times> nat) option) \<Rightarrow> bytes \<Rightarrow> nat \<Rightarrow> nat \<Rightarrow> 'a list \<times> nat \<times> nat" where
  "read_n step bs pos 0 = ([], pos, 0)"
| "read_n step bs pos (Suc n) =
    (case step bs pos of
       None \<Rightarrow> ([], pos, Suc n)
     | Some (x, pos') \<Rightarrow> let (xs, end, rest) = read_n step bs pos' n in (x # xs, end, rest))"

function read_all :: "(bytes \<Rightarrow> nat \<Rightarrow> ('a \<times> nat) option) \<Rightarrow> bytes \<Rightarrow> nat \<Rightarrow> 'a list \<times> nat" where
  "read_all step bs pos =
    (case step bs pos of
       None \<Rightarrow> ([], pos)
     | Some (x, pos') \<Rightarrow>
         if pos < pos' \<and> pos' \<le> length bs
         then let (xs, end) = read_all step bs pos' in (x # xs, end)
         else ([], pos))"
  by pat_completeness auto
termination
  by (relation "measure (\<lambda>(step, bs, pos). length bs - pos)") auto

declare read_all.simps [simp del]

locale framed_stream =
  fixes enc :: "'a \<Rightarrow> bytes"
    and ok :: "'a \<Rightarrow> bool"
    and step :: "bytes \<Rightarrow> nat \<Rightarrow> ('a \<times> nat) option"
  assumes step_enc: "ok x \<Longrightarrow> step (pre @ enc x @ rest) (length pre) = Some (x, length pre + length (enc x))"
    and step_mono: "step bs pos = Some (x, pos') \<Longrightarrow> step (bs @ c) pos = Some (x, pos')"
    and step_bounds: "step bs pos = Some (x, pos') \<Longrightarrow> pos < pos' \<and> pos' \<le> length bs"
begin

lemma enc_not_Nil: "ok x \<Longrightarrow> enc x \<noteq> []"
  using step_enc [of x "[]" "[]"] step_bounds [of "enc x" 0 x "length (enc x)"] by auto

lemma step_cut:
  assumes "ok x" "n < length (enc x)"
  shows "step (pre @ take n (enc x)) (length pre) = None"
proof (rule ccontr)
  assume "step (pre @ take n (enc x)) (length pre) \<noteq> None"
  then obtain y q where s: "step (pre @ take n (enc x)) (length pre) = Some (y, q)"
    by auto
  from step_mono [OF s, of "drop n (enc x)"] step_enc [OF assms(1), of pre "[]"]
  have "q = length pre + length (enc x)" by simp
  with step_bounds [OF s] assms(2) show False by simp
qed

lemma step_end: "step bs (length bs) = None"
proof (cases "step bs (length bs)")
  case (Some r)
  then show ?thesis using step_bounds [of bs "length bs" "fst r" "snd r"] by auto
qed simp

lemma read_n_enc:
  assumes "\<forall>x \<in> set xs. ok x"
  shows "read_n step (pre @ concat (map enc xs) @ rest) (length pre) (length xs) =
    (xs, length pre + length (concat (map enc xs)), 0)"
  using assms
proof (induction xs arbitrary: pre)
  case Nil
  then show ?case by simp
next
  case (Cons x xs)
  then have "step (pre @ enc x @ concat (map enc xs) @ rest) (length pre) =
      Some (x, length (pre @ enc x))"
    using step_enc [of x pre "concat (map enc xs) @ rest"] by simp
  moreover have "read_n step ((pre @ enc x) @ concat (map enc xs) @ rest) (length (pre @ enc x))
      (length xs) = (xs, length (pre @ enc x) + length (concat (map enc xs)), 0)"
    by (rule Cons.IH) (use Cons.prems in simp)
  ultimately show ?case by simp
qed

lemma read_n_mono:
  assumes "read_n step bs pos n = (xs, end, 0)"
  shows "read_n step (bs @ c) pos n = (xs, end, 0)"
  using assms
proof (induction n arbitrary: pos xs)
  case 0
  then show ?case by simp
next
  case (Suc n)
  then obtain x q where s: "step bs pos = Some (x, q)"
    by (auto split: option.splits)
  with Suc.prems obtain ys where "read_n step bs q n = (ys, end, 0)" "xs = x # ys"
    by (auto split: prod.splits)
  with Suc.IH step_mono [OF s] show ?case by simp
qed

lemma read_n_bounds:
  "read_n step bs pos n = (xs, end, 0) \<Longrightarrow> pos \<le> length bs \<Longrightarrow> pos \<le> end \<and> end \<le> length bs"
proof (induction n arbitrary: pos xs)
  case (Suc n)
  then obtain x q where s: "step bs pos = Some (x, q)"
    by (auto split: option.splits)
  with Suc.prems obtain ys where "read_n step bs q n = (ys, end, 0)"
    by (auto split: prod.splits)
  with Suc.IH [of q ys] step_bounds [OF s] show ?case by simp
qed simp

text \<open>Whole items followed by something no step accepts read back as the items.\<close>

lemma read_all_stop:
  assumes "\<forall>x \<in> set xs. ok x"
    and "step (pre @ concat (map enc xs) @ rest) (length pre + length (concat (map enc xs))) = None"
  shows "read_all step (pre @ concat (map enc xs) @ rest) (length pre) =
    (xs, length pre + length (concat (map enc xs)))"
  using assms
proof (induction xs arbitrary: pre)
  case Nil
  then show ?case by (subst read_all.simps) simp
next
  case (Cons x xs)
  from Cons.prems(2) have "read_all step ((pre @ enc x) @ concat (map enc xs) @ rest) (length (pre @ enc x)) =
      (xs, length (pre @ enc x) + length (concat (map enc xs)))"
    by (intro Cons.IH) (use Cons.prems(1) in \<open>simp_all add: add.assoc\<close>)
  with Cons.prems(1) step_enc [of x pre "concat (map enc xs) @ rest"] enc_not_Nil [of x]
  show ?case by (subst read_all.simps) simp
qed

text \<open>A buffer cut anywhere reads back as the items that are whole in it.\<close>

lemma read_all_cut:
  assumes "\<forall>x \<in> set xs. ok x"
  shows "\<exists>k \<le> length xs.
    read_all step (pre @ take n (concat (map enc xs))) (length pre) =
      (take k xs, length pre + length (concat (map enc (take k xs)))) \<and>
    length (concat (map enc (take k xs))) \<le> n \<and>
    (k < length xs \<longrightarrow> n < length (concat (map enc (take (Suc k) xs))))"
  using assms
proof (induction xs arbitrary: pre n)
  case Nil
  then show ?case using step_end [of pre] by (subst read_all.simps) simp
next
  case (Cons x xs)
  show ?case
  proof (cases "n < length (enc x)")
    case True
    then have "take n (concat (map enc (x # xs))) = take n (enc x)" by simp
    with True Cons.prems step_cut [of x n pre]
    have "read_all step (pre @ take n (concat (map enc (x # xs)))) (length pre) = ([], length pre)"
      by (subst read_all.simps) simp
    with True show ?thesis by (intro exI [of _ 0]) simp
  next
    case False
    let ?m = "n - length (enc x)"
    have eq: "pre @ take n (concat (map enc (x # xs))) =
        pre @ enc x @ take ?m (concat (map enc xs))"
      using False by simp
    from Cons obtain k where k: "k \<le> length xs"
      "read_all step ((pre @ enc x) @ take ?m (concat (map enc xs))) (length (pre @ enc x)) =
        (take k xs, length (pre @ enc x) + length (concat (map enc (take k xs))))"
      "length (concat (map enc (take k xs))) \<le> ?m"
      "k < length xs \<longrightarrow> ?m < length (concat (map enc (take (Suc k) xs)))"
      by (metis list.set_intros(2))
    have "read_all step (pre @ enc x @ take ?m (concat (map enc xs))) (length pre) =
        (x # take k xs, length (pre @ enc x) + length (concat (map enc (take k xs))))"
      using k(2) Cons.prems step_enc [of x pre] enc_not_Nil [of x]
      by (subst read_all.simps) simp
    then show ?thesis unfolding eq using k False
      by (intro exI [of _ "Suc k"]) auto
  qed
qed

end

end
