(* ===== verification/Keyed_Store.thy ===== *)
theory Keyed_Store
  imports Prelude
begin

text \<open>
  The interface of a store of values under keys, as the schema gate and the blob extraction use
  a document: a lookup, an insertion, and an invariant the insertion keeps. The law says what a
  lookup returns after an insertion; what a run of insertions leaves follows once here.
\<close>

locale keyed_store =
  fixes get :: "'d \<Rightarrow> 'k \<Rightarrow> 'v option"
    and ins :: "'d \<Rightarrow> 'k \<Rightarrow> 'v \<Rightarrow> 'd"
    and inv :: "'d \<Rightarrow> bool"
  assumes get_ins: "inv d \<Longrightarrow> get (ins d k v) j = (if j = k then Some v else get d j)"
    and inv_ins: "inv d \<Longrightarrow> inv (ins d k v)"
begin

lemma inv_foldl: "inv d \<Longrightarrow> inv (foldl (\<lambda>d (k, v). ins d k v) d kvs)"
  by (induction kvs arbitrary: d) (auto intro: inv_ins)

lemma get_foldl:
  "inv d \<Longrightarrow> get (foldl (\<lambda>d (k, v). ins d k v) d kvs) j =
    (case map_of (rev kvs) j of Some v \<Rightarrow> Some v | None \<Rightarrow> get d j)"
  by (induction kvs arbitrary: d)
    (auto simp: inv_ins get_ins map_add_def split: option.splits)

end

end
