(* ===== verification/Doc_Codec.thy ===== *)
theory Doc_Codec
  imports Value Varint Framing Keyed_Store "HOL-Library.Monad_Syntax"
begin

text \<open>
  The document of \<open>src/document/hako_doc.rs\<close>: its sorted field vector, the binary encoder, the
  framing walk (\<open>skip_value\<close> and the field iterator) and the owned decoders. Reads that the code
  ends with \<open>?\<close> are steps of the option monad; positions are byte offsets as in the code.
\<close>

section \<open>Documents\<close>

record hako_doc =
  doc_fields :: fields
  doc_time :: i64

definition field_probe :: "str \<Rightarrow> str \<times> value \<Rightarrow> ordering" where
  "field_probe key kv = cmp (fst kv) key"

definition doc_get :: "hako_doc \<Rightarrow> str \<Rightarrow> value option" where
  "doc_get d key =
    (case binary_search_by (field_probe key) (doc_fields d) of
       Inr pos \<Rightarrow> Some (snd (doc_fields d ! pos))
     | Inl _ \<Rightarrow> None)"

text \<open>One level per remaining path segment, through maps only, to the first entry of the name.\<close>

fun descend :: "value \<Rightarrow> str list \<Rightarrow> value option" where
  "descend cur [] = Some cur"
| "descend cur (seg # segs) =
    (if seg = [] then None
     else case cur of
         Map m \<Rightarrow> (case map_of m seg of None \<Rightarrow> None | Some v \<Rightarrow> descend v segs)
       | _ \<Rightarrow> None)"

definition doc_get_path :: "hako_doc \<Rightarrow> str \<Rightarrow> value option" where
  "doc_get_path d path =
    (case split_on 0x2E path of
       [] \<Rightarrow> None
     | first # segs \<Rightarrow>
         if first = [] then None
         else (case doc_get d first of None \<Rightarrow> None | Some v \<Rightarrow> descend v segs))"

definition doc_insert :: "hako_doc \<Rightarrow> str \<Rightarrow> value \<Rightarrow> hako_doc" where
  "doc_insert d key v =
    (case binary_search_by (field_probe key) (doc_fields d) of
       Inr pos \<Rightarrow> d\<lparr>doc_fields := (doc_fields d)[pos := (fst (doc_fields d ! pos), v)]\<rparr>
     | Inl pos \<Rightarrow>
         d\<lparr>doc_fields := take pos (doc_fields d) @ (key, v) # drop pos (doc_fields d)\<rparr>)"

definition project_fields :: "hako_doc \<Rightarrow> str list \<Rightarrow> fields" where
  "project_fields d projection =
    (if projection = [] then doc_fields d
     else List.map_filter
       (\<lambda>(k, v). map_option (Pair k) (prune_field_value v projection k)) (doc_fields d))"

section \<open>Encoder\<close>

definition u32_header :: "bytes \<Rightarrow> bytes" where
  "u32_header body = u32_le (of_nat (length body)) @ body"

definition encode_short_str :: "str \<Rightarrow> bytes" where
  "encode_short_str s = of_nat (length s) # s"

fun encode_value :: "value \<Rightarrow> bytes"
  and encode_fields :: "fields \<Rightarrow> bytes"
  and encode_items :: "value list \<Rightarrow> bytes"
where
  "encode_value Null = [0xC0]"
| "encode_value ServerTimestamp = [0xC1]"
| "encode_value (Bool b) = (if b then [0xC2] else [0xC3])"
| "encode_value (Int64 v) =
    (if 0 \<le> sint v \<and> sint v \<le> 15 then [0x10 OR ucast v]
     else 3 # u32_header (encode_varint (zigzag_encode v)))"
| "encode_value (String s) =
    (if length s \<le> 7 then (0x40 OR of_nat (length s)) # s else 5 # u32_header s)"
| "encode_value (Float v) = 4 # u32_le 8 @ u64_le v"
| "encode_value (Binary b) = 6 # u32_header b"
| "encode_value (Timestamp v) = 7 # u32_header (encode_varint (zigzag_encode v))"
| "encode_value (Map fs) = 8 # u32_header (u16_le (of_nat (length fs)) @ encode_fields fs)"
| "encode_value (Array vs) = 9 # u32_header (u32_le (of_nat (length vs)) @ encode_items vs)"
| "encode_value (Reference c d) = 10 # u32_header (encode_short_str c @ encode_short_str d)"
| "encode_value (BlobLink off len) = 11 # u32_le 12 @ u64_le off @ u32_le len"
| "encode_fields [] = []"
| "encode_fields ((k, v) # fs) = encode_short_str k @ encode_value v @ encode_fields fs"
| "encode_items [] = []"
| "encode_items (v # vs) = encode_value v @ encode_items vs"

definition doc_encode :: "hako_doc \<Rightarrow> bytes" where
  "doc_encode d =
    [0xF1, 5] @ u64_le (doc_time d) @ u16_le (of_nat (length (doc_fields d))) @
    encode_fields (doc_fields d)"

section \<open>Framing\<close>

definition skip_value :: "byte \<Rightarrow> bytes \<Rightarrow> nat \<Rightarrow> nat option" where
  "skip_value tag bytes pos =
    (if 0xC0 \<le> tag \<and> tag \<le> 0xC3 then Some pos
     else if tag AND 0xF0 = 0x10 then Some pos
     else if tag AND 0xF8 = 0x40 then
       (let pos' = pos + unat (tag AND 0x07) in
        if length bytes < pos' then None else Some pos')
     else if 3 \<le> tag \<and> tag \<le> 11 then
       (if length bytes < pos + 4 then None
        else let v_len = unat (le_u32 (subslice pos (pos + 4) bytes)) in
          if length bytes < pos + 4 + v_len then None else Some (pos + 4 + v_len))
     else None)"

text \<open>
  One framed entry: key length, key bytes, value tag and value span. \<open>raw_entry\<close> is the step of
  \<open>HakoDocRawIter\<close>; \<open>next_entry\<close> adds the UTF-8 check of the key, as the loops of the decoders
  and of the views do. The result is the key, the tag, the span and the position behind it.
\<close>

definition raw_entry :: "bytes \<Rightarrow> nat \<Rightarrow> (bytes \<times> byte \<times> bytes \<times> nat) option" where
  "raw_entry bytes pos = do {
     k_len \<leftarrow> get_at bytes pos;
     key \<leftarrow> get_range bytes (pos + 1) (pos + 1 + unat k_len);
     tag \<leftarrow> get_at bytes (pos + 1 + unat k_len);
     let start = pos + 1 + unat k_len + 1;
     pos' \<leftarrow> skip_value tag bytes start;
     Some (key, tag, subslice start pos' bytes, pos')
   }"

definition next_entry :: "bytes \<Rightarrow> nat \<Rightarrow> (str \<times> byte \<times> bytes \<times> nat) option" where
  "next_entry bytes pos = do {
     (key, tag, span, pos') \<leftarrow> raw_entry bytes pos;
     key' \<leftarrow> from_utf8 key;
     Some (key', tag, span, pos')
   }"

lemma skip_value_bounds:
  "skip_value tag bytes pos = Some pos' \<Longrightarrow> pos \<le> length bytes \<Longrightarrow> pos \<le> pos' \<and> pos' \<le> length bytes"
  by (auto simp: skip_value_def Let_def split: if_splits)

lemma raw_entry_bounds:
  assumes "raw_entry bytes pos = Some (key, tag, span, pos')"
  shows "pos < length bytes" "pos + 2 \<le> pos'" "pos' \<le> length bytes" "length span < length bytes"
proof -
  define k_len where "k_len = bytes ! pos"
  from assms have e: "pos < length bytes" "pos + 1 + unat k_len < length bytes"
    "skip_value tag bytes (pos + 1 + unat k_len + 1) = Some pos'"
    "span = subslice (pos + 1 + unat k_len + 1) pos' bytes"
    unfolding k_len_def by (auto simp: raw_entry_def bind_eq_Some_conv get_at_Some_iff Let_def)
  with skip_value_bounds [OF e(3)] show "pos < length bytes" "pos + 2 \<le> pos'" "pos' \<le> length bytes"
    by auto
  have "length span \<le> length bytes - (pos + 1 + unat k_len + 1)"
    unfolding e(4) by (rule length_subslice_le(2))
  with e(2) show "length span < length bytes" by linarith
qed

lemma next_entry_Some:
  "next_entry bytes pos = Some (key, tag, span, pos') \<longleftrightarrow>
    raw_entry bytes pos = Some (key, tag, span, pos') \<and> utf8_valid key"
  by (auto simp: next_entry_def bind_eq_Some_conv from_utf8_Some_iff)

section \<open>Decoder\<close>

function decode_value :: "byte \<Rightarrow> bytes \<Rightarrow> value option"
  and decode_map_loop :: "nat \<Rightarrow> bytes \<Rightarrow> nat \<Rightarrow> fields option"
  and decode_array_loop :: "nat \<Rightarrow> bytes \<Rightarrow> nat \<Rightarrow> value list option"
where
  "decode_value tag bytes =
    (if tag = 0xC0 then Some Null
     else if tag = 0xC1 then Some ServerTimestamp
     else if tag = 0xC2 then Some (Bool True)
     else if tag = 0xC3 then Some (Bool False)
     else if tag AND 0xF0 = 0x10 then Some (Int64 (ucast (tag AND 0x0F)))
     else if tag AND 0xF8 = 0x40 then do {
       s \<leftarrow> get_range bytes 0 (unat (tag AND 0x07));
       map_option String (from_utf8 s) }
     else if tag = 3 \<or> tag = 7 then do {
       (val, _) \<leftarrow> decode_varint bytes 4;
       Some (if tag = 3 then Int64 (zigzag_decode val) else Timestamp (zigzag_decode val)) }
     else if tag = 4 then do {
       b \<leftarrow> get_range bytes 4 12;
       Some (Float (le_u64 b)) }
     else if tag = 5 then do {
       h \<leftarrow> get_range bytes 0 4;
       s \<leftarrow> get_range bytes 4 (4 + unat (le_u32 h));
       map_option String (from_utf8 s) }
     else if tag = 6 then do {
       h \<leftarrow> get_range bytes 0 4;
       b \<leftarrow> get_range bytes 4 (4 + unat (le_u32 h));
       Some (Binary b) }
     else if tag = 8 then do {
       c \<leftarrow> get_range bytes 4 6;
       map_option Map (decode_map_loop (unat (le_u16 c)) bytes 6) }
     else if tag = 9 then do {
       c \<leftarrow> get_range bytes 4 8;
       map_option Array (decode_array_loop (unat (le_u32 c)) bytes 8) }
     else if tag = 10 then do {
       c_len \<leftarrow> get_at bytes 4;
       c \<leftarrow> get_range bytes 5 (5 + unat c_len);
       collection \<leftarrow> from_utf8 c;
       d_len \<leftarrow> get_at bytes (5 + unat c_len);
       d \<leftarrow> get_range bytes (6 + unat c_len) (6 + unat c_len + unat d_len);
       doc_id \<leftarrow> from_utf8 d;
       Some (Reference collection doc_id) }
     else if tag = 11 then do {
       o8 \<leftarrow> get_range bytes 4 12;
       l4 \<leftarrow> get_range bytes 12 16;
       Some (BlobLink (le_u64 o8) (le_u32 l4)) }
     else Some Null)"
| "decode_map_loop 0 bytes p = Some []"
| "decode_map_loop (Suc n) bytes p =
    (case next_entry bytes p of
       None \<Rightarrow> None
     | Some (key, tag, span, p') \<Rightarrow> do {
         v \<leftarrow> decode_value tag span;
         rest \<leftarrow> decode_map_loop n bytes p';
         Some ((key, v) # rest) })"
| "decode_array_loop 0 bytes p = Some []"
| "decode_array_loop (Suc n) bytes p =
    (case get_at bytes p of
       None \<Rightarrow> None
     | Some tag \<Rightarrow>
         (case skip_value tag bytes (p + 1) of
            None \<Rightarrow> None
          | Some p' \<Rightarrow> do {
              v \<leftarrow> decode_value tag (subslice (p + 1) p' bytes);
              rest \<leftarrow> decode_array_loop n bytes p';
              Some (v # rest) }))"
  by pat_completeness auto
termination
proof (relation "measures
    [case_sum (\<lambda>(t, b). length b) (case_sum (\<lambda>(n, b, p). length b) (\<lambda>(n, b, p). length b)),
     case_sum (\<lambda>_. 1) (\<lambda>_. 0),
     case_sum (\<lambda>_. 0) (case_sum (\<lambda>(n, b, p). n) (\<lambda>(n, b, p). n))]", goal_cases)
  case (4 n bytes p x key xa tag xb span p')
  then show ?case by (auto simp: next_entry_Some dest: raw_entry_bounds)
next
  case (6 n bytes p tag p')
  then have "p < length bytes" by (simp add: get_at_Some_iff)
  moreover have "length (subslice (p + 1) p' bytes) \<le> length bytes - (p + 1)"
    by (rule length_subslice_le)
  ultimately have "length (subslice (p + 1) p' bytes) < length bytes" by linarith
  then show ?case by simp
qed auto

declare decode_value.simps [simp del]

section \<open>Whole documents\<close>

record doc_view =
  view_bytes :: bytes
  view_count :: nat
  view_time :: i64

definition view_new :: "bytes \<Rightarrow> doc_view option" where
  "view_new bytes =
    (if length bytes < 12 \<or> bytes ! 0 \<noteq> 0xF1 \<or> bytes ! 1 \<noteq> 5 then None
     else Some \<lparr>view_bytes = bytes, view_count = unat (le_u16 (subslice 10 12 bytes)),
                view_time = le_u64 (subslice 2 10 bytes)\<rparr>)"

text \<open>
  A full pass of \<open>HakoDocIter\<close>: the items it yields, the position after the last of them and
  the number of fields not consumed, which is not zero when a step failed.
\<close>

fun iter_all :: "bytes \<Rightarrow> nat \<Rightarrow> nat \<Rightarrow> (str \<times> byte \<times> bytes) list \<times> nat \<times> nat" where
  "iter_all bytes pos 0 = ([], pos, 0)"
| "iter_all bytes pos (Suc remaining) =
    (case next_entry bytes pos of
       None \<Rightarrow> ([], pos, Suc remaining)
     | Some (key, tag, data, pos') \<Rightarrow>
         let (items, end, rest) = iter_all bytes pos' remaining
         in ((key, tag, data) # items, end, rest))"

fun decode_entries :: "(str \<times> byte \<times> bytes) list \<Rightarrow> fields option" where
  "decode_entries [] = Some []"
| "decode_entries ((key, tag, data) # es) = do {
     v \<leftarrow> decode_value tag data;
     rest \<leftarrow> decode_entries es;
     Some ((key, v) # rest) }"

definition doc_decode :: "bytes \<Rightarrow> hako_doc option" where
  "doc_decode bytes = do {
     view \<leftarrow> view_new bytes;
     let (items, position, remaining) = iter_all bytes 12 (view_count view);
     fs \<leftarrow> decode_entries items;
     if remaining \<noteq> 0 \<or> position \<noteq> length bytes then None
     else Some \<lparr>doc_fields = fs, doc_time = view_time view\<rparr>
   }"

fun decode_projected_entries :: "str list \<Rightarrow> (str \<times> byte \<times> bytes) list \<Rightarrow> fields option" where
  "decode_projected_entries projection [] = Some []"
| "decode_projected_entries projection ((key, tag, data) # es) =
    (if projection = [] \<or> key \<in> set (projection_prefixes projection) then do {
       val \<leftarrow> decode_value tag data;
       rest \<leftarrow> decode_projected_entries projection es;
       Some (if projection = [] then (key, val) # rest
             else case prune_field_value val projection key of
                 Some pruned \<Rightarrow> (key, pruned) # rest
               | None \<Rightarrow> rest) }
     else decode_projected_entries projection es)"

definition doc_decode_projected :: "bytes \<Rightarrow> str list \<Rightarrow> hako_doc option" where
  "doc_decode_projected bytes projection = do {
     view \<leftarrow> view_new bytes;
     let (items, position, remaining) = iter_all bytes 12 (view_count view);
     fs \<leftarrow> decode_projected_entries projection items;
     if remaining \<noteq> 0 \<or> position \<noteq> length bytes then None
     else Some \<lparr>doc_fields = fs, doc_time = view_time view\<rparr>
   }"

section \<open>Values the format can hold\<close>

definition key_ok :: "str \<Rightarrow> bool" where
  "key_ok k \<longleftrightarrow> utf8_valid k \<and> length k < 256"

fun enc_ok :: "value \<Rightarrow> bool" where
  "enc_ok (String s) = (utf8_valid s \<and> length s < 2 ^ 32)"
| "enc_ok (Binary b) = (length b < 2 ^ 32)"
| "enc_ok (Reference c d) = (key_ok c \<and> key_ok d)"
| "enc_ok (Map fs) =
    (length fs < 2 ^ 16 \<and> 2 + length (encode_fields fs) < 2 ^ 32 \<and>
     list_all (\<lambda>(k, v). key_ok k \<and> enc_ok v) fs)"
| "enc_ok (Array vs) =
    (length vs < 2 ^ 32 \<and> 4 + length (encode_items vs) < 2 ^ 32 \<and> list_all enc_ok vs)"
| "enc_ok _ = True"

definition doc_ok :: "hako_doc \<Rightarrow> bool" where
  "doc_ok d \<longleftrightarrow> length (doc_fields d) < 2 ^ 16 \<and>
    list_all (\<lambda>(k, v). key_ok k \<and> enc_ok v) (doc_fields d)"

section \<open>Tags\<close>

lemma small_int_tag:
  fixes v :: i64
  assumes "0 \<le> sint v" "sint v \<le> 15"
  obtains n where "n < 16" "v = of_nat n" "0x10 OR ucast v = (0x10 OR of_nat n :: byte)"
proof (rule that [of "nat (sint v)"])
  show "nat (sint v) < 16" using assms by simp
  show v: "v = of_nat (nat (sint v))" using assms(1) by simp
  show "0x10 OR ucast v = (0x10 OR of_nat (nat (sint v)) :: byte)"
  proof -
    have "unat v = unat (of_nat (nat (sint v)) :: i64)" using v by simp
    also have "\<dots> = nat (sint v)" using assms(2) by (subst unat_of_nat) simp
    finally have "of_nat (unat v) = (of_nat (nat (sint v)) :: byte)" by (rule arg_cong)
    then show ?thesis by (simp only: of_nat_unat)
  qed
qed

lemma inline_int_tag:
  assumes "n < 16"
  shows "(0x10 OR of_nat n :: byte) AND 0xF0 = 0x10"
    and "ucast ((0x10 OR of_nat n :: byte) AND 0x0F) = (of_nat n :: u64)"
    and "\<not> 0xC0 \<le> (0x10 OR of_nat n :: byte)"
proof -
  have "n \<in> set [0..<16]" using assms by simp
  then have "list_ex (\<lambda>i. n = i) [0..<16]" by (simp add: list_ex_iff)
  then show "(0x10 OR of_nat n :: byte) AND 0xF0 = 0x10"
    "ucast ((0x10 OR of_nat n :: byte) AND 0x0F) = (of_nat n :: u64)"
    "\<not> 0xC0 \<le> (0x10 OR of_nat n :: byte)"
    by (simp_all add: upt_rec) (elim disjE; simp)+
qed

lemma inline_str_tag:
  assumes "n \<le> 7"
  shows "(0x40 OR of_nat n :: byte) AND 0xF0 \<noteq> 0x10"
    and "(0x40 OR of_nat n :: byte) AND 0xF8 = 0x40"
    and "unat ((0x40 OR of_nat n :: byte) AND 0x07) = n"
    and "\<not> 0xC0 \<le> (0x40 OR of_nat n :: byte)"
proof -
  have "n \<in> set [0..<8]" using assms by simp
  then have "list_ex (\<lambda>i. n = i) [0..<8]" by (simp add: list_ex_iff)
  then show "(0x40 OR of_nat n :: byte) AND 0xF0 \<noteq> 0x10"
    "(0x40 OR of_nat n :: byte) AND 0xF8 = 0x40"
    "unat ((0x40 OR of_nat n :: byte) AND 0x07) = n"
    "\<not> 0xC0 \<le> (0x40 OR of_nat n :: byte)"
    by (simp_all add: upt_rec) (elim disjE; simp)+
qed

lemma decode_value_tag:
  "decode_value 0xC0 bs = Some Null"
  "decode_value 0xC1 bs = Some ServerTimestamp"
  "decode_value 0xC2 bs = Some (Bool True)"
  "decode_value 0xC3 bs = Some (Bool False)"
  "decode_value 3 bs = do { (v, _) \<leftarrow> decode_varint bs 4; Some (Int64 (zigzag_decode v)) }"
  "decode_value 7 bs = do { (v, _) \<leftarrow> decode_varint bs 4; Some (Timestamp (zigzag_decode v)) }"
  "decode_value 4 bs = do { b \<leftarrow> get_range bs 4 12; Some (Float (le_u64 b)) }"
  "decode_value 5 bs = do { h \<leftarrow> get_range bs 0 4; s \<leftarrow> get_range bs 4 (4 + unat (le_u32 h));
     map_option String (from_utf8 s) }"
  "decode_value 6 bs = do { h \<leftarrow> get_range bs 0 4; b \<leftarrow> get_range bs 4 (4 + unat (le_u32 h));
     Some (Binary b) }"
  "decode_value 8 bs = do { c \<leftarrow> get_range bs 4 6;
     map_option Map (decode_map_loop (unat (le_u16 c)) bs 6) }"
  "decode_value 9 bs = do { c \<leftarrow> get_range bs 4 8;
     map_option Array (decode_array_loop (unat (le_u32 c)) bs 8) }"
  "decode_value 11 bs = do { o8 \<leftarrow> get_range bs 4 12; l4 \<leftarrow> get_range bs 12 16;
     Some (BlobLink (le_u64 o8) (le_u32 l4)) }"
  by (simp_all add: decode_value.simps)

lemma decode_value_tag_10:
  "decode_value 10 bs = do {
     c_len \<leftarrow> get_at bs 4;
     c \<leftarrow> get_range bs 5 (5 + unat c_len);
     collection \<leftarrow> from_utf8 c;
     d_len \<leftarrow> get_at bs (5 + unat c_len);
     d \<leftarrow> get_range bs (6 + unat c_len) (6 + unat c_len + unat d_len);
     doc_id \<leftarrow> from_utf8 d;
     Some (Reference collection doc_id) }"
  by (simp add: decode_value.simps)

lemma inline_masks:
  fixes tag :: byte
  shows "tag AND 0xF8 = 0x40 \<Longrightarrow> tag AND 0xF0 = 0x40"
proof -
  assume "tag AND 0xF8 = 0x40"
  moreover have "tag AND 0xF0 = (tag AND 0xF8) AND 0xF0" by (simp add: and.assoc)
  ultimately show ?thesis by simp
qed

lemma decode_value_inline_mask:
  "tag AND 0xF0 = 0x10 \<Longrightarrow> decode_value tag bs = Some (Int64 (ucast (tag AND 0x0F)))"
  "tag AND 0xF8 = 0x40 \<Longrightarrow> decode_value tag bs =
     do { s \<leftarrow> get_range bs 0 (unat (tag AND 0x07)); map_option String (from_utf8 s) }"
  using inline_masks [of tag] by (auto simp: decode_value.simps [of tag])

lemma decode_value_other:
  "tag AND 0xF0 \<noteq> 0x10 \<Longrightarrow> tag AND 0xF8 \<noteq> 0x40 \<Longrightarrow> tag \<notin> {0xC0, 0xC1, 0xC2, 0xC3, 3, 4, 5, 6, 7, 8, 9, 10, 11} \<Longrightarrow>
    decode_value tag bs = Some Null"
  by (simp add: decode_value.simps [of tag])

lemma tag_cases [case_names int str lit other]:
  fixes tag :: byte
  obtains (int) "tag AND 0xF0 = 0x10" "tag AND 0xF8 \<noteq> 0x40"
  | (str) "tag AND 0xF8 = 0x40" "tag AND 0xF0 \<noteq> 0x10"
  | (lit) "tag = 0xC0 \<or> tag = 0xC1 \<or> tag = 0xC2 \<or> tag = 0xC3 \<or> tag = 3 \<or> tag = 4 \<or> tag = 5 \<or> tag = 6 \<or> tag = 7 \<or>
      tag = 8 \<or> tag = 9 \<or> tag = 10 \<or> tag = 11"
  | (other) "tag AND 0xF0 \<noteq> 0x10" "tag AND 0xF8 \<noteq> 0x40"
      "tag \<notin> {0xC0, 0xC1, 0xC2, 0xC3, 3, 4, 5, 6, 7, 8, 9, 10, 11}"
  using inline_masks [of tag] by auto

lemma decode_value_inline_int: "n < 16 \<Longrightarrow> decode_value (0x10 OR of_nat n) bs = Some (Int64 (of_nat n))"
  using inline_int_tag [of n] by (subst decode_value.simps) auto

lemma decode_value_inline_str:
  "n \<le> 7 \<Longrightarrow> decode_value (0x40 OR of_nat n) bs =
    do { s \<leftarrow> get_range bs 0 n; map_option String (from_utf8 s) }"
  using inline_str_tag [of n] by (subst decode_value.simps) auto

text \<open>Spans that the framing walk crosses exactly, wherever they stand in a buffer.\<close>

definition span_ok :: "byte \<Rightarrow> bytes \<Rightarrow> bool" where
  "span_ok t sp \<longleftrightarrow>
    (\<forall>pre rest. skip_value t (pre @ sp @ rest) (length pre) = Some (length pre + length sp))"

lemma skip_value_header:
  assumes "3 \<le> t" "t \<le> 11" "length body < 2 ^ 32"
  shows "span_ok t (u32_header body)"
proof -
  have n: "\<not> (0xC0 \<le> t)" using assms(2) by (simp add: word_le_nat_alt)
  have "t = 3 \<or> t = 4 \<or> t = 5 \<or> t = 6 \<or> t = 7 \<or> t = 8 \<or> t = 9 \<or> t = 10 \<or> t = 11"
  proof -
    have "unat t = 3 \<or> unat t = 4 \<or> unat t = 5 \<or> unat t = 6 \<or> unat t = 7 \<or> unat t = 8 \<or>
      unat t = 9 \<or> unat t = 10 \<or> unat t = 11"
      using assms(1,2) unfolding word_le_nat_alt by simp arith
    moreover have "t = of_nat (unat t)" by simp
    ultimately show ?thesis by (elim disjE) (simp_all only: of_nat_numeral simp_thms)
  qed
  then have "t AND 0xF0 \<noteq> 0x10" "t AND 0xF8 \<noteq> 0x40" by (elim disjE; simp)+
  moreover have "subslice (length pre) (length pre + 4) (pre @ u32_header body @ rest) =
      u32_le (of_nat (length body))" for pre rest
    by (simp add: subslice_def u32_header_def)
  ultimately show ?thesis
    using assms n by (simp add: span_ok_def skip_value_def u32_header_def unat_of_nat_small)
qed

lemma span_ok_inline:
  "span_ok 0xC0 []" "span_ok 0xC1 []" "span_ok 0xC2 []" "span_ok 0xC3 []"
  "n < 16 \<Longrightarrow> span_ok (0x10 OR of_nat n) []"
  "length s \<le> 7 \<Longrightarrow> span_ok (0x40 OR of_nat (length s)) s"
  using inline_int_tag [of n] inline_str_tag [of "length s"]
  by (simp_all add: span_ok_def skip_value_def)

lemma u32_le_header:
  "u32_le 8 @ u64_le v = u32_header (u64_le v)"
  "u32_le 12 @ u64_le off @ u32_le len = u32_header (u64_le off @ u32_le len)"
  by (simp_all add: u32_header_def)

lemma span_ok_encode:
  assumes "enc_ok v" "encode_value v = t # sp"
  shows "span_ok t sp"
proof (cases v)
  case (Int64 i)
  then show ?thesis
    using assms length_encode_varint [of "zigzag_encode i"]
    by (auto simp: span_ok_inline skip_value_header elim!: small_int_tag split: if_splits)
next
  case (Timestamp i)
  then show ?thesis
    using assms length_encode_varint [of "zigzag_encode i"] by (auto simp: skip_value_header)
next
  case (Reference c d)
  then show ?thesis
    using assms by (auto simp: skip_value_header key_ok_def encode_short_str_def)
qed (use assms in \<open>auto simp: span_ok_inline skip_value_header u32_le_header split: if_splits\<close>)

lemma encode_value_not_Nil: "encode_value v \<noteq> []"
  by (cases v) auto

section \<open>Entries\<close>

lemma skip_value_mono: "skip_value t bs p = Some q \<Longrightarrow> skip_value t (bs @ c) p = Some q"
  by (auto simp: skip_value_def Let_def subslice_append_left split: if_splits)

lemma raw_entry_mono:
  assumes "raw_entry bs p = Some (k, t, sp, q)"
  shows "raw_entry (bs @ c) p = Some (k, t, sp, q)"
proof -
  from assms obtain n where e: "get_at bs p = Some n"
    "get_range bs (p + 1) (p + 1 + unat n) = Some k" "get_at bs (p + 1 + unat n) = Some t"
    "skip_value t bs (p + 1 + unat n + 1) = Some q" "subslice (p + 1 + unat n + 1) q bs = sp"
    by (auto simp only: raw_entry_def bind_eq_Some_conv Let_def option.inject prod.inject)
  have "subslice (p + 1 + unat n + 1) q (bs @ c) = sp"
    using raw_entry_bounds(3) [OF assms] e(5) by (simp add: subslice_append_left)
  with get_at_mono [OF e(1)] get_range_mono [OF e(2)] get_at_mono [OF e(3)] skip_value_mono [OF e(4)]
  show ?thesis
    by (simp only: raw_entry_def bind.bind_lunit Let_def)
qed

lemma raw_entry_encode:
  assumes "length k < 256" "span_ok t sp"
  shows "raw_entry (pre @ encode_short_str k @ t # sp @ rest) (length pre) =
    Some (k, t, sp, length pre + length (encode_short_str k @ t # sp))"
proof -
  let ?bs = "pre @ encode_short_str k @ t # sp @ rest"
  have "get_at ?bs (length pre) = Some (of_nat (length k))"
    by (simp add: get_at_def encode_short_str_def)
  moreover have "get_range ?bs (length pre + 1) (length pre + 1 + length k) = Some k"
    by (simp add: get_range_def subslice_def encode_short_str_def)
  moreover have "get_at ?bs (length pre + 1 + length k) = Some t"
    by (simp add: get_at_def encode_short_str_def nth_append)
  moreover have "skip_value t ?bs (length pre + 1 + length k + 1) =
      Some (length pre + 1 + length k + 1 + length sp)"
    using assms(2) [unfolded span_ok_def, rule_format, of "pre @ encode_short_str k @ [t]" rest]
    by (simp add: encode_short_str_def)
  moreover have "subslice (length pre + 1 + length k + 1) (length pre + 1 + length k + 1 + length sp) ?bs = sp"
    by (simp add: subslice_def encode_short_str_def)
  ultimately show ?thesis
    using assms(1) by (simp add: raw_entry_def unat_of_nat_small encode_short_str_def)
qed

type_synonym entry = "str \<times> byte \<times> bytes"

definition entry_enc :: "entry \<Rightarrow> bytes" where
  "entry_enc e = (case e of (k, t, sp) \<Rightarrow> encode_short_str k @ t # sp)"

definition entry_ok :: "entry \<Rightarrow> bool" where
  "entry_ok e = (case e of (k, t, sp) \<Rightarrow> key_ok k \<and> span_ok t sp)"

definition entry_step :: "bytes \<Rightarrow> nat \<Rightarrow> (entry \<times> nat) option" where
  "entry_step bs pos = map_option (\<lambda>(k, t, sp, p). ((k, t, sp), p)) (next_entry bs pos)"

lemma entry_step_Some:
  "entry_step bs pos = Some ((k, t, sp), p) \<longleftrightarrow> next_entry bs pos = Some (k, t, sp, p)"
  by (auto simp: entry_step_def)

interpretation entries: framed_stream entry_enc entry_ok entry_step
proof unfold_locales
  fix x pre rest
  assume "entry_ok x"
  then show "entry_step (pre @ entry_enc x @ rest) (length pre) = Some (x, length pre + length (entry_enc x))"
    by (cases x) (simp add: entry_ok_def entry_enc_def entry_step_Some next_entry_Some key_ok_def
        raw_entry_encode)
next
  fix bs pos x pos' c
  assume "entry_step bs pos = Some (x, pos')"
  then show "entry_step (bs @ c) pos = Some (x, pos')"
    by (cases x) (simp add: entry_step_Some next_entry_Some raw_entry_mono)
next
  fix bs pos x pos'
  assume "entry_step bs pos = Some (x, pos')"
  then show "pos < pos' \<and> pos' \<le> length bs"
    by (cases x) (auto simp: entry_step_Some next_entry_Some dest: raw_entry_bounds)
qed

lemma iter_all_read_n: "iter_all bs pos n = read_n entry_step bs pos n"
  by (induction n arbitrary: pos)
    (auto simp: entry_step_def split: option.splits prod.splits)

section \<open>Round trip\<close>

lemma get_range_header [codec_simps]:
  "get_range (u32_header b) 0 4 = Some (u32_le (of_nat (length b)))"
  "4 \<le> i \<Longrightarrow> i \<le> j \<Longrightarrow> get_range (u32_header b) i j = get_range b (i - 4) (j - 4)"
  "4 \<le> i \<Longrightarrow> get_at (u32_header b) i = get_at b (i - 4)"
  by (auto simp: u32_header_def get_range_def subslice_def get_at_def nth_append)

lemma get_range_zero [codec_simps]: "get_range b 0 (length b) = Some b"
  by (simp add: get_range_def subslice_def)

lemma get_range_first [codec_simps]: "n = length a \<Longrightarrow> get_range (a @ b) 0 n = Some a"
  by (simp add: get_range_def subslice_def)

lemma decode_header_str:
  assumes "length s < 2 ^ 32" "utf8_valid s"
  shows "decode_value 5 (u32_header s) = Some (String s)"
  using assms by (simp add: decode_value_tag codec_simps unat_of_nat_small from_utf8_def)

lemma decode_header_binary:
  "length s < 2 ^ 32 \<Longrightarrow> decode_value 6 (u32_header s) = Some (Binary s)"
  by (simp add: decode_value_tag codec_simps unat_of_nat_small)

lemma decode_header_varint:
  "decode_value 3 (u32_header (encode_varint (zigzag_encode v))) = Some (Int64 v)"
  "decode_value 7 (u32_header (encode_varint (zigzag_encode v))) = Some (Timestamp v)"
  using decode_varint_encode [of 4 "u32_le (of_nat (length (encode_varint (zigzag_encode v))))"
      "zigzag_encode v" "[]"]
  by (simp_all add: decode_value_tag u32_header_def zigzag_decode_encode)

lemma decode_header_fixed:
  "decode_value 4 (u32_le 8 @ u64_le f) = Some (Float f)"
  "decode_value 11 (u32_le 12 @ u64_le off @ u32_le len) = Some (BlobLink off len)"
  by (simp_all add: decode_value_tag get_range_def subslice_def)

lemma decode_header_reference:
  assumes "key_ok c" "key_ok d"
  shows "decode_value 10 (u32_header (encode_short_str c @ encode_short_str d)) = Some (Reference c d)"
proof -
  let ?b = "encode_short_str c @ encode_short_str d"
  have "get_at ?b 0 = Some (of_nat (length c))" "get_range ?b 1 (1 + length c) = Some c"
    "get_at ?b (1 + length c) = Some (of_nat (length d))"
    "get_range ?b (2 + length c) (2 + length c + length d) = Some d"
    by (simp_all add: encode_short_str_def get_at_def get_range_def subslice_def nth_append)
  then show ?thesis
    using assms by (simp add: decode_value_tag_10 get_range_header key_ok_def unat_of_nat_small from_utf8_def)
qed

lemma decode_encode_loops:
  "enc_ok v \<Longrightarrow> encode_value v = t # sp \<Longrightarrow> decode_value t sp = Some v"
  "list_all (\<lambda>(k, v). key_ok k \<and> enc_ok v) fs \<Longrightarrow>
    decode_map_loop (length fs) (pre @ encode_fields fs @ rest) (length pre) = Some fs"
  "list_all enc_ok vs \<Longrightarrow>
    decode_array_loop (length vs) (pre @ encode_items vs @ rest) (length pre) = Some vs"
proof (induction v and fs and vs arbitrary: t sp and pre rest and pre rest
    rule: encode_value_encode_fields_encode_items.induct)
  case (4 v)
  then show ?case
    by (auto simp: decode_header_varint decode_value_inline_int elim!: small_int_tag split: if_splits)
next
  case (5 s)
  then show ?case
    by (auto simp: decode_header_str decode_value_inline_str codec_simps from_utf8_def split: if_splits)
next
  case (9 fs)
  let ?h = "u32_le (of_nat (2 + length (encode_fields fs))) @ u16_le (of_nat (length fs))"
  have sp: "t = 8" "sp = ?h @ encode_fields fs" using 9(3) by (auto simp: u32_header_def)
  have "decode_map_loop (length fs) (?h @ encode_fields fs @ []) (length ?h) = Some fs"
    by (rule 9(1)) (use 9(2) in simp)
  moreover have "get_range sp 4 6 = Some (u16_le (of_nat (length fs)))"
    unfolding sp by (simp add: get_range_def subslice_def)
  ultimately show ?case
    using 9(2) by (simp add: sp(1) decode_value_tag unat_of_nat_small) (simp add: sp(2))
next
  case (10 vs)
  let ?h = "u32_le (of_nat (4 + length (encode_items vs))) @ u32_le (of_nat (length vs))"
  have sp: "t = 9" "sp = ?h @ encode_items vs" using 10(3) by (auto simp: u32_header_def)
  have "decode_array_loop (length vs) (?h @ encode_items vs @ []) (length ?h) = Some vs"
    by (rule 10(1)) (use 10(2) in simp)
  moreover have "get_range sp 4 8 = Some (u32_le (of_nat (length vs)))"
    unfolding sp by (simp add: get_range_def subslice_def)
  ultimately show ?case
    using 10(2) by (simp add: sp(1) decode_value_tag unat_of_nat_small) (simp add: sp(2))
next
  case (14 k v fs)
  obtain t sp where v: "encode_value v = t # sp"
    using encode_value_not_Nil [of v] by (cases "encode_value v") auto
  let ?e = "encode_short_str k @ t # sp"
  have ok: "key_ok k" "enc_ok v" "list_all (\<lambda>(k, v). key_ok k \<and> enc_ok v) fs" using 14(3) by auto
  have "raw_entry (pre @ ?e @ encode_fields fs @ rest) (length pre) = Some (k, t, sp, length (pre @ ?e))"
    using raw_entry_encode [OF _ span_ok_encode [OF ok(2) v], of k pre "encode_fields fs @ rest"] ok(1)
    by (simp add: key_ok_def)
  then have "next_entry (pre @ ?e @ encode_fields fs @ rest) (length pre) = Some (k, t, sp, length (pre @ ?e))"
    using ok(1) by (simp add: next_entry_Some key_ok_def)
  moreover have "decode_value t sp = Some v" by (rule 14(1) [OF ok(2) v])
  moreover have "decode_map_loop (length fs) ((pre @ ?e) @ encode_fields fs @ rest) (length (pre @ ?e)) = Some fs"
    by (rule 14(2) [OF ok(3)])
  ultimately show ?case by (simp add: v)
next
  case (16 v vs)
  obtain t sp where v: "encode_value v = t # sp"
    using encode_value_not_Nil [of v] by (cases "encode_value v") auto
  have ok: "enc_ok v" "list_all enc_ok vs" using 16(3) by auto
  let ?bs = "pre @ (t # sp) @ encode_items vs @ rest"
  have "get_at ?bs (length pre) = Some t" by (simp add: get_at_def)
  moreover have "skip_value t ?bs (length pre + 1) = Some (length (pre @ t # sp))"
    using span_ok_encode [OF ok(1) v, unfolded span_ok_def, rule_format, of "pre @ [t]" "encode_items vs @ rest"]
    by simp
  moreover have "subslice (length pre + 1) (length (pre @ t # sp)) ?bs = sp"
    by (simp add: subslice_def)
  moreover have "decode_value t sp = Some v" by (rule 16(1) [OF ok(1) v])
  moreover have "decode_array_loop (length vs) ((pre @ t # sp) @ encode_items vs @ rest) (length (pre @ t # sp)) = Some vs"
    by (rule 16(2) [OF ok(2)])
  ultimately show ?case by (simp add: v)
qed (auto simp: decode_value_tag(1-4) decode_header_binary decode_header_fixed decode_header_varint
    decode_header_reference split: if_splits)


section \<open>Whole documents\<close>

definition entry_of :: "str \<times> value \<Rightarrow> entry" where
  "entry_of kv = (fst kv, hd (encode_value (snd kv)), tl (encode_value (snd kv)))"

lemma encode_value_hd_tl: "hd (encode_value v) # tl (encode_value v) = encode_value v"
  using encode_value_not_Nil [of v] by simp

lemma encode_fields_entries: "encode_fields fs = concat (map entry_enc (map entry_of fs))"
  by (induction fs) (auto simp: entry_enc_def entry_of_def encode_value_hd_tl encode_value_not_Nil)

lemma entries_ok:
  "list_all (\<lambda>(k, v). key_ok k \<and> enc_ok v) fs \<Longrightarrow> \<forall>e \<in> set (map entry_of fs). entry_ok e"
  by (induction fs)
    (auto simp: entry_ok_def entry_of_def encode_value_not_Nil intro: span_ok_encode)

lemma decode_entries_of:
  "list_all (\<lambda>(k, v). key_ok k \<and> enc_ok v) fs \<Longrightarrow> decode_entries (map entry_of fs) = Some fs"
  by (induction fs) (auto simp: entry_of_def decode_encode_loops(1) encode_value_hd_tl)

definition doc_header :: "hako_doc \<Rightarrow> bytes" where
  "doc_header d = [0xF1, 5] @ u64_le (doc_time d) @ u16_le (of_nat (length (doc_fields d)))"

lemma doc_encode_header: "doc_encode d = doc_header d @ encode_fields (doc_fields d)"
  by (simp add: doc_encode_def doc_header_def)

lemma length_doc_header [simp]: "length (doc_header d) = 12"
  by (simp add: doc_header_def)

lemma view_new_encode:
  "doc_ok d \<Longrightarrow> view_new (doc_encode d) =
    Some \<lparr>view_bytes = doc_encode d, view_count = length (doc_fields d), view_time = doc_time d\<rparr>"
  by (simp add: view_new_def doc_encode_def doc_ok_def subslice_def unat_of_nat_small)

lemma iter_all_encode:
  assumes "doc_ok d"
  shows "iter_all (doc_encode d) 12 (length (doc_fields d)) =
    (map entry_of (doc_fields d), length (doc_encode d), 0)"
  using entries.read_n_enc [of "map entry_of (doc_fields d)" "doc_header d" "[]"]
    entries_ok [of "doc_fields d"] assms
  by (simp add: iter_all_read_n doc_encode_header encode_fields_entries doc_ok_def)

lemma doc_decode_encode: "doc_ok d \<Longrightarrow> doc_decode (doc_encode d) = Some d"
  by (simp add: doc_decode_def view_new_encode iter_all_encode decode_entries_of doc_ok_def)

lemma view_new_append:
  assumes "view_new b = Some v"
  shows "view_new (b @ c) = Some (v\<lparr>view_bytes := b @ c\<rparr>)"
  using assms by (auto simp: view_new_def nth_append subslice_append_left split: if_splits)

lemma doc_decode_Some_iff:
  "doc_decode b = Some d \<longleftrightarrow> (\<exists>items. view_new b \<noteq> None \<and>
    iter_all b 12 (view_count (the (view_new b))) = (items, length b, 0) \<and>
    decode_entries items = Some (doc_fields d) \<and> doc_time d = view_time (the (view_new b)))"
proof (cases "view_new b")
  case None
  then show ?thesis by (simp add: doc_decode_def)
next
  case (Some v)
  obtain items p r where "iter_all b 12 (view_count v) = (items, p, r)" by (metis prod_cases3)
  with Some show ?thesis
    by (cases d) (auto simp: doc_decode_def bind_eq_Some_conv)
qed

lemma doc_decode_append:
  assumes "doc_decode b = Some d" "doc_decode (b @ c) = Some d'"
  shows "c = []"
proof -
  from assms(1) obtain v items where v: "view_new b = Some v"
    and it: "iter_all b 12 (view_count v) = (items, length b, 0)"
    by (auto simp: doc_decode_Some_iff)
  have "iter_all (b @ c) 12 (view_count v) = (items, length b, 0)"
    using entries.read_n_mono it unfolding iter_all_read_n by blast
  with assms(2) view_new_append [OF v, of c] show ?thesis
    by (auto simp: doc_decode_Some_iff)
qed

lemma doc_decode_take:
  assumes "doc_ok d" "n < length (doc_encode d)"
  shows "doc_decode (take n (doc_encode d)) = None"
proof (rule ccontr)
  assume "doc_decode (take n (doc_encode d)) \<noteq> None"
  then obtain d' where "doc_decode (take n (doc_encode d)) = Some d'" by auto
  moreover have "doc_decode (take n (doc_encode d) @ drop n (doc_encode d)) = Some d"
    using doc_decode_encode [OF assms(1)] by simp
  ultimately have "drop n (doc_encode d) = []" by (rule doc_decode_append)
  with assms(2) show False by simp
qed

section \<open>The sorted field vector\<close>

definition doc_sorted :: "hako_doc \<Rightarrow> bool" where
  "doc_sorted d \<longleftrightarrow> sorted_wrt (<) (map fst (doc_fields d))"

lemma probe_sorted_fields:
  assumes "sorted_wrt (<) (map fst fs)"
  shows "probe_sorted (field_probe key) fs"
  unfolding probe_sorted_nth field_probe_def
proof (intro allI impI conjI)
  fix i j
  assume "i < j" "j < length fs"
  with assms have "fst (fs ! i) < fst (fs ! j)" by (simp add: sorted_wrt_iff_nth_less)
  from cmp_probe [OF this]
  show "cmp (fst (fs ! j)) key \<noteq> Greater \<Longrightarrow> cmp (fst (fs ! i)) key = Less"
    and "cmp (fst (fs ! i)) key \<noteq> Less \<Longrightarrow> cmp (fst (fs ! j)) key = Greater"
    by blast+
qed

lemma doc_get_map_of:
  assumes "doc_sorted d"
  shows "doc_get d key = map_of (doc_fields d) key"
proof (cases "binary_search_by (field_probe key) (doc_fields d)")
  case (Inl p)
  note s = binary_search_Inl [OF probe_sorted_fields [OF assms [unfolded doc_sorted_def]] Inl]
  have "fst (doc_fields d ! i) \<noteq> key" if "i < length (doc_fields d)" for i
  proof
    assume "fst (doc_fields d ! i) = key"
    then have "field_probe key (doc_fields d ! i) = Equal" by (simp add: field_probe_def)
    with s that show False by (cases "i < p") auto
  qed
  then have "key \<notin> fst ` set (doc_fields d)" by (auto simp: in_set_conv_nth) (metis fst_conv)
  then have "map_of (doc_fields d) key = None" by (simp add: map_of_eq_None_iff)
  with Inl show ?thesis by (simp add: doc_get_def)
next
  case (Inr p)
  note s = binary_search_Inr [OF probe_sorted_fields [OF assms [unfolded doc_sorted_def]] Inr]
  then have "fst (doc_fields d ! p) = key" by (simp add: field_probe_def)
  with s map_of_nth_sorted [OF assms [unfolded doc_sorted_def], of p] Inr show ?thesis
    by (simp add: doc_get_def)
qed

lemma doc_insert_sorted:
  assumes "doc_sorted d"
  shows "doc_sorted (doc_insert d key v) \<and>
    map_of (doc_fields (doc_insert d key v)) = (map_of (doc_fields d))(key \<mapsto> v)"
proof (cases "binary_search_by (field_probe key) (doc_fields d)")
  case (Inl p)
  let ?fs = "doc_fields d"
  note s = binary_search_Inl [OF probe_sorted_fields [OF assms [unfolded doc_sorted_def]] Inl]
  have lo: "k < key" if "k \<in> fst ` set (take p ?fs)" for k
    using s that by (auto simp: field_probe_def in_set_conv_nth) (metis fst_conv)
  have hi: "key < k" if "k \<in> fst ` set (drop p ?fs)" for k
    using s that by (auto simp: field_probe_def in_set_conv_nth)
      (metis fst_conv le_add1 add.commute less_diff_conv)
  have "sorted_wrt (<) (map fst (take p ?fs @ drop p ?fs))"
    using assms by (simp add: doc_sorted_def)
  with lo hi have "doc_sorted (doc_insert d key v)"
    unfolding map_append sorted_wrt_append
    by (auto simp: doc_sorted_def doc_insert_def Inl sorted_wrt_append)
  moreover have "key \<notin> fst ` set (take p ?fs)" using lo by blast
  then have "map_of (take p ?fs @ (key, v) # drop p ?fs) = (map_of (take p ?fs @ drop p ?fs))(key \<mapsto> v)"
    by (rule map_of_insert_mid)
  then have "map_of (doc_fields (doc_insert d key v)) = (map_of ?fs)(key \<mapsto> v)"
    by (simp only: append_take_drop_id) (simp add: doc_insert_def Inl)
  ultimately show ?thesis by simp
next
  case (Inr p)
  let ?fs = "doc_fields d"
  note s = binary_search_Inr [OF probe_sorted_fields [OF assms [unfolded doc_sorted_def]] Inr]
  then have k: "fst (?fs ! p) = key" by (simp add: field_probe_def)
  then have keys: "map fst (?fs[p := (key, v)]) = map fst ?fs"
    using s by (simp add: map_update) (metis list_update_id nth_map)
  have "doc_sorted (doc_insert d key v)"
    using assms keys by (simp add: doc_sorted_def doc_insert_def Inr k)
  moreover have "map_of (?fs[p := (key, v)]) = (map_of ?fs)(key \<mapsto> v)"
    using s k strict_sorted_distinct [OF assms [unfolded doc_sorted_def]]
    by (intro map_of_list_update) auto
  ultimately show ?thesis by (simp add: doc_insert_def Inr k)
qed

section \<open>Projected decoding\<close>

lemma projection_prefixes_set:
  "set (projection_prefixes_loop out ps) = set out \<union> ((\<lambda>p. hd (split_on 0x2E p)) ` set ps - {[]})"
  by (induction ps arbitrary: out) (auto simp: Let_def)

lemma field_subs_none:
  "key \<notin> (\<lambda>p. hd (split_on 0x2E p)) ` set ps \<Longrightarrow> field_subs key ps = (False, [])"
  by (induction ps) (auto split: list.splits)

lemma prune_field_value_unselected:
  "key \<noteq> [] \<Longrightarrow> key \<notin> set (projection_prefixes ps) \<Longrightarrow> prune_field_value v ps key = None"
  using field_subs_none [of key ps]
  by (auto simp: projection_prefixes_def projection_prefixes_set prune_field_value_def)

lemma decode_projected_entries_eq:
  assumes "decode_entries items = Some fs" "[] \<notin> fst ` set items"
  shows "decode_projected_entries ps items =
    Some (project_fields \<lparr>doc_fields = fs, doc_time = t\<rparr> ps)"
  using assms
proof (induction items arbitrary: fs)
  case Nil
  then show ?case by (simp add: project_fields_def List.map_filter_simps)
next
  case (Cons e items)
  obtain key tag data where e: "e = (key, tag, data)" by (cases e)
  with Cons.prems obtain v rest where *: "decode_value tag data = Some v"
    "decode_entries items = Some rest" "fs = (key, v) # rest" "key \<noteq> []"
    by (auto simp: bind_eq_Some_conv)
  with Cons e show ?case
    using prune_field_value_unselected [of key ps v]
    by (auto simp: project_fields_def List.map_filter_simps split: option.splits)
qed

lemma decode_entries_keys: "decode_entries items = Some fs \<Longrightarrow> map fst fs = map fst items"
  by (induction items arbitrary: fs) (auto simp: bind_eq_Some_conv)

lemma doc_decode_projected_project:
  assumes "doc_decode b = Some d" "[] \<notin> fst ` set (doc_fields d)"
  shows "doc_decode_projected b ps = Some (d\<lparr>doc_fields := project_fields d ps\<rparr>)"
proof -
  from assms(1) obtain v items where v: "view_new b = Some v"
    and it: "iter_all b 12 (view_count v) = (items, length b, 0)"
    and fs: "decode_entries items = Some (doc_fields d)" and t: "doc_time d = view_time v"
    by (auto simp: doc_decode_Some_iff)
  have "fst ` set items = fst ` set (doc_fields d)"
    using decode_entries_keys [OF fs] by (metis list.set_map)
  with decode_projected_entries_eq [OF fs, where ps = ps and t = "doc_time d"] assms(2)
  show ?thesis
    using t by (cases d) (simp add: doc_decode_projected_def v it)
qed

section \<open>Pruning\<close>

lemma path_subs_props:
  assumes "path_subs k ps = (whole, subs)"
  shows "whole \<longleftrightarrow> [k] \<in> set ps"
    and "\<not> whole \<Longrightarrow> set subs = {r. r \<noteq> [] \<and> k # r \<in> set ps}"
  using assms
  by (induction k ps arbitrary: whole subs rule: path_subs.induct)
    (auto split: if_splits prod.splits)

lemma prune_entries_lookup:
  "map_of (prune_entries es ps) k =
    (let (whole, subs) = path_subs k ps in
     if whole then map_of es k
     else if subs = [] then None
     else map_option (\<lambda>v. prune_value v subs) (map_of es k))"
  by (induction es) (auto split: prod.splits)

lemma prune_selected_descend:
  "p \<in> set ps \<Longrightarrow> p \<noteq> [] \<Longrightarrow> descend (prune_value v ps) p = descend v p"
proof (induction p arbitrary: v ps)
  case Nil
  then show ?case by simp
next
  case (Cons k r)
  obtain whole subs where ws: "path_subs k ps = (whole, subs)" by fastforce
  note props = path_subs_props [OF ws]
  show ?case
  proof (cases v)
    case (Map m)
    have "ps \<noteq> []" using Cons.prems by auto
    show ?thesis
    proof (cases whole)
      case True
      with Map \<open>ps \<noteq> []\<close> ws show ?thesis by (simp add: prune_entries_lookup)
    next
      case False
      have r: "r \<noteq> []" using Cons.prems False props(1) by auto
      then have "r \<in> set subs" using Cons.prems False props(2) by auto
      moreover from this have "subs \<noteq> []" by auto
      ultimately show ?thesis
        using Map \<open>ps \<noteq> []\<close> ws False Cons.IH [of subs] r
        by (auto simp: prune_entries_lookup split: option.splits)
    qed
  qed auto
qed

lemma prune_unselected_dropped:
  "ps \<noteq> [] \<Longrightarrow> \<forall>p \<in> set ps. p \<noteq> [] \<longrightarrow> hd p \<noteq> k \<Longrightarrow> k \<noteq> [] \<Longrightarrow> 
     descend (prune_value (Map m) ps) (k # r) = None"
proof -
  assume a: "ps \<noteq> []" "\<forall>p \<in> set ps. p \<noteq> [] \<longrightarrow> hd p \<noteq> k"
  obtain whole subs where ws: "path_subs k ps = (whole, subs)" by fastforce
  note props = path_subs_props [OF ws]
  have "\<not> whole" using a props(1) by fastforce
  moreover from this have "subs = []" using a props(2) by (fastforce simp: set_empty [symmetric] simp del: set_empty)
  ultimately show ?thesis using a ws by (simp add: prune_entries_lookup)
qed

section \<open>The field vector as a keyed store\<close>

lemma doc_get_insert:
  "doc_sorted d \<Longrightarrow> doc_get (doc_insert d k v) j = (if j = k then Some v else doc_get d j)"
  using doc_insert_sorted [of d k v] by (simp add: doc_get_map_of)

lemma doc_time_insert [simp]: "doc_time (doc_insert d k v) = doc_time d"
  by (simp add: doc_insert_def split: sum.splits)

interpretation fields: keyed_store doc_get doc_insert doc_sorted
  by unfold_locales (simp_all add: doc_get_insert doc_insert_sorted)

section \<open>Properties\<close>

text \<open>C13. Round trip of the storage format: a document whose keys and strings are UTF-8 and
  whose lengths fit their length fields decodes from its own encoding to itself, nested maps and
  arrays included.\<close>

theorem doc_roundtrip: "doc_ok d \<Longrightarrow> doc_decode (doc_encode d) = Some d"
  by (rule doc_decode_encode)

definition sample_doc :: hako_doc where
  "sample_doc = \<lparr>doc_fields =
     [(ascii ''a'', Int64 7),
      (ascii ''b'', Map [(ascii ''c'', String (ascii ''long string'')), (ascii ''d'', Array [Null, Bool True])]),
      (ascii ''n'', Int64 (-300))],
     doc_time = 1700000000\<rparr>"

lemma sample_doc_ok: "doc_ok sample_doc"
  by (simp add: sample_doc_def doc_ok_def key_ok_def utf8_valid.simps encode_short_str_def u32_header_def)

theorem doc_roundtrip_witness: "doc_decode (doc_encode sample_doc) = Some sample_doc"
  by (rule doc_roundtrip [OF sample_doc_ok])

text \<open>C28. Strict framing: every proper prefix of an encoded document (a torn or truncated
  buffer) is rejected, never read as a shorter document.\<close>

theorem doc_truncation_rejected:
  "doc_ok d \<Longrightarrow> n < length (doc_encode d) \<Longrightarrow> doc_decode (take n (doc_encode d)) = None"
  by (rule doc_decode_take)

theorem doc_truncation_rejected_witness: "doc_decode (take 12 (doc_encode sample_doc)) = None"
proof (rule doc_truncation_rejected [OF sample_doc_ok])
  show "12 < length (doc_encode sample_doc)"
    by (simp add: doc_encode_def sample_doc_def encode_short_str_def)
qed

text \<open>C32. Trailing bytes are rejected: at most one of a buffer and a proper extension of it decodes.\<close>

theorem doc_framing_exact:
  "doc_decode b = Some d \<Longrightarrow> c \<noteq> [] \<Longrightarrow> doc_decode (b @ c) = None"
  using doc_decode_append [of b d c] by (cases "doc_decode (b @ c)") auto

theorem doc_framing_exact_witness: "doc_decode (doc_encode sample_doc @ [0]) = None"
  by (rule doc_framing_exact [OF doc_decode_encode [OF sample_doc_ok]]) simp

text \<open>C33. The binary-searched field vector is a map: an insertion keeps the vector strictly sorted,
  is found by a lookup, and disturbs no other field.\<close>

theorem doc_insert_lookup:
  "doc_sorted d \<Longrightarrow> doc_sorted (doc_insert d k v) \<and>
    doc_get (doc_insert d k v) j = (if j = k then Some v else doc_get d j)"
  using fields.inv_ins fields.get_ins by simp

theorem doc_insert_lookup_witness:
  "doc_get (doc_insert sample_doc (ascii ''aa'') Null) (ascii ''aa'') = Some Null"
proof -
  have "doc_sorted sample_doc" by (simp add: doc_sorted_def sample_doc_def)
  from doc_insert_lookup [OF this, of "ascii ''aa''" Null "ascii ''aa''"] show ?thesis by simp
qed

text \<open>C27. Decoding under a projection is decoding and then projecting: skipping the unselected
  fields changes nothing, for documents without an empty field name.\<close>

theorem projected_decode_parity:
  "doc_decode b = Some d \<Longrightarrow> [] \<notin> fst ` set (doc_fields d) \<Longrightarrow>
    doc_decode_projected b ps = Some (d\<lparr>doc_fields := project_fields d ps\<rparr>)"
  by (rule doc_decode_projected_project)

theorem projected_decode_parity_witness:
  "doc_decode_projected (doc_encode sample_doc) [ascii ''b.c''] =
    Some (sample_doc\<lparr>doc_fields := project_fields sample_doc [ascii ''b.c'']\<rparr>)"
  by (rule projected_decode_parity [OF doc_decode_encode [OF sample_doc_ok]])
    (simp add: sample_doc_def)

text \<open>C35. A projection keeps what it selects: along every selected path the pruned value reads
  exactly like the original.\<close>

theorem prune_keeps_selected:
  "p \<in> set ps \<Longrightarrow> p \<noteq> [] \<Longrightarrow> descend (prune_value v ps) p = descend v p"
  by (rule prune_selected_descend)

theorem prune_keeps_selected_witness:
  "descend (prune_value (Map [(ascii ''x'', Null), (ascii ''y'', Bool True)]) [[ascii ''y'']]) [ascii ''y''] =
    Some (Bool True)"
  using prune_keeps_selected [of "[ascii ''y'']" "[[ascii ''y'']]"
      "Map [(ascii ''x'', Null), (ascii ''y'', Bool True)]"] by simp

end
