(* ===== verification/Doc_View.thy ===== *)
theory Doc_View
  imports Doc_Codec
begin

text \<open>
  The borrowed readers of \<open>src/document/hako_doc.rs\<close>: \<open>DocView\<close> and \<open>HakoDocView\<close> find a field or
  a dotted path by walking the framing, and \<open>BorrowedValue\<close> reads a span in place.
\<close>

section \<open>Operations\<close>

text \<open>
  The loop the readers share: walk \<open>n\<close> framed entries from a position to the first with the
  name, checking every key on the way, and return its tag and span.
\<close>

fun find_entry :: "bytes \<Rightarrow> str \<Rightarrow> nat \<Rightarrow> nat \<Rightarrow> (byte \<times> bytes) option" where
  "find_entry bs name 0 pos = None"
| "find_entry bs name (Suc n) pos =
    (case next_entry bs pos of
       None \<Rightarrow> None
     | Some (key, tag, span, pos') \<Rightarrow>
         if key = name then Some (tag, span) else find_entry bs name n pos')"

definition view_get :: "doc_view \<Rightarrow> str \<Rightarrow> value option" where
  "view_get v field = do {
     (tag, span) \<leftarrow> find_entry (view_bytes v) field (view_count v) 12;
     decode_value tag span }"

fun descend_span :: "byte \<Rightarrow> bytes \<Rightarrow> str list \<Rightarrow> (byte \<times> bytes) option" where
  "descend_span tag span [] = Some (tag, span)"
| "descend_span tag span (seg # segs) =
    (if seg = [] \<or> tag \<noteq> 8 then None
     else do {
       c \<leftarrow> get_range span 4 6;
       (t, s) \<leftarrow> find_entry span seg (unat (le_u16 c)) 6;
       descend_span t s segs })"

definition view_get_path_span :: "doc_view \<Rightarrow> str \<Rightarrow> (byte \<times> bytes) option" where
  "view_get_path_span v path =
    (case split_on 0x2E path of
       [] \<Rightarrow> None
     | first # segs \<Rightarrow>
         if first = [] then None
         else do {
           (tag, span) \<leftarrow> find_entry (view_bytes v) first (view_count v) 12;
           descend_span tag span segs })"

definition borrowed_as_str :: "byte \<Rightarrow> bytes \<Rightarrow> str option" where
  "borrowed_as_str tag data =
    (if tag AND 0xF8 = 0x40 then do {
       s \<leftarrow> get_range data 0 (unat (tag AND 0x07));
       from_utf8 s }
     else if tag = 5 then do {
       h \<leftarrow> get_range data 0 4;
       s \<leftarrow> get_range data 4 (4 + unat (le_u32 h));
       from_utf8 s }
     else None)"

definition borrowed_as_bytes :: "byte \<Rightarrow> bytes \<Rightarrow> bytes option" where
  "borrowed_as_bytes tag data =
    (if tag \<noteq> 6 then None
     else do {
       h \<leftarrow> get_range data 0 4;
       get_range data 4 (4 + unat (le_u32 h)) })"

definition borrowed_as_f64 :: "byte \<Rightarrow> bytes \<Rightarrow> f64 option" where
  "borrowed_as_f64 tag data =
    (if tag AND 0xF0 = 0x10 then Some (i64_as_f64 (ucast (tag AND 0x0F)))
     else if tag = 3 then do {
       (v, _) \<leftarrow> decode_varint data 4;
       Some (i64_as_f64 (zigzag_decode v)) }
     else if tag = 4 then do {
       b \<leftarrow> get_range data 4 12;
       Some (le_u64 b) }
     else None)"

definition view_get_path :: "doc_view \<Rightarrow> str \<Rightarrow> value option" where
  "view_get_path v path = do { (t, s) \<leftarrow> view_get_path_span v path; decode_value t s }"

definition view_get_str :: "doc_view \<Rightarrow> str \<Rightarrow> str option" where
  "view_get_str v key = do {
     (t, s) \<leftarrow> find_entry (view_bytes v) key (view_count v) 12; borrowed_as_str t s }"

definition view_get_bytes :: "doc_view \<Rightarrow> str \<Rightarrow> bytes option" where
  "view_get_bytes v key = do {
     (t, s) \<leftarrow> find_entry (view_bytes v) key (view_count v) 12; borrowed_as_bytes t s }"

definition view_get_path_str :: "doc_view \<Rightarrow> str \<Rightarrow> str option" where
  "view_get_path_str v path = do { (t, s) \<leftarrow> view_get_path_span v path; borrowed_as_str t s }"

definition view_get_path_bytes :: "doc_view \<Rightarrow> str \<Rightarrow> bytes option" where
  "view_get_path_bytes v path = do { (t, s) \<leftarrow> view_get_path_span v path; borrowed_as_bytes t s }"

text \<open>\<open>has_blob_links\<close>: some entry is a blob link that is not the deferred placeholder.\<close>

definition is_live_blob_span :: "byte \<Rightarrow> bytes \<Rightarrow> bool" where
  "is_live_blob_span tag data \<longleftrightarrow> tag = 11 \<and>
    (case get_range data 4 12 of None \<Rightarrow> True | Some b \<Rightarrow> le_u64 b \<noteq> 0xFFFFFFFFFFFFFFFF)"

definition view_has_blob_links :: "doc_view \<Rightarrow> bool" where
  "view_has_blob_links v \<longleftrightarrow>
    (\<exists>(key, tag, data) \<in> set (fst (iter_all (view_bytes v) 12 (view_count v))). is_live_blob_span tag data)"

section \<open>Lemmas\<close>

lemma find_entry_iter_all:
  "iter_all bs pos n = (items, e, 0) \<Longrightarrow> find_entry bs name n pos = map_of items name"
  by (induction n arbitrary: pos items) (auto split: option.splits prod.splits)

lemma decode_entries_lookup:
  "decode_entries items = Some fs \<Longrightarrow>
    map_of fs name = Option.bind (map_of items name) (\<lambda>(t, s). decode_value t s)"
  "decode_entries items = Some fs \<Longrightarrow> map_of items name = Some (t, s) \<Longrightarrow> decode_value t s \<noteq> None"
  by (induction items arbitrary: fs) (auto simp: bind_eq_Some_conv split: if_splits)

lemma decode_map_loop_iter_all:
  "decode_map_loop n bs pos = Some fs \<Longrightarrow>
    \<exists>items e. iter_all bs pos n = (items, e, 0) \<and> decode_entries items = Some fs"
proof (induction n arbitrary: pos fs)
  case (Suc n)
  then obtain key tag span q v rest where e: "next_entry bs pos = Some (key, tag, span, q)"
    "decode_value tag span = Some v" "decode_map_loop n bs q = Some rest" "fs = (key, v) # rest"
    by (auto simp: bind_eq_Some_conv split: option.splits)
  with Suc.IH [of q rest] show ?case by auto
qed simp

text \<open>The arms of the decoder are told apart by their results.\<close>

lemma decode_value_Map_iff:
  "decode_value tag bs = Some (Map m) \<longleftrightarrow> tag = 8 \<and>
    (\<exists>c. get_range bs 4 6 = Some c \<and> decode_map_loop (unat (le_u16 c)) bs 6 = Some m)"
  by (auto simp: decode_value.simps [of tag] decode_value_tag bind_eq_Some_conv split: if_splits)

lemma borrowed_as_str_decode:
  "borrowed_as_str tag bs = (case decode_value tag bs of Some (String s) \<Rightarrow> Some s | _ \<Rightarrow> None)"
proof (cases tag rule: tag_cases)
  case int
  then show ?thesis by (auto simp: borrowed_as_str_def decode_value_inline_mask)
next
  case str
  then show ?thesis
    by (auto simp: borrowed_as_str_def decode_value_inline_mask split: option.splits bind_splits)
next
  case lit
  then show ?thesis
    by (elim disjE) (auto simp: borrowed_as_str_def decode_value_tag decode_value_tag_10 split: option.splits bind_splits)
next
  case other
  then show ?thesis by (simp add: borrowed_as_str_def decode_value_other)
qed

lemma borrowed_as_bytes_decode:
  "borrowed_as_bytes tag bs = (case decode_value tag bs of Some (Binary s) \<Rightarrow> Some s | _ \<Rightarrow> None)"
proof (cases tag rule: tag_cases)
  case int
  then show ?thesis by (auto simp: borrowed_as_bytes_def decode_value_inline_mask)
next
  case str
  then show ?thesis
    by (auto simp: borrowed_as_bytes_def decode_value_inline_mask split: option.splits bind_splits)
next
  case lit
  then show ?thesis
    by (elim disjE) (auto simp: borrowed_as_bytes_def decode_value_tag decode_value_tag_10 split: option.splits bind_splits)
next
  case other
  then show ?thesis by (simp add: borrowed_as_bytes_def decode_value_other)
qed

lemma borrowed_as_f64_decode:
  "borrowed_as_f64 tag bs =
    (case decode_value tag bs of
       Some (Int64 i) \<Rightarrow> Some (i64_as_f64 i)
     | Some (Float f) \<Rightarrow> Some f
     | _ \<Rightarrow> None)"
proof (cases tag rule: tag_cases)
  case int
  then show ?thesis by (auto simp: borrowed_as_f64_def decode_value_inline_mask)
next
  case str
  then show ?thesis
    by (auto simp: borrowed_as_f64_def decode_value_inline_mask split: option.splits bind_splits)
next
  case lit
  then show ?thesis
    by (elim disjE) (auto simp: borrowed_as_f64_def decode_value_tag decode_value_tag_10 split: option.splits bind_splits)
next
  case other
  then show ?thesis by (simp add: borrowed_as_f64_def decode_value_other)
qed
lemma descend_span_decode:
  assumes "decode_value tag span = Some val"
  shows "Option.bind (descend_span tag span segs) (\<lambda>(t, s). decode_value t s) = descend val segs"
  using assms
proof (induction segs arbitrary: tag span val)
  case Nil
  then show ?case by simp
next
  case (Cons seg segs)
  show ?case
  proof (cases "tag = 8")
    case True
    with Cons.prems obtain m c where m: "val = Map m" "get_range span 4 6 = Some c"
      "decode_map_loop (unat (le_u16 c)) span 6 = Some m"
      by (auto simp: decode_value_tag bind_eq_Some_conv)
    from decode_map_loop_iter_all [OF m(3)] obtain items e where
      it: "iter_all span 6 (unat (le_u16 c)) = (items, e, 0)" "decode_entries items = Some m"
      by auto
    show ?thesis
    proof (cases "map_of items seg")
      case None
      with True m find_entry_iter_all [OF it(1), of seg] decode_entries_lookup(1) [OF it(2), of seg]
      show ?thesis by auto
    next
      case (Some ts)
      obtain t s where ts: "ts = (t, s)" by (cases ts)
      with Some decode_entries_lookup(2) [OF it(2)] obtain w where w: "decode_value t s = Some w" by blast
      with True m ts Some find_entry_iter_all [OF it(1), of seg]
        decode_entries_lookup(1) [OF it(2), of seg] Cons.IH [OF w]
      show ?thesis by auto
    qed
  next
    case False
    then have "\<forall>m. val \<noteq> Map m" using Cons.prems by (auto simp: decode_value_Map_iff)
    with False show ?thesis by (cases val) auto
  qed
qed

lemma view_get_lookup:
  assumes "doc_decode b = Some d" "view_new b = Some v"
  shows "view_get v f = map_of (doc_fields d) f"
proof -
  from assms obtain items where it: "iter_all b 12 (view_count v) = (items, length b, 0)"
    and fs: "decode_entries items = Some (doc_fields d)"
    by (auto simp: doc_decode_Some_iff)
  have "view_bytes v = b" using assms(2) by (auto simp: view_new_def split: if_splits)
  with find_entry_iter_all [OF it] decode_entries_lookup(1) [OF fs] show ?thesis
    by (simp add: view_get_def)
qed

lemma view_find_decode:
  assumes "doc_decode b = Some d" "view_new b = Some v"
  shows "(case find_entry (view_bytes v) f (view_count v) 12 of
      None \<Rightarrow> map_of (doc_fields d) f = None
    | Some (t, s) \<Rightarrow> \<exists>w. decode_value t s = Some w \<and> map_of (doc_fields d) f = Some w)"
proof -
  from assms obtain items where it: "iter_all b 12 (view_count v) = (items, length b, 0)"
    and fs: "decode_entries items = Some (doc_fields d)"
    by (auto simp: doc_decode_Some_iff)
  have "view_bytes v = b" using assms(2) by (auto simp: view_new_def split: if_splits)
  with find_entry_iter_all [OF it] decode_entries_lookup [OF fs] show ?thesis
    by (auto split: option.splits)
qed

lemma view_get_path_decode:
  assumes "doc_decode b = Some d" "view_new b = Some v" "doc_sorted d"
  shows "view_get_path v path = doc_get_path d path"
proof (cases "split_on 0x2E path")
  case Nil
  then show ?thesis by simp
next
  case (Cons first segs)
  show ?thesis
    using view_find_decode [OF assms(1,2), of first] descend_span_decode Cons
    by (auto simp: view_get_path_def view_get_path_span_def doc_get_path_def
        doc_get_map_of [OF assms(3)] split: option.splits)
qed

section \<open>Properties\<close>

text \<open>C17. The lazy view and the owned document agree on every dotted path: walking the framing of
  a stored document returns what decoding it and descending its maps returns.\<close>

theorem view_path_parity:
  "doc_decode b = Some d \<Longrightarrow> view_new b = Some v \<Longrightarrow> doc_sorted d \<Longrightarrow>
    view_get_path v path = doc_get_path d path"
  by (rule view_get_path_decode)

theorem view_path_parity_witness:
  "view_get_path (the (view_new (doc_encode sample_doc))) (ascii ''b.c'') =
    doc_get_path sample_doc (ascii ''b.c'')"
proof (rule view_path_parity)
  show "doc_decode (doc_encode sample_doc) = Some sample_doc"
    by (rule doc_decode_encode [OF sample_doc_ok])
  show "view_new (doc_encode sample_doc) = Some (the (view_new (doc_encode sample_doc)))"
    by (simp add: view_new_encode [OF sample_doc_ok])
  show "doc_sorted sample_doc" by (simp add: doc_sorted_def sample_doc_def)
qed

text \<open>C34. The borrowed accessors read a span exactly as the owned decoder does, for every tag and
  every byte string: a string, a binary or a number where decoding gives one, nothing where decoding
  fails or gives another type.\<close>

theorem borrowed_reads_agree:
  "borrowed_as_str tag bs = (case decode_value tag bs of Some (String s) \<Rightarrow> Some s | _ \<Rightarrow> None) \<and>
   borrowed_as_bytes tag bs = (case decode_value tag bs of Some (Binary s) \<Rightarrow> Some s | _ \<Rightarrow> None) \<and>
   borrowed_as_f64 tag bs =
    (case decode_value tag bs of
       Some (Int64 i) \<Rightarrow> Some (i64_as_f64 i) | Some (Float f) \<Rightarrow> Some f | _ \<Rightarrow> None)"
  using borrowed_as_str_decode borrowed_as_bytes_decode borrowed_as_f64_decode by blast

end
