(* ===== verification/Value_Order.thy ===== *)
theory Value_Order
  imports Value
begin

text \<open>
  The laws of \<open>impl Ord for Value\<close> and \<open>impl PartialEq for Value\<close>. The order is antisymmetric in
  the sense of \<open>cmp(b, a) = cmp(a, b).reverse()\<close> on all values; it is transitive and agrees with
  the equality on values whose integers are exactly representable as \<open>f64\<close> and that hold no blob
  link and no negative zero. The last two lemmas show that these exceptions are real.
\<close>

section \<open>The order of values\<close>

definition ord_trans :: "ordering \<Rightarrow> ordering \<Rightarrow> ordering \<Rightarrow> bool" where
  "ord_trans ab bc ac \<longleftrightarrow>
    (ab = Equal \<longrightarrow> ac = bc) \<and> (bc = Equal \<longrightarrow> ac = ab) \<and> (ab = Less \<and> bc = Less \<longrightarrow> ac = Less)"

lemma ord_trans_cmp [simp]: "ord_trans (cmp a b) (cmp b c) (cmp a c)"
  by (auto simp: ord_trans_def)

lemma ord_trans_Equal [simp]: "ord_trans Equal Equal Equal"
  by (simp add: ord_trans_def)

lemma ord_trans_then:
  assumes "ord_trans o1 o2 o3"
    and "o1 = Equal \<Longrightarrow> o2 = Equal \<Longrightarrow> ord_trans p1 p2 p3"
  shows "ord_trans (ord_then o1 p1) (ord_then o2 p2) (ord_then o3 p3)"
  using assms by (cases o1; cases o2; cases o3; simp add: ord_trans_def)

lemma ord_trans_le: "ord_trans ab bc ac \<Longrightarrow> ab \<noteq> Greater \<Longrightarrow> bc \<noteq> Greater \<Longrightarrow> ac \<noteq> Greater"
  by (cases ab; cases bc) (auto simp: ord_trans_def)

lemma value_cmp_weight: "value_cmp a b = ord_then (cmp (type_weight a) (type_weight b)) (value_cmp a b)"
  by (cases a; cases b; simp add: weight_cmp_def cmp_def)

definition scalar :: "value \<Rightarrow> bool" where
  "scalar v \<longleftrightarrow> (case v of Map _ \<Rightarrow> False | Array _ \<Rightarrow> False | _ \<Rightarrow> True)"

lemma scalar_constructors:
  "scalar Null" "scalar (Bool b)" "scalar (Int64 i)" "scalar (Float f)" "scalar (String s)" "scalar (Binary bs)"
  "scalar (Timestamp t)" "scalar (Reference coll doc)" "scalar (BlobLink off len)" "scalar ServerTimestamp"
  by (simp_all add: scalar_def)

lemma scalar_cmp_swap: "scalar a \<Longrightarrow> value_cmp b a = ord_rev (value_cmp a b)"
  by (cases a; cases b; simp add: scalar_def weight_cmp_def f64_total_cmp_def cmp_def; auto)

lemma values_cmp_swap:
  "(\<And>x y. x \<in> set xs \<Longrightarrow> value_cmp y x = ord_rev (value_cmp x y)) \<Longrightarrow>
    values_cmp ys xs = ord_rev (values_cmp xs ys)"
proof (induction xs arbitrary: ys)
  case (Cons x xs)
  from Cons.prems have "value_cmp y x = ord_rev (value_cmp x y)" for y by simp
  with Cons show ?case by (cases ys) (auto simp: ord_rev_then)
qed (auto split: list.splits)

lemma fields_cmp_swap:
  "(\<And>k x y. (k, x) \<in> set fs \<Longrightarrow> value_cmp y x = ord_rev (value_cmp x y)) \<Longrightarrow>
    fields_cmp gs fs = ord_rev (fields_cmp fs gs)"
proof (induction fs arbitrary: gs)
  case Nil
  then show ?case by (cases gs) auto
next
  case (Cons kx fs)
  obtain k x where [simp]: "kx = (k, x)" by (cases kx)
  from Cons.prems [of k x] have "value_cmp y x = ord_rev (value_cmp x y)" for y by simp
  moreover have "fields_cmp gs fs = ord_rev (fields_cmp fs gs)" for gs
    using Cons.prems by (intro Cons.IH) auto
  ultimately show ?case
    by (cases gs) (auto simp: ord_rev_then cmp_swap [of _ k])
qed

lemma value_cmp_swap: "value_cmp b a = ord_rev (value_cmp a b)"
proof (induction a arbitrary: b)
  case (Map fs)
  then have "fields_cmp gs fs = ord_rev (fields_cmp fs gs)" for gs
    by (intro fields_cmp_swap) auto
  then show ?case by (cases b) (auto simp: weight_cmp_def cmp_def)
next
  case (Array vs)
  then have "values_cmp ws vs = ord_rev (values_cmp vs ws)" for ws
    by (intro values_cmp_swap) auto
  then show ?case by (cases b) (auto simp: weight_cmp_def cmp_def)
qed (rule scalar_cmp_swap, simp add: scalar_def)+

fun ord_safe :: "value \<Rightarrow> bool" where
  "ord_safe (Int64 n) = safe_int n"
| "ord_safe (Float b) = (b \<noteq> 0x8000000000000000)"
| "ord_safe (BlobLink _ _) = False"
| "ord_safe (Map fs) = (\<forall>(k, v) \<in> set fs. ord_safe v)"
| "ord_safe (Array vs) = (\<forall>v \<in> set vs. ord_safe v)"
| "ord_safe _ = True"

definition num_key :: "value \<Rightarrow> f64" where
  "num_key v = (case v of Int64 n \<Rightarrow> i64_as_f64 n | Float b \<Rightarrow> b | _ \<Rightarrow> 0)"

lemma value_cmp_num:
  assumes "type_weight a = 2" "type_weight b = 2" "ord_safe a" "ord_safe b"
  shows "value_cmp a b = f64_total_cmp (num_key a) (num_key b)"
  using assms by (cases a; cases b; simp add: num_key_def int_cmp_key)

lemma same_weight_trans:
  assumes "type_weight a = type_weight b \<Longrightarrow> type_weight b = type_weight c \<Longrightarrow>
    ord_trans (value_cmp a b) (value_cmp b c) (value_cmp a c)"
  shows "ord_trans (value_cmp a b) (value_cmp b c) (value_cmp a c)"
  by (subst (1 2 3) value_cmp_weight, rule ord_trans_then) (use assms in simp_all)

lemma scalar_cmp_trans:
  assumes "scalar a" "ord_safe a" "ord_safe b" "ord_safe c"
  shows "ord_trans (value_cmp a b) (value_cmp b c) (value_cmp a c)"
proof (rule same_weight_trans)
  assume w: "type_weight a = type_weight b" "type_weight b = type_weight c"
  show "ord_trans (value_cmp a b) (value_cmp b c) (value_cmp a c)"
  proof (cases "type_weight a = 2")
    case True
    with w assms show ?thesis by (simp add: value_cmp_num) (simp add: f64_total_cmp_def)
  next
    case False
    with w assms show ?thesis
      by (cases a; cases b; simp; cases c; simp add: scalar_def weight_cmp_def ord_trans_then)
  qed
qed

lemma values_cmp_trans:
  assumes "\<And>x y z. x \<in> set xs \<Longrightarrow> ord_safe x \<Longrightarrow> ord_safe y \<Longrightarrow> ord_safe z \<Longrightarrow>
      ord_trans (value_cmp x y) (value_cmp y z) (value_cmp x z)"
    and "\<forall>v \<in> set xs \<union> set ys \<union> set zs. ord_safe v"
    and "length xs = length ys" "length ys = length zs"
  shows "ord_trans (values_cmp xs ys) (values_cmp ys zs) (values_cmp xs zs)"
  using assms(3,4,1,2)
  by (induction xs ys zs rule: list_induct3) (auto intro!: ord_trans_then)

lemma fields_cmp_trans:
  assumes "\<And>k x y z. (k, x) \<in> set xs \<Longrightarrow> ord_safe x \<Longrightarrow> ord_safe y \<Longrightarrow> ord_safe z \<Longrightarrow>
      ord_trans (value_cmp x y) (value_cmp y z) (value_cmp x z)"
    and "\<forall>(k, v) \<in> set xs \<union> set ys \<union> set zs. ord_safe v"
    and "length xs = length ys" "length ys = length zs"
  shows "ord_trans (fields_cmp xs ys) (fields_cmp ys zs) (fields_cmp xs zs)"
  using assms(3,4,1,2)
  by (induction xs ys zs rule: list_induct3) (fastforce intro!: ord_trans_then)+

lemma cmp_if_then: "(if x \<noteq> y then cmp x y else r) = ord_then (cmp x y) r"
  by (auto simp: cmp_def)

lemma value_cmp_trans:
  "ord_safe a \<Longrightarrow> ord_safe b \<Longrightarrow> ord_safe c \<Longrightarrow>
    ord_trans (value_cmp a b) (value_cmp b c) (value_cmp a c)"
proof (induction a arbitrary: b c)
  case (Map fs)
  show ?case
  proof (rule same_weight_trans)
    assume "type_weight (Map fs) = type_weight b" "type_weight b = type_weight c"
    then obtain gs hs where e: "b = Map gs" "c = Map hs" by (cases b; cases c) auto
    have "ord_trans (fields_cmp fs gs) (fields_cmp gs hs) (fields_cmp fs hs)"
      if "length fs = length gs" "length gs = length hs"
      using that Map by (intro fields_cmp_trans) (fastforce simp: e)+
    then show "ord_trans (value_cmp (Map fs) b) (value_cmp b c) (value_cmp (Map fs) c)"
      by (auto simp: e cmp_if_then intro!: ord_trans_then)
  qed
next
  case (Array vs)
  show ?case
  proof (rule same_weight_trans)
    assume "type_weight (Array vs) = type_weight b" "type_weight b = type_weight c"
    then obtain ws us where e: "b = Array ws" "c = Array us" by (cases b; cases c) auto
    have "ord_trans (values_cmp vs ws) (values_cmp ws us) (values_cmp vs us)"
      if "length vs = length ws" "length ws = length us"
      using that Array by (intro values_cmp_trans) (auto simp: e)
    then show "ord_trans (value_cmp (Array vs) b) (value_cmp b c) (value_cmp (Array vs) c)"
      by (auto simp: e cmp_if_then intro!: ord_trans_then)
  qed
qed (rule scalar_cmp_trans, simp_all only: scalar_constructors)+

lemma ord_then_Equal_iff: "ord_then p q = Equal \<longleftrightarrow> p = Equal \<and> q = Equal"
  by (cases p) simp_all

lemma scalar_eq_cmp:
  assumes "scalar a" "ord_safe a" "ord_safe b"
  shows "value_eq a b \<longleftrightarrow> value_cmp a b = Equal"
  using assms
  by (cases a; cases b; simp add: scalar_def weight_cmp_def f64_eq_safe sint_eq_iff ord_then_Equal_iff)

lemma values_eq_cmp:
  assumes "\<And>x y. x \<in> set xs \<Longrightarrow> ord_safe x \<Longrightarrow> ord_safe y \<Longrightarrow> value_eq x y \<longleftrightarrow> value_cmp x y = Equal"
    and "\<forall>v \<in> set xs \<union> set ys. ord_safe v"
  shows "values_eq xs ys \<longleftrightarrow> length xs = length ys \<and> values_cmp xs ys = Equal"
  using assms
proof (induction xs arbitrary: ys)
  case (Cons x xs)
  then show ?case by (cases ys) (auto simp: ord_then_Equal_iff)
qed (auto split: list.splits)

lemma fields_eq_cmp:
  assumes "\<And>k x y. (k, x) \<in> set xs \<Longrightarrow> ord_safe x \<Longrightarrow> ord_safe y \<Longrightarrow> value_eq x y \<longleftrightarrow> value_cmp x y = Equal"
    and "\<forall>(k, v) \<in> set xs \<union> set ys. ord_safe v"
  shows "fields_eq xs ys \<longleftrightarrow> length xs = length ys \<and> fields_cmp xs ys = Equal"
  using assms
proof (induction xs arbitrary: ys)
  case (Cons kx xs)
  obtain k x where [simp]: "kx = (k, x)" by (cases kx)
  show ?case
  proof (cases ys)
    case (Cons ly ys')
    obtain l y where [simp]: "ly = (l, y)" by (cases ly)
    have "value_eq x y \<longleftrightarrow> value_cmp x y = Equal"
      using Cons.prems(1) [of k x y] Cons.prems(2) by (auto simp: Cons)
    moreover have "fields_eq xs ys' \<longleftrightarrow> length xs = length ys' \<and> fields_cmp xs ys' = Equal"
      using Cons.prems by (intro Cons.IH) (auto simp: Cons)
    ultimately show ?thesis by (auto simp: Cons ord_then_Equal_iff)
  qed simp
qed simp

lemma value_eq_cmp:
  "ord_safe a \<Longrightarrow> ord_safe b \<Longrightarrow> value_eq a b \<longleftrightarrow> value_cmp a b = Equal"
proof (induction a arbitrary: b)
  case (Map fs)
  have "fields_eq fs gs \<longleftrightarrow> length fs = length gs \<and> fields_cmp fs gs = Equal" if "b = Map gs" for gs
    using Map that by (intro fields_eq_cmp) fastforce+
  then show ?case by (cases b) (auto simp: weight_cmp_def)
next
  case (Array vs)
  have "values_eq vs ws \<longleftrightarrow> length vs = length ws \<and> values_cmp vs ws = Equal" if "b = Array ws" for ws
    using Array that by (intro values_eq_cmp) auto
  then show ?case by (cases b) (auto simp: weight_cmp_def)
qed (rule scalar_eq_cmp, simp_all only: scalar_constructors)+



text \<open>Beyond \<open>2 ^ 53\<close> the order is not transitive: two different integers both equal one float.\<close>

lemma order_breaks_beyond_2_53:
  "value_cmp (Int64 9007199254740992) (Int64 9007199254740993) = Less"
  "value_cmp (Int64 9007199254740993) (Float 0x4340000000000000) = Equal"
  "value_cmp (Float 0x4340000000000000) (Int64 9007199254740992) = Equal"
  by (simp_all add: i64_as_f64_def f64_round_def f64_exponent_def div_half_even_def nat_log2.simps Let_def)

text \<open>The equality and the order differ on the negative zero, and on blob links against binaries.\<close>

lemma eq_and_cmp_differ:
  "value_eq (Int64 0) (Float 0x8000000000000000)"
  "value_cmp (Int64 0) (Float 0x8000000000000000) = Greater"
  "value_cmp (Binary [1]) (BlobLink 0 0) = Equal" "\<not> value_eq (Binary [1]) (BlobLink 0 0)"
  "value_cmp (BlobLink 0 0) (Binary [2]) = Equal" "value_cmp (Binary [2]) (Binary [1]) = Greater"
  by (simp_all add: i64_as_f64_def f64_round_def f64_eq_def f64_is_nan_def f64_is_zero_def
    f64_total_cmp_def weight_cmp_def)

end
