(* ===== verification/Index_Key.thy ===== *)
theory Index_Key
  imports Doc_Codec
begin

text \<open>
  The keys of the secondary indexes, \<open>src/index/index_key.rs\<close>: the encoding of a value
  (\<open>encode_scalar_into\<close>), the encoding straight from the stored bytes of a field
  (\<open>encode_raw_scalar\<close>) and the numeric reading of a key (\<open>decode_scalar_as_f64\<close>). An output
  buffer is passed in and returned with the key appended.
\<close>

section \<open>Encoding\<close>

definition encode_str_scalar_into :: "str \<Rightarrow> bytes \<Rightarrow> bytes" where
  "encode_str_scalar_into s out = out @ [4] @ u32_be (of_nat (length s)) @ s"

fun encode_scalar_into :: "value \<Rightarrow> bytes \<Rightarrow> bytes" where
  "encode_scalar_into Null out = out @ [0]"
| "encode_scalar_into (Bool v) out = out @ [1, if v then 1 else 0]"
| "encode_scalar_into (Int64 v) out = out @ [2] @ u64_be v"
| "encode_scalar_into (Float v) out = out @ [3] @ u64_be v"
| "encode_scalar_into (String v) out = encode_str_scalar_into v out"
| "encode_scalar_into (Binary v) out = out @ [5] @ u32_be (of_nat (length v)) @ v"
| "encode_scalar_into (Timestamp v) out = out @ [6] @ u64_be v"
| "encode_scalar_into ServerTimestamp out = out @ [0]"
| "encode_scalar_into (Map _) out = out @ [8]"
| "encode_scalar_into (Array _) out = out @ [9]"
| "encode_scalar_into (Reference collection doc_id) out =
    out @ [10, of_nat (length collection)] @ collection @ [of_nat (length doc_id)] @ doc_id"
| "encode_scalar_into (BlobLink offset len) out = out @ [11] @ u64_be offset @ u32_be len"

definition encode_scalar :: "value \<Rightarrow> bytes" where
  "encode_scalar v = encode_scalar_into v []"

text \<open>
  The borrowed path: the key is appended to \<open>out\<close> only when every read succeeds, so a
  \<open>false\<close> leaves the buffer as it was.
\<close>

definition raw_scalar_key :: "byte \<Rightarrow> bytes \<Rightarrow> bytes option" where
  "raw_scalar_key tag data =
    (if tag = 0xC0 then Some [0]
     else if tag = 0xC1 then Some [0]
     else if tag = 0xC2 then Some [1, 1]
     else if tag = 0xC3 then Some [1, 0]
     else if tag AND 0xF0 = 0x10 then Some ([2] @ u64_be (ucast (tag AND 0x0F)))
     else if tag AND 0xF8 = 0x40 then do {
       s \<leftarrow> get_range data 0 (unat (tag AND 0x07));
       if utf8_valid s then Some ([4] @ u32_be (of_nat (length s)) @ s) else None }
     else if tag = 3 \<or> tag = 7 then do {
       (raw, _) \<leftarrow> decode_varint data 4;
       Some ((if tag = 3 then 2 else 6) # u64_be (zigzag_decode raw)) }
     else if tag = 4 then do {
       b \<leftarrow> get_range data 4 12;
       Some ([3] @ u64_be (le_u64 b)) }
     else if tag = 5 \<or> tag = 6 then do {
       h \<leftarrow> get_range data 0 4;
       body \<leftarrow> get_range data 4 (4 + unat (le_u32 h));
       if tag = 5 \<and> \<not> utf8_valid body then None
       else Some ((if tag = 5 then 4 else 5) # u32_be (of_nat (length body)) @ body) }
     else if tag = 8 \<or> tag = 9 then None
     else if tag = 10 then do {
       c_len \<leftarrow> get_at data 4;
       col \<leftarrow> get_range data 5 (5 + unat c_len);
       d_len \<leftarrow> get_at data (5 + unat c_len);
       doc \<leftarrow> get_range data (6 + unat c_len) (6 + unat c_len + unat d_len);
       if \<not> utf8_valid col \<or> \<not> utf8_valid doc then None
       else if 255 < length col \<or> 255 < length doc then None
       else Some ([10, of_nat (length col)] @ col @ [of_nat (length doc)] @ doc) }
     else if tag = 11 then do {
       off \<leftarrow> get_range data 4 12;
       len \<leftarrow> get_range data 12 16;
       Some ([11] @ u64_be (le_u64 off) @ u32_be (le_u32 len)) }
     else Some [0])"

definition encode_raw_scalar :: "byte \<Rightarrow> bytes \<Rightarrow> bytes \<Rightarrow> bool \<times> bytes" where
  "encode_raw_scalar tag data out =
    (case raw_scalar_key tag data of None \<Rightarrow> (False, out) | Some key \<Rightarrow> (True, out @ key))"

definition decode_scalar_as_f64 :: "bytes \<Rightarrow> f64 option" where
  "decode_scalar_as_f64 bytes = do {
     tag \<leftarrow> get_at bytes 0;
     if tag = 2 then do { b \<leftarrow> get_range bytes 1 9; Some (i64_as_f64 (be_u64 b)) }
     else if tag = 3 then do { b \<leftarrow> get_range bytes 1 9; Some (be_u64 b) }
     else None }"

section \<open>The two encoding paths\<close>

lemma encode_scalar_into_append: "encode_scalar_into v out = out @ encode_scalar v"
  by (cases v) (simp_all add: encode_scalar_def encode_str_scalar_into_def)

lemma get_range_byte_len:
  assumes "get_range bs p (p + unat (n :: byte)) = Some s"
  shows "length s \<le> 255"
proof -
  have "length s = unat n" using assms by (auto simp: get_range_Some_iff length_subslice)
  with unat_bounds(1) [of n] show ?thesis by linarith
qed

lemma raw_scalar_key_reference:
  "raw_scalar_key 10 data = map_option encode_scalar (decode_value 10 data)"
  by (auto simp: raw_scalar_key_def decode_value_tag_10 encode_scalar_def from_utf8_def
      split: bind_splits dest!: get_range_byte_len)

lemma raw_scalar_key_decode:
  assumes "tag \<noteq> 8" "tag \<noteq> 9"
  shows "raw_scalar_key tag data = map_option encode_scalar (decode_value tag data)"
proof (cases "tag = 10")
  case False
  with assms show ?thesis
    unfolding raw_scalar_key_def decode_value.simps [of tag]
    by (simp only: if_False) (auto simp: encode_scalar_def encode_str_scalar_into_def from_utf8_def
      split: bind_splits)
qed (simp add: raw_scalar_key_reference)

section \<open>Keys determine values\<close>

text \<open>The values a secondary index tells apart: scalars whose lengths fit their headers.\<close>

fun key_exact :: "value \<Rightarrow> bool" where
  "key_exact (String s) = (length s < 2 ^ 32)"
| "key_exact (Binary b) = (length b < 2 ^ 32)"
| "key_exact (Reference c d) = (length c < 256 \<and> length d < 256)"
| "key_exact ServerTimestamp = False"
| "key_exact (Map _) = False"
| "key_exact (Array _) = False"
| "key_exact _ = True"

lemma encode_scalar_simps:
  "encode_scalar Null = [0]" "encode_scalar (Bool v) = [1, if v then 1 else 0]"
  "encode_scalar (Int64 n) = 2 # u64_be n" "encode_scalar (Float f) = 3 # u64_be f"
  "encode_scalar (String s) = 4 # u32_be (of_nat (length s)) @ s"
  "encode_scalar (Binary b) = 5 # u32_be (of_nat (length b)) @ b"
  "encode_scalar (Timestamp n) = 6 # u64_be n" "encode_scalar ServerTimestamp = [0]"
  "encode_scalar (Map m) = [8]" "encode_scalar (Array vs) = [9]"
  "encode_scalar (Reference c d) = 10 # of_nat (length c) # c @ of_nat (length d) # d"
  "encode_scalar (BlobLink off len) = 11 # u64_be off @ u32_be len"
  by (simp_all add: encode_scalar_def encode_str_scalar_into_def)

lemma encode_scalar_prefix_free:
  assumes "key_exact a" "key_exact b" "encode_scalar a @ x = encode_scalar b @ y"
  shows "a = b \<and> x = y"
  using assms
  by (cases a; cases b; simp add: encode_scalar_simps of_nat_inject_small split: if_splits)
    (auto simp: of_nat_inject_small)

section \<open>Order of integer keys\<close>

lemma encode_scalar_less_iff:
  "encode_scalar (Int64 a) < encode_scalar (Int64 b) \<longleftrightarrow> a < b"
  "encode_scalar (Timestamp a) < encode_scalar (Timestamp b) \<longleftrightarrow> a < b"
  by (simp_all add: encode_scalar_simps u64_be_less)

lemma decode_scalar_encode:
  "decode_scalar_as_f64 (encode_scalar v) =
    (case v of Int64 n \<Rightarrow> Some (i64_as_f64 n) | Float f \<Rightarrow> Some f | _ \<Rightarrow> None)"
proof -
  have "get_range (t # u64_be n) 1 9 = Some (u64_be n)" for t n
    by (simp add: get_range_def subslice_def)
  then show ?thesis
    by (cases v) (simp_all add: decode_scalar_as_f64_def encode_scalar_simps get_at_def)
qed

section \<open>Properties\<close>

text \<open>C37. For every tag and every bytes the borrowed key encoder does what decoding the value and
  encoding it does: it appends the same key when the value decodes, and reports failure with the
  buffer untouched when it does not; compound tags are always left to the owned path.\<close>

theorem raw_scalar_parity:
  "encode_raw_scalar tag data out =
    (if tag = 8 \<or> tag = 9 then (False, out)
     else case decode_value tag data of
         None \<Rightarrow> (False, out)
       | Some v \<Rightarrow> (True, encode_scalar_into v out))"
proof (cases "tag = 8 \<or> tag = 9")
  case True
  then show ?thesis by (auto simp: encode_raw_scalar_def raw_scalar_key_def)
next
  case False
  then show ?thesis
    by (auto simp: encode_raw_scalar_def raw_scalar_key_decode encode_scalar_into_append
        split: option.split)
qed



text \<open>C38. The byte order of integer keys (and of timestamp keys) is the numeric order among
  integers of the same sign; a negative integer's key is above every non-negative one's.\<close>

theorem int_key_order:
  "(encode_scalar (Int64 a) < encode_scalar (Int64 b) \<longleftrightarrow>
      (if (sint a < 0) = (sint b < 0) then sint a < sint b else sint b < 0)) \<and>
   (encode_scalar (Timestamp a) < encode_scalar (Timestamp b) \<longleftrightarrow>
      (if (sint a < 0) = (sint b < 0) then sint a < sint b else sint b < 0))"
  unfolding encode_scalar_less_iff word_less_sint by simp

end
