(* ===== verification/Errors.thy ===== *)
theory Errors
  imports Prelude
begin

text \<open>
  The error type of \<open>src/error.rs\<close> with its classification, the result of a fallible operation,
  and the parts of \<open>src/config.rs\<close> that decide something: the durability modes, the clamp of the
  group-commit interval and the matching of lazy collection patterns. A result has a third
  outcome, \<open>Panic\<close>, for the slice accesses and \<open>unwrap\<close>s of the sources that abort the thread.
\<close>

section \<open>Errors\<close>

datatype error_kind =
    NoError
  | Generic
  | RetryableConflict
  | UniqueViolationKind
  | ConstraintMismatch
  | CancelledKind

datatype hako_error =
    Io str
  | LockPoisoned str
  | StorageError str
  | QueryError str
  | IndexError str
  | Corrupt str
  | InvalidInput str
  | Conflict str
  | UniqueViolation str str str
  | IndexBackfilling str str
  | SchemaViolation str str str
  | Cancelled

fun error_kind_code :: "error_kind \<Rightarrow> nat" where
  "error_kind_code NoError = 0"
| "error_kind_code Generic = 1"
| "error_kind_code RetryableConflict = 2"
| "error_kind_code UniqueViolationKind = 3"
| "error_kind_code ConstraintMismatch = 4"
| "error_kind_code CancelledKind = 5"

fun kind :: "hako_error \<Rightarrow> error_kind" where
  "kind (Conflict _) = RetryableConflict"
| "kind (IndexBackfilling _ _) = RetryableConflict"
| "kind (UniqueViolation _ _ _) = UniqueViolationKind"
| "kind (SchemaViolation _ _ _) = ConstraintMismatch"
| "kind Cancelled = CancelledKind"
| "kind _ = Generic"

definition is_retryable :: "hako_error \<Rightarrow> bool" where
  "is_retryable e \<longleftrightarrow> kind e = RetryableConflict"

section \<open>Results\<close>

datatype 'a result = Ok 'a | Err hako_error | Panic

fun and_then :: "'a result \<Rightarrow> ('a \<Rightarrow> 'b result) \<Rightarrow> 'b result" where
  "and_then (Ok x) f = f x"
| "and_then (Err e) f = Err e"
| "and_then Panic f = Panic"

lemma and_then_Ok_iff [simp]:
  "and_then r f = Ok y \<longleftrightarrow> (\<exists>x. r = Ok x \<and> f x = Ok y)"
  by (cases r) auto

text \<open>An index range on a slice (\<open>&bs[a..b]\<close>) panics where \<open>get\<close> returns \<open>None\<close>.\<close>

definition index_range :: "bytes \<Rightarrow> nat \<Rightarrow> nat \<Rightarrow> bytes result" where
  "index_range bs a b = (case get_range bs a b of None \<Rightarrow> Panic | Some s \<Rightarrow> Ok s)"

lemma index_range_Ok_iff [simp]:
  "index_range bs a b = Ok s \<longleftrightarrow> get_range bs a b = Some s"
  by (auto simp: index_range_def split: option.splits)

section \<open>Configuration\<close>

datatype durability_mode = Always | Interval | Manual | OnCommit

definition default_group_commit_interval_ms :: nat where
  "default_group_commit_interval_ms = 5"

definition clamp_group_commit_interval_ms :: "nat \<Rightarrow> nat" where
  "clamp_group_commit_interval_ms ms = (if ms < 1 then 1 else if 30000 < ms then 30000 else ms)"

definition lazy_pattern_match :: "str list \<Rightarrow> str \<Rightarrow> bool" where
  "lazy_pattern_match patterns name =
    list_ex (\<lambda>p. if p \<noteq> [] \<and> last p = 0x2A then prefix (butlast p) name else p = name) patterns"

end
