(* ===== verification/Crypto.thy ===== *)
theory Crypto
  imports Errors
begin

text \<open>
  The encryption context of \<open>src/storage/crypto.rs\<close>. The hash functions and the authenticated
  cipher are code of other crates: they are the fields of a record \<open>prims\<close> that the definitions
  take as an argument, and \<open>aead_ok\<close> states the documented contract of the cipher. The atomic
  counter is a field of the context; an encryption returns the context with the counter advanced.
\<close>

record prims =
  crc32 :: "bytes \<Rightarrow> u32"
  sha256 :: "bytes \<Rightarrow> bytes"
  aead_seal :: "bytes \<Rightarrow> bytes \<Rightarrow> bytes \<Rightarrow> bytes option"
  aead_open :: "bytes \<Rightarrow> bytes \<Rightarrow> bytes \<Rightarrow> bytes option"

definition aead_ok :: "prims \<Rightarrow> bool" where
  "aead_ok P \<longleftrightarrow> (\<forall>k n p c. aead_seal P k n p = Some c \<longrightarrow>
    aead_open P k n c = Some p \<and> length c = length p + 16)"

text \<open>A concrete instance that satisfies the contract, for evaluation on examples.\<close>

definition sample_prims :: prims where
  "sample_prims =
    \<lparr>crc32 = (\<lambda>bs. of_nat (sum_list (map unat bs))),
     sha256 = (\<lambda>bs. rev bs),
     aead_seal = (\<lambda>k n p. Some (p @ replicate 16 (of_nat (length k)))),
     aead_open = (\<lambda>k n c.
       if 16 \<le> length c \<and> drop (length c - 16) c = replicate 16 (of_nat (length k))
       then Some (take (length c - 16) c) else None)\<rparr>"

lemma sample_prims_ok: "aead_ok sample_prims"
  by (simp add: aead_ok_def sample_prims_def)

record enc_ctx =
  ctx_key :: bytes
  ctx_prefix :: u32
  ctx_counter :: u64

definition from_secret :: "prims \<Rightarrow> str \<Rightarrow> u32 \<Rightarrow> enc_ctx" where
  "from_secret P secret rng =
    \<lparr>ctx_key = sha256 P secret, ctx_prefix = rng, ctx_counter = 0\<rparr>"

definition next_nonce :: "enc_ctx \<Rightarrow> bytes" where
  "next_nonce c = u32_be (ctx_prefix c) @ u64_be (ctx_counter c)"

definition encrypt :: "prims \<Rightarrow> enc_ctx \<Rightarrow> bytes \<Rightarrow> bytes result \<times> enc_ctx" where
  "encrypt P c plaintext =
    (let nonce = next_nonce c;
         c' = c\<lparr>ctx_counter := ctx_counter c + 1\<rparr>
     in case aead_seal P (ctx_key c) nonce plaintext of
          None \<Rightarrow> (Err (StorageError (ascii ''encryption failed'')), c')
        | Some ciphertext \<Rightarrow> (Ok (nonce @ ciphertext), c'))"

definition decrypt :: "prims \<Rightarrow> enc_ctx \<Rightarrow> bytes \<Rightarrow> bytes result" where
  "decrypt P c input =
    (if length input < 12 then Err (Corrupt (ascii ''ciphertext shorter than nonce''))
     else case aead_open P (ctx_key c) (take 12 input) (drop 12 input) of
         None \<Rightarrow> Err (Corrupt (ascii ''decryption failed''))
       | Some plaintext \<Rightarrow> Ok plaintext)"

lemma length_next_nonce [simp]: "length (next_nonce c) = 12"
  by (simp add: next_nonce_def)

lemma encrypt_key: "encrypt P c pt = (r, c') \<Longrightarrow> ctx_key c' = ctx_key c"
  by (auto simp: encrypt_def Let_def split: option.splits)

lemma decrypt_cong: "ctx_key c = ctx_key c' \<Longrightarrow> decrypt P c ct = decrypt P c' ct"
  by (simp add: decrypt_def)

lemma decrypt_encrypt:
  assumes "aead_ok P" "encrypt P c pt = (Ok ct, c')"
  shows "decrypt P c ct = Ok pt" "length ct = length pt + 28"
  using assms
  by (auto simp: encrypt_def decrypt_def aead_ok_def Let_def split: option.splits)

lemma decrypt_not_Panic: "decrypt P c ct \<noteq> Panic"
  by (auto simp: decrypt_def split: option.splits)

text \<open>The nonces of the calls that encrypt a sequence of plaintexts, whatever each of them returns.\<close>

fun nonces_used :: "prims \<Rightarrow> enc_ctx \<Rightarrow> bytes list \<Rightarrow> bytes list" where
  "nonces_used P c [] = []"
| "nonces_used P c (pt # pts) = next_nonce c # nonces_used P (snd (encrypt P c pt)) pts"

lemma nonces_used_eq:
  "nonces_used P c pts =
    map (\<lambda>i. u32_be (ctx_prefix c) @ u64_be (ctx_counter c + of_nat i)) [0..<length pts]"
proof (induction pts arbitrary: c)
  case (Cons pt pts)
  let ?c = "snd (encrypt P c pt)"
  have c: "ctx_prefix ?c = ctx_prefix c" "ctx_counter ?c = ctx_counter c + 1"
    by (auto simp: encrypt_def Let_def split: option.splits)
  have "[0..<Suc (length pts)] = 0 # map Suc [0..<length pts]"
    by (simp only: upt_conv_Cons map_Suc_upt zero_less_Suc)
  then show ?case
    by (simp add: Cons.IH c comp_def next_nonce_def add.assoc del: upt_Suc)
qed simp



end
