(* ===== verification/Page_Cache.thy ===== *)
theory Page_Cache
  imports Prelude
begin

text \<open>
  The block cache of \<open>src/memory/page_cache.rs\<close>: the blocks, the eviction order and the reverse
  index from keys to positions in that order. The locale \<open>block_cache\<close> is what its client, the
  segment reader, relies on: a hit returns something put under the
  key before.
\<close>

section \<open>Interface\<close>

locale block_cache =
  fixes lookup :: "'c \<Rightarrow> 'k \<Rightarrow> 'v option"
    and get :: "'k \<Rightarrow> 'c \<Rightarrow> 'v option \<times> 'c"
    and put :: "'k \<Rightarrow> 'v \<Rightarrow> 'c \<Rightarrow> 'c"
  assumes get_result: "fst (get k c) = lookup c k"
    and lookup_get: "lookup (snd (get k c)) = lookup c"
    and lookup_put: "lookup (put k v c) j = Some x \<Longrightarrow> j = k \<and> x = v \<or> lookup c j = Some x"
begin

text \<open>A cache that holds only values of a function keeps doing so when it is filled from it.\<close>

definition coherent :: "('k \<Rightarrow> 'v option) \<Rightarrow> 'c \<Rightarrow> bool" where
  "coherent f c \<longleftrightarrow> (\<forall>k v. lookup c k = Some v \<longrightarrow> f k = Some v)"

lemma coherent_get: "coherent f c \<Longrightarrow> coherent f (snd (get k c))"
  by (simp add: coherent_def lookup_get)

lemma coherent_put: "coherent f c \<Longrightarrow> f k = Some v \<Longrightarrow> coherent f (put k v c)"
  using lookup_put by (fastforce simp: coherent_def)

lemma coherent_hit: "coherent f c \<Longrightarrow> fst (get k c) = Some v \<Longrightarrow> f k = Some v"
  by (simp add: coherent_def get_result)

text \<open>The same for a relation between keys and values.\<close>

definition holds_only :: "('k \<Rightarrow> 'v \<Rightarrow> bool) \<Rightarrow> 'c \<Rightarrow> bool" where
  "holds_only R c \<longleftrightarrow> (\<forall>k v. lookup c k = Some v \<longrightarrow> R k v)"

lemma holds_only_get: "holds_only R c \<Longrightarrow> holds_only R (snd (get k c))"
  by (simp add: holds_only_def lookup_get)

lemma holds_only_put: "holds_only R c \<Longrightarrow> R k v \<Longrightarrow> holds_only R (put k v c)"
  using lookup_put by (fastforce simp: holds_only_def)

lemma holds_only_hit: "holds_only R c \<Longrightarrow> fst (get k c) = Some v \<Longrightarrow> R k v"
  by (simp add: holds_only_def get_result)

lemma holds_only_mono: "holds_only R c \<Longrightarrow> (\<And>k v. R k v \<Longrightarrow> S k v) \<Longrightarrow> holds_only S c"
  by (simp add: holds_only_def)

end

section \<open>The cache\<close>

record block_key =
  block_segment :: u64
  block_offset :: u64

record page_cache =
  max_bytes :: nat
  current_bytes :: nat
  cache_order :: "block_key list"
  cache_positions :: "block_key \<rightharpoonup> nat"
  cache_blocks :: "block_key \<rightharpoonup> bytes"

definition cache_new :: "nat \<Rightarrow> page_cache" where
  "cache_new limit =
    \<lparr>max_bytes = limit, current_bytes = 0, cache_order = [], cache_positions = Map.empty, cache_blocks = Map.empty\<rparr>"

text \<open>\<open>VecDeque::remove\<close> out of range removes nothing.\<close>

definition remove_at :: "nat \<Rightarrow> 'a list \<Rightarrow> 'a list" where
  "remove_at pos xs = take pos xs @ drop (Suc pos) xs"

fun renumber :: "block_key list \<Rightarrow> nat \<Rightarrow> (block_key \<rightharpoonup> nat) \<Rightarrow> (block_key \<rightharpoonup> nat)" where
  "renumber [] i m = m"
| "renumber (k # ks) i m = renumber ks (Suc i) (m(k \<mapsto> i))"

definition cache_get :: "block_key \<Rightarrow> page_cache \<Rightarrow> bytes option \<times> page_cache" where
  "cache_get key c =
    (case cache_blocks c key of
       None \<Rightarrow> (None, c)
     | Some data \<Rightarrow>
         (case cache_positions c key of
            None \<Rightarrow> (Some data, c)
          | Some pos \<Rightarrow>
              if pos + 1 \<noteq> length (cache_order c) then
                let order' = remove_at pos (cache_order c);
                    positions' = renumber (drop pos order') pos (cache_positions c)
                in (Some data, c\<lparr>cache_order := order' @ [key],
                                 cache_positions := positions'(key \<mapsto> length order')\<rparr>)
              else (Some data, c)))"

text \<open>The eviction loop of \<open>put\<close>, which pops the front until the new block fits.\<close>

fun evict :: "nat \<Rightarrow> nat \<Rightarrow> block_key list \<Rightarrow> nat \<Rightarrow> (block_key \<rightharpoonup> nat) \<Rightarrow> (block_key \<rightharpoonup> bytes) \<Rightarrow>
    block_key list \<times> nat \<times> (block_key \<rightharpoonup> nat) \<times> (block_key \<rightharpoonup> bytes)" where
  "evict limit sz [] cur ps bs = ([], cur, ps, bs)"
| "evict limit sz (victim # ks) cur ps bs =
    (if limit < cur + sz then
       (case bs victim of
          None \<Rightarrow> evict limit sz ks cur (ps(victim := None)) bs
        | Some block \<Rightarrow>
            evict limit sz ks (cur - length block) (ps(victim := None)) (bs(victim := None)))
     else (victim # ks, cur, ps, bs))"

definition cache_put :: "block_key \<Rightarrow> bytes \<Rightarrow> page_cache \<Rightarrow> page_cache" where
  "cache_put key data c =
    (if max_bytes c < length data then c
     else let (order', cur, ps, bs) =
                evict (max_bytes c) (length data) (cache_order c) (current_bytes c) (cache_positions c) (cache_blocks c)
          in c\<lparr>current_bytes := cur + length data, cache_order := order' @ [key],
               cache_positions := ps(key \<mapsto> length order'), cache_blocks := bs(key \<mapsto> data)\<rparr>)"

section \<open>The interface holds\<close>

lemma evict_blocks:
  "evict limit sz ks cur ps bs = (ks', cur', ps', bs') \<Longrightarrow> bs' \<subseteq>\<^sub>m bs"
proof (induction ks arbitrary: cur ps bs)
  case (Cons victim ks)
  have le: "bs(victim := None) \<subseteq>\<^sub>m bs" by (simp add: map_le_def)
  from Cons show ?case
    by (cases "limit < cur + sz"; cases "bs victim") (auto intro: map_le_trans [OF _ le])
qed simp

interpretation pages: block_cache cache_blocks cache_get cache_put
proof
  fix k c
  show "fst (cache_get k c) = cache_blocks c k" "cache_blocks (snd (cache_get k c)) = cache_blocks c"
    by (auto simp: cache_get_def Let_def split: option.splits)
next
  fix k v c j x
  assume a: "cache_blocks (cache_put k v c) j = Some x"
  obtain o1 cur ps bs where e: "evict (max_bytes c) (length v) (cache_order c) (current_bytes c) (cache_positions c)
      (cache_blocks c) = (o1, cur, ps, bs)" by (metis prod_cases4)
  show "j = k \<and> x = v \<or> cache_blocks c j = Some x"
    using a evict_blocks [OF e]
    by (auto simp: cache_put_def e map_le_def dom_def split: if_splits)
qed

section \<open>The byte budget\<close>

definition block_bytes :: "(block_key \<rightharpoonup> bytes) \<Rightarrow> nat" where
  "block_bytes bs = (\<Sum>k \<in> dom bs. length (the (bs k)))"

definition cache_ok :: "page_cache \<Rightarrow> bool" where
  "cache_ok c \<longleftrightarrow> finite (dom (cache_blocks c)) \<and> dom (cache_blocks c) \<subseteq> set (cache_order c) \<and>
    current_bytes c = block_bytes (cache_blocks c) \<and> current_bytes c \<le> max_bytes c"

lemma block_bytes_remove:
  assumes "finite (dom bs)" "bs k = Some b"
  shows "block_bytes (bs(k := None)) = block_bytes bs - length b"
proof -
  have "block_bytes bs = length b + (\<Sum>j \<in> dom bs - {k}. length (the (bs j)))"
    using assms by (simp add: block_bytes_def sum.remove [of _ k] domI)
  moreover have "block_bytes (bs(k := None)) = (\<Sum>j \<in> dom bs - {k}. length (the (bs j)))"
    unfolding block_bytes_def by (rule sum.cong) auto
  ultimately show ?thesis by simp
qed

lemma block_bytes_insert:
  assumes "finite (dom bs)" "bs k = None"
  shows "block_bytes (bs(k \<mapsto> b)) = block_bytes bs + length b"
proof -
  have "k \<notin> dom bs" using assms(2) by auto
  then have "block_bytes (bs(k \<mapsto> b)) = length b + (\<Sum>j \<in> dom bs. length (the ((bs(k \<mapsto> b)) j)))"
    using assms(1) by (simp add: block_bytes_def)
  also have "(\<Sum>j \<in> dom bs. length (the ((bs(k \<mapsto> b)) j))) = block_bytes bs"
    unfolding block_bytes_def using \<open>k \<notin> dom bs\<close> by (intro sum.cong) auto
  finally show ?thesis by (simp only: add.commute)
qed

lemma evict_budget:
  "evict limit sz ks cur ps bs = (ks', cur', ps', bs') \<Longrightarrow> finite (dom bs) \<Longrightarrow> dom bs \<subseteq> set ks \<Longrightarrow>
    cur = block_bytes bs \<Longrightarrow> sz \<le> limit \<Longrightarrow>
    finite (dom bs') \<and> dom bs' \<subseteq> set ks' \<and> cur' = block_bytes bs' \<and> cur' + sz \<le> limit"
proof (induction ks arbitrary: cur ps bs)
  case Nil
  then show ?case by (auto simp: block_bytes_def)
next
  case (Cons victim ks)
  show ?case
  proof (cases "limit < cur + sz")
    case True
    show ?thesis
    proof (cases "bs victim")
      case None
      with True Cons.prems show ?thesis by (intro Cons.IH) auto
    next
      case (Some b)
      let ?bs = "bs(victim := None)"
      have "evict limit sz ks (cur - length b) (ps(victim := None)) ?bs = (ks', cur', ps', bs')"
        using True Some Cons.prems(1) by simp
      moreover have "finite (dom ?bs)" "dom ?bs \<subseteq> set ks" "cur - length b = block_bytes ?bs"
        using Some Cons.prems(2-4) block_bytes_remove [OF Cons.prems(2) Some] by auto
      ultimately show ?thesis using Cons.prems(5) by (rule Cons.IH)
    qed
  next
    case False
    with Cons.prems show ?thesis by auto
  qed
qed

text \<open>C24. The byte budget: when the accounting is exact and every block is in the eviction order, putting
  a block that is not cached keeps both, and the cached bytes stay within the limit however large
  the evicted blocks are; a block above the limit changes nothing.\<close>

theorem cache_put_budget:
  assumes "cache_ok c" "cache_blocks c key = None"
  shows "cache_ok (cache_put key data c) \<and>
    cache_blocks (cache_put key data c) key = (if length data \<le> max_bytes c then Some data else None)"
proof (cases "max_bytes c < length data")
  case True
  with assms show ?thesis by (simp add: cache_put_def)
next
  case False
  obtain o1 cur ps bs where e: "evict (max_bytes c) (length data) (cache_order c) (current_bytes c) (cache_positions c)
      (cache_blocks c) = (o1, cur, ps, bs)" by (metis prod_cases4)
  have "finite (dom bs) \<and> dom bs \<subseteq> set o1 \<and> cur = block_bytes bs \<and> cur + length data \<le> max_bytes c"
    using assms(1) False by (intro evict_budget [OF e]) (auto simp: cache_ok_def)
  moreover have "bs key = None" using evict_blocks [OF e] assms(2) by (auto simp: map_le_def dom_def)
  ultimately show ?thesis using False
    by (auto simp: cache_put_def e cache_ok_def block_bytes_insert)
qed

abbreviation sample_key :: "u64 \<Rightarrow> block_key" where
  "sample_key n \<equiv> \<lparr>block_segment = 0, block_offset = n\<rparr>"

theorem cache_put_budget_witness:
  "cache_ok (cache_put (sample_key 1) [1, 2] (cache_new 3)) \<and>
   cache_blocks (cache_put (sample_key 1) [1, 2] (cache_new 3)) (sample_key 1) = Some [1, 2]"
  using cache_put_budget [of "cache_new 3" "sample_key 1" "[1, 2]"]
  by (simp add: cache_ok_def cache_new_def block_bytes_def)

text \<open>
  An eviction pops the front of the order without renumbering the positions. A later hit then takes
  another key out of the order: that key's block can no longer be evicted, and the cache grows past
  its limit.
\<close>

definition stale_cache :: page_cache where
  "stale_cache = snd (cache_get (sample_key 2)
     (foldl (\<lambda>c n. cache_put (sample_key n) [0] c) (cache_new 3) [1, 2, 3, 4]))"

lemma stale_positions_lose_key:
  "cache_order stale_cache = [sample_key 2, sample_key 4, sample_key 2]"
  "cache_blocks stale_cache (sample_key 3) = Some [0]"
  by (simp_all add: stale_cache_def cache_new_def cache_put_def cache_get_def remove_at_def Let_def)

lemma stale_positions_exceed_budget:
  "current_bytes (cache_put (sample_key 5) [0, 0, 0] stale_cache) = 4 \<and> max_bytes stale_cache = 3"
  by (simp add: stale_cache_def cache_new_def cache_put_def cache_get_def remove_at_def Let_def)

end
