(* ===== verification/Segment.thy ===== *)
theory Segment
  imports Crypto Page_Cache
begin

text \<open>
  The segment files of \<open>src/storage/segment.rs\<close> with the memory map of \<open>src/memory/mmap_store.rs\<close>
  they read through, and the compaction of \<open>src/storage/compaction.rs\<close>. A record is its length
  (with the compression flag in bit 31) and its payload; a pointer to it is the offset and that
  length. The map sees the file up to the length the file had when the segment was opened. The zstd
  codec is the argument \<open>Z\<close>, \<open>None\<close> in a build without the \<open>compression\<close> feature. File operations succeed; a read past the end
  of the file leaves zeros in the buffer.
\<close>

section \<open>State\<close>

record zstd =
  zstd_encode :: "bytes \<Rightarrow> bytes option"
  zstd_decode :: "bytes \<Rightarrow> bytes option"

definition zstd_ok :: "zstd \<Rightarrow> bool" where
  "zstd_ok Z \<longleftrightarrow> (\<forall>raw c. zstd_encode Z raw = Some c \<longrightarrow> zstd_decode Z c = Some raw)"

record segment =
  seg_file :: bytes
  seg_map :: nat
  seg_id :: u64
  seg_enc :: "enc_ctx option"
  current_size :: nat

definition segment_open :: "bytes \<Rightarrow> u64 \<Rightarrow> enc_ctx option \<Rightarrow> segment" where
  "segment_open contents sid enc =
    \<lparr>seg_file = contents, seg_map = length contents, seg_id = sid, seg_enc = enc,
     current_size = length contents\<rparr>"

text \<open>\<open>MmapStore::read_slice\<close>, and a positional read of the file into a zeroed buffer.\<close>

definition read_slice :: "bytes \<Rightarrow> nat \<Rightarrow> nat \<Rightarrow> nat \<Rightarrow> bytes" where
  "read_slice contents sz off len =
    (if sz < off + len then replicate len 0 else subslice off (off + len) (take sz contents))"

definition file_read_at :: "bytes \<Rightarrow> nat \<Rightarrow> nat \<Rightarrow> bytes" where
  "file_read_at contents off len =
    (let got = subslice off (off + len) contents in got @ replicate (len - length got) 0)"

section \<open>Writing\<close>

definition seal_value :: "prims \<Rightarrow> enc_ctx option \<Rightarrow> bytes \<Rightarrow> bytes result \<times> enc_ctx option" where
  "seal_value P enc v =
    (case enc of
       None \<Rightarrow> (Ok v, None)
     | Some c \<Rightarrow> (let (r, c') = encrypt P c v in (r, Some c')))"

text \<open>
  The loop of \<open>append_batch\<close>: the bytes to write and the offset and stored length of each record.
  An encryption error leaves the file as it was, with the sizes counted so far.
\<close>

fun append_values :: "prims \<Rightarrow> bytes list \<Rightarrow> nat \<Rightarrow> bytes \<Rightarrow> (u64 \<times> u32) list \<Rightarrow> segment \<Rightarrow>
    (bytes \<times> (u64 \<times> u32) list) result \<times> segment" where
  "append_values P [] off buf results s = (Ok (buf, results), s)"
| "append_values P (v # vs) off buf results s =
    (let (r, enc') = seal_value P (seg_enc s) v in
     case r of
       Ok payload \<Rightarrow>
         append_values P vs (off + 4 + length payload)
           (buf @ u32_le (of_nat (length payload)) @ payload)
           (results @ [(of_nat off, of_nat (length payload))])
           (s\<lparr>seg_enc := enc', current_size := current_size s + (4 + length payload)\<rparr>)
     | Err e \<Rightarrow> (Err e, s\<lparr>seg_enc := enc'\<rparr>)
     | Panic \<Rightarrow> (Panic, s))"

definition segment_append_batch ::
  "prims \<Rightarrow> bytes list \<Rightarrow> segment \<Rightarrow> (u64 \<times> u32) list result \<times> segment" where
  "segment_append_batch P vs s =
    (if vs = [] then (Ok [], s)
     else case append_values P vs (length (seg_file s)) [] [] s of
         (Ok (buf, results), s') \<Rightarrow> (Ok results, s'\<lparr>seg_file := seg_file s' @ buf\<rparr>)
       | (Err e, s') \<Rightarrow> (Err e, s')
       | (Panic, s') \<Rightarrow> (Panic, s'))"

definition segment_append :: "prims \<Rightarrow> bytes \<Rightarrow> segment \<Rightarrow> (u64 \<times> u32) result \<times> segment" where
  "segment_append P v s =
    (case segment_append_batch P [v] s of
       (Ok results, s') \<Rightarrow> (if results = [] then Panic else Ok (last results), s')
     | (Err e, s') \<Rightarrow> (Err e, s')
     | (Panic, s') \<Rightarrow> (Panic, s'))"

definition append_raw_with_len :: "bytes \<Rightarrow> u32 \<Rightarrow> segment \<Rightarrow> u64 \<times> segment" where
  "append_raw_with_len payload stored_len s =
    (of_nat (length (seg_file s)), s\<lparr>seg_file := seg_file s @ u32_le stored_len @ payload\<rparr>)"

definition segment_truncate :: "segment \<Rightarrow> segment" where
  "segment_truncate s = s\<lparr>seg_file := []\<rparr>"

section \<open>Reading\<close>

text \<open>
  The physical read of \<open>read_at\<close>: the record's payload, decrypted and decompressed. The message of a
  codec error is cut before the codec's own text.
\<close>

definition open_record :: "prims \<Rightarrow> zstd option \<Rightarrow> enc_ctx option \<Rightarrow> u32 \<Rightarrow> bytes \<Rightarrow> bytes result" where
  "open_record P Z enc stored_len payload =
    and_then (case enc of None \<Rightarrow> Ok payload | Some c \<Rightarrow> decrypt P c payload)
      (\<lambda>out. if bit stored_len 31 then
         (case Z of
            None \<Rightarrow> Err (StorageError (ascii
              ''segment payload is zstd-compressed but this build lacks the `compression` feature''))
          | Some z \<Rightarrow>
              (case zstd_decode z out of
                 None \<Rightarrow> Err (StorageError (ascii ''Zstd fail: ''))
               | Some raw \<Rightarrow> Ok raw))
       else Ok out)"

definition read_payload :: "prims \<Rightarrow> zstd option \<Rightarrow> segment \<Rightarrow> u64 \<Rightarrow> u32 \<Rightarrow> bytes result" where
  "read_payload P Z s off stored_len =
    (let total_to_read = 4 + unat (stored_len AND 0x7FFFFFFF);
         buffer = (if unat off + total_to_read \<le> seg_map s
                   then read_slice (seg_file s) (seg_map s) (unat off) total_to_read
                   else file_read_at (seg_file s) (unat off) total_to_read)
     in open_record P Z (seg_enc s) stored_len (drop 4 buffer))"

definition segment_read_at ::
  "prims \<Rightarrow> zstd option \<Rightarrow> segment \<Rightarrow> u64 \<Rightarrow> u32 \<Rightarrow> bool \<Rightarrow> page_cache \<Rightarrow> bytes result \<times> page_cache" where
  "segment_read_at P Z s off stored_len use_cache cache =
    (let key = \<lparr>block_segment = seg_id s, block_offset = off\<rparr>;
         (hit, cache1) = (if use_cache then cache_get key cache else (None, cache))
     in case hit of
          Some data \<Rightarrow> (Ok data, cache1)
        | None \<Rightarrow>
            (case read_payload P Z s off stored_len of
               Ok out \<Rightarrow> (Ok out, if use_cache then cache_put key out cache1 else cache1)
             | r \<Rightarrow> (r, cache1)))"

section \<open>Records in a segment\<close>

definition stored_size :: "u32 \<Rightarrow> nat" where
  "stored_size stored_len = unat (stored_len AND 0x7FFFFFFF)"

definition record_at :: "segment \<Rightarrow> u64 \<Rightarrow> u32 \<Rightarrow> bytes \<Rightarrow> bool" where
  "record_at s off stored_len payload \<longleftrightarrow>
    get_range (seg_file s) (unat off + 4) (unat off + 4 + stored_size stored_len) = Some payload \<and>
    seg_map s \<le> length (seg_file s)"

lemma drop_subslice: "a + n \<le> b \<Longrightarrow> drop n (subslice a b bs) = subslice (a + n) b bs"
  by (simp add: subslice_def drop_take add.commute)

text \<open>Through the map or through the file, the same bytes are read.\<close>

lemma read_payload_record:
  assumes "record_at s off stored_len payload"
  shows "read_payload P Z s off stored_len = open_record P Z (seg_enc s) stored_len payload"
proof -
  let ?n = "4 + stored_size stored_len" and ?o = "unat off"
  from assms have b: "?o + ?n \<le> length (seg_file s)" "seg_map s \<le> length (seg_file s)"
    and p: "payload = subslice (?o + 4) (?o + ?n) (seg_file s)"
    by (auto simp: record_at_def get_range_Some_iff add.assoc)
  have m: "?o + ?n \<le> seg_map s \<Longrightarrow> read_slice (seg_file s) (seg_map s) ?o ?n = subslice ?o (?o + ?n) (seg_file s)"
    by (simp add: read_slice_def subslice_def take_drop min_def)
  have f: "file_read_at (seg_file s) ?o ?n = subslice ?o (?o + ?n) (seg_file s)"
    using b by (simp add: file_read_at_def length_subslice)
  have "drop 4 (subslice ?o (?o + ?n) (seg_file s)) = payload"
    using p by (simp add: drop_subslice)
  with m f show ?thesis
    by (simp add: read_payload_def stored_size_def Let_def)
qed

lemma record_at_append:
  "record_at s off stored_len payload \<Longrightarrow> seg_file s' = seg_file s @ suf \<Longrightarrow> seg_map s' = seg_map s \<Longrightarrow>
    record_at s' off stored_len payload"
  by (simp add: record_at_def get_range_mono)

lemma open_record_cong:
  "map_option ctx_key enc = map_option ctx_key enc' \<Longrightarrow> open_record P Z enc = open_record P Z enc'"
  by (cases enc; cases enc') (auto simp: open_record_def fun_eq_iff cong: decrypt_cong)

lemma stored_small:
  assumes "n < 2 ^ 31"
  shows "stored_size (of_nat n) = n" "\<not> bit (of_nat n :: u32) 31"
proof -
  have u: "unat (of_nat n :: u32) = n" using assms by (simp add: unat_of_nat)
  have m: "(0x7FFFFFFF :: u32) = mask 31" by (simp add: mask_eq_exp_minus_1)
  have "unat ((of_nat n :: u32) AND mask 31) = n"
    using assms u by (simp add: take_bit_eq_mask [symmetric] unsigned_take_bit_eq take_bit_nat_eq_self del: take_bit_of_nat)
  then show "stored_size (of_nat n) = n" by (simp only: stored_size_def m)
  have "\<not> bit n 31" using assms by (simp add: bit_iff_odd)
  then have "\<not> bit (unat (of_nat n :: u32)) 31" unfolding u .
  then show "\<not> bit (of_nat n :: u32) 31" by (simp add: bit_unsigned_iff)
qed

lemma seal_value_ok:
  assumes "aead_ok P" "seal_value P enc v = (Ok payload, enc')"
  shows "map_option ctx_key enc' = map_option ctx_key enc" "length payload \<le> length v + 28"
    "\<not> bit l 31 \<Longrightarrow> open_record P Z enc l payload = Ok v"
  using assms decrypt_encrypt [OF assms(1)] encrypt_key
  by (cases enc; auto simp: seal_value_def open_record_def split: prod.splits)+

definition placed :: "prims \<Rightarrow> zstd option \<Rightarrow> enc_ctx option \<Rightarrow> bytes \<Rightarrow> u64 \<Rightarrow> u32 \<Rightarrow> bytes \<Rightarrow> bool" where
  "placed P Z enc contents off stored_len v \<longleftrightarrow>
    get_range contents (unat off) (unat off + 4) = Some (u32_le stored_len) \<and>
    (\<exists>payload. get_range contents (unat off + 4) (unat off + 4 + stored_size stored_len) = Some payload \<and>
      open_record P Z enc stored_len payload = Ok v)"

lemma placed_append: "placed P Z enc contents off l v \<Longrightarrow> placed P Z enc (contents @ suf) off l v"
  by (auto simp: placed_def intro: get_range_mono)

lemma placed_unique:
  assumes "placed P Z enc contents off l v" "placed P Z enc contents off l' v'"
  shows "l' = l \<and> v' = v"
  using assms by (auto simp: placed_def int_bytes_inject)

lemma placed_cong: "map_option ctx_key enc = map_option ctx_key enc' \<Longrightarrow> placed P Z enc = placed P Z enc'"
  using open_record_cong [of enc enc' P Z] by (intro ext) (simp add: placed_def)

lemma placed_read:
  assumes "placed P Z (seg_enc s) (seg_file s) off l v" "seg_map s \<le> length (seg_file s)"
  shows "read_payload P Z s off l = Ok v"
proof -
  from assms obtain payload where "record_at s off l payload" "open_record P Z (seg_enc s) l payload = Ok v"
    by (auto simp: placed_def record_at_def)
  with read_payload_record show ?thesis by simp
qed

lemma placed_at:
  assumes "stored_size l = length payload" "length pre < 2 ^ 64" "open_record P Z enc l payload = Ok v"
  shows "placed P Z enc (pre @ u32_le l @ payload @ suf) (of_nat (length pre)) l v"
proof -
  have "unat (of_nat (length pre) :: u64) = length pre" using assms(2) by (simp add: unat_of_nat)
  moreover have "get_range ((pre @ u32_le l) @ payload @ suf) (length pre + 4) (length pre + 4 + length payload) = Some payload"
    by (rule get_range_mid) simp_all
  moreover have "get_range (pre @ u32_le l @ payload @ suf) (length pre) (length pre + 4) = Some (u32_le l)"
    by (rule get_range_mid) simp_all
  ultimately show ?thesis using assms(1,3) by (auto simp: placed_def)
qed

lemma append_values_file:
  "append_values P vs off buf results s = (r, s') \<Longrightarrow> seg_file s' = seg_file s"
proof (induction vs arbitrary: off buf results s)
  case (Cons v vs)
  then show ?case by (fastforce split: prod.splits result.splits)
qed simp

lemma append_values_placed:
  assumes "aead_ok P" "append_values P vs off buf results s = (Ok (buf', results'), s')"
    and "off = length F + length buf" "length (F @ buf') < 2 ^ 64" "\<forall>v \<in> set vs. length v < 2 ^ 30"
  shows "map_option ctx_key (seg_enc s') = map_option ctx_key (seg_enc s) \<and> seg_file s' = seg_file s \<and>
    seg_map s' = seg_map s \<and> seg_id s' = seg_id s \<and>
    (\<exists>b new. buf' = buf @ b \<and> results' = results @ new \<and> current_size s' = current_size s + length b \<and>
      list_all2 (\<lambda>v (o1, l). placed P Z (seg_enc s) (F @ buf') o1 l v) vs new)"
  using assms(2-)
proof (induction vs arbitrary: off buf results s)
  case Nil
  then show ?case by auto
next
  case (Cons v vs)
  from Cons.prems(1) obtain payload enc' where sv: "seal_value P (seg_enc s) v = (Ok payload, enc')"
    by (auto split: prod.splits result.splits)
  let ?s = "s\<lparr>seg_enc := enc', current_size := current_size s + (4 + length payload)\<rparr>"
  let ?buf = "buf @ u32_le (of_nat (length payload)) @ payload"
  note sealed = seal_value_ok [OF assms(1) sv]
  have "append_values P vs (off + 4 + length payload) ?buf
      (results @ [(of_nat off, of_nat (length payload))]) ?s = (Ok (buf', results'), s')"
    using Cons.prems(1) sv by simp
  from Cons.IH [OF this] Cons.prems(2-4) obtain b new where ih:
    "map_option ctx_key (seg_enc s') = map_option ctx_key enc'" "seg_file s' = seg_file s"
    "seg_map s' = seg_map s" "seg_id s' = seg_id s" "buf' = ?buf @ b"
    "results' = results @ (of_nat off, of_nat (length payload)) # new"
    "current_size s' = current_size s + (4 + length payload) + length b"
    "list_all2 (\<lambda>v (o1, l). placed P Z enc' (F @ buf') o1 l v) vs new"
    by auto
  have len: "length payload < 2 ^ 31" using sealed(2) Cons.prems(4) by simp
  have "placed P Z (seg_enc s) ((F @ buf) @ u32_le (of_nat (length payload)) @ payload @ b)
      (of_nat (length (F @ buf))) (of_nat (length payload)) v"
    using Cons.prems(3) ih(5) sealed(3) stored_small [OF len] by (intro placed_at) auto
  then have "placed P Z (seg_enc s) (F @ buf') (of_nat off) (of_nat (length payload)) v"
    using Cons.prems(2) ih(5) by simp
  with ih sealed(1) placed_cong [OF sealed(1), of P Z] show ?case
    by (intro conjI exI [of _ "u32_le (of_nat (length payload)) @ payload @ b"]
        exI [of _ "(of_nat off, of_nat (length payload)) # new"]) auto
qed

text \<open>C25. A batch appended to a segment is read back value by value through the offsets and lengths it
  returned, encrypted or not, through the memory map or the file; and every record the segment
  already held is still read as the same value.\<close>

theorem segment_append_readable:
  assumes "aead_ok P" "segment_append_batch P vs s = (Ok results, s')"
    and "seg_map s \<le> length (seg_file s)" "length (seg_file s') < 2 ^ 64" "\<forall>v \<in> set vs. length v < 2 ^ 30"
  shows "list_all2 (\<lambda>v (off, l). read_payload P Z s' off l = Ok v) vs results \<and>
    (\<forall>off l v. placed P Z (seg_enc s) (seg_file s) off l v \<longrightarrow>
      read_payload P Z s off l = Ok v \<and> read_payload P Z s' off l = Ok v)"
proof (cases "vs = []")
  case True
  with assms(2,3) placed_read show ?thesis by (auto simp: segment_append_batch_def)
next
  case False
  with assms(2) obtain buf s1 where 1: "append_values P vs (length (seg_file s)) [] [] s = (Ok (buf, results), s1)"
    "s' = s1\<lparr>seg_file := seg_file s1 @ buf\<rparr>"
    by (auto simp: segment_append_batch_def split: prod.splits result.splits)
  have f: "seg_file s1 = seg_file s" using append_values_file [OF 1(1)] .
  from append_values_placed [OF assms(1) 1(1), of "seg_file s" Z] assms(4,5) 1(2) f
  have k: "map_option ctx_key (seg_enc s') = map_option ctx_key (seg_enc s)" "seg_map s' = seg_map s"
    "seg_file s' = seg_file s @ buf"
    and all: "list_all2 (\<lambda>v (o1, l). placed P Z (seg_enc s) (seg_file s') o1 l v) vs results"
    by auto
  have r: "read_payload P Z s' off l = Ok v" if "placed P Z (seg_enc s) (seg_file s') off l v" for off l v
    using that placed_cong [OF k(1), of P Z] k(2,3) assms(3) by (intro placed_read) auto
  show ?thesis
    using all r placed_read [OF _ assms(3)] placed_append [of P Z _ "seg_file s"] k(3)
    by (auto elim!: list_all2_mono)
qed

theorem segment_append_readable_witness:
  "read_payload sample_prims None
     (snd (segment_append_batch sample_prims [[7], [8, 9]] (segment_open [1] 0 None))) 6 2 = Ok [8, 9]"
proof -
  let ?s = "segment_open [1] 0 None"
  have a: "segment_append_batch sample_prims [[7], [8, 9]] ?s =
      (Ok [(1, 1), (6, 2)], snd (segment_append_batch sample_prims [[7], [8, 9]] ?s))"
    by (simp add: segment_append_batch_def seal_value_def segment_open_def)
  have "length (seg_file (snd (segment_append_batch sample_prims [[7], [8, 9]] ?s))) < 2 ^ 64"
    by (simp add: segment_append_batch_def seal_value_def segment_open_def)
  with segment_append_readable [OF sample_prims_ok a] show ?thesis
    by (simp add: segment_open_def)
qed

section \<open>Reads through the cache\<close>

text \<open>C23. The cache is transparent: when it holds only values of the stored records, a read with or
  without it returns the record's value, and the cache still holds only such values. The condition
  on the cache is over an assignment \<open>f\<close> of values to block keys that the read agrees with.\<close>

theorem cached_read_transparent:
  assumes "\<forall>k v. cache_blocks cache k = Some v \<longrightarrow> f k = Some v"
    and "f \<lparr>block_segment = seg_id s, block_offset = off\<rparr> = Some v" "read_payload P Z s off l = Ok v"
  shows "fst (segment_read_at P Z s off l use_cache cache) = Ok v \<and>
    (\<forall>k v. cache_blocks (snd (segment_read_at P Z s off l use_cache cache)) k = Some v \<longrightarrow> f k = Some v)"
proof -
  let ?k = "\<lparr>block_segment = seg_id s, block_offset = off\<rparr>"
  have c: "pages.coherent f cache" using assms(1) by (simp add: pages.coherent_def)
  have g: "pages.coherent f (snd (cache_get ?k cache))" by (rule pages.coherent_get [OF c])
  have hit: "x = v" if "fst (cache_get ?k cache) = Some x" for x
    using pages.coherent_hit [OF c that] assms(2) by simp
  show ?thesis
    using c g hit pages.coherent_put [OF g assms(2)] assms(3)
    by (cases "cache_get ?k cache"; cases "fst (cache_get ?k cache)"; cases use_cache)
      (auto simp: segment_read_at_def pages.coherent_def Let_def)
qed

theorem cached_read_transparent_witness:
  "let s = segment_open [2, 0, 0, 0, 8, 9] 3 None;
       f = [\<lparr>block_segment = 3, block_offset = 0\<rparr> \<mapsto> [8, 9]];
       (r, cache) = segment_read_at sample_prims None s 0 2 True (cache_new 16)
   in r = Ok [8, 9] \<and> (\<forall>k v. cache_blocks cache k = Some v \<longrightarrow> f k = Some v)"
proof -
  let ?s = "segment_open [2, 0, 0, 0, 8, 9] 3 None"
  let ?f = "[\<lparr>block_segment = 3, block_offset = 0\<rparr> \<mapsto> [8, 9]] :: block_key \<rightharpoonup> bytes"
  have c: "\<forall>k v. cache_blocks (cache_new 16) k = Some v \<longrightarrow> ?f k = Some v"
    by (simp add: cache_new_def)
  have k: "?f \<lparr>block_segment = seg_id ?s, block_offset = 0\<rparr> = Some [8, 9]"
    by (simp add: segment_open_def)
  have r: "read_payload sample_prims None ?s 0 2 = Ok [8, 9]"
    using stored_small [of 2]
    by (simp add: read_payload_def segment_open_def read_slice_def subslice_def open_record_def stored_size_def)
  show ?thesis
    using cached_read_transparent [OF c k r, of True] by (simp add: Let_def split_beta)
qed

end
