(* ===== verification/Blob.thy ===== *)
theory Blob
  imports Doc_Codec Errors
begin

text \<open>
  The blob file of \<open>src/storage/blob.rs\<close>: regions are reserved by advancing an atomic size, large
  strings and binaries of a document are replaced by links to reserved regions, and the work items
  write the bytes there later. The shared manager is a state that is passed along. Reading a region
  past the end of the file leaves zeros, as the read error is ignored.
\<close>

section \<open>The blob file\<close>

record blob_manager =
  blob_file :: bytes
  blob_size :: u64

definition blob_manager_new :: "bytes \<Rightarrow> u64 \<Rightarrow> blob_manager" where
  "blob_manager_new contents initial_size = \<lparr>blob_file = contents, blob_size = initial_size\<rparr>"

definition reserve_raw :: "u32 \<Rightarrow> blob_manager \<Rightarrow> u64 \<times> blob_manager" where
  "reserve_raw len bm = (blob_size bm, bm\<lparr>blob_size := blob_size bm + ucast len\<rparr>)"

definition reserve_len :: "nat \<Rightarrow> blob_manager \<Rightarrow> u64 \<times> blob_manager" where
  "reserve_len len bm = (blob_size bm, bm\<lparr>blob_size := blob_size bm + of_nat len\<rparr>)"

definition set_blob_size :: "u64 \<Rightarrow> blob_manager \<Rightarrow> blob_manager" where
  "set_blob_size sz bm = bm\<lparr>blob_size := sz\<rparr>"

definition blob_read_at :: "blob_manager \<Rightarrow> u64 \<Rightarrow> u32 \<Rightarrow> bytes" where
  "blob_read_at bm off len =
    (if off = 0xFFFFFFFFFFFFFFFF then []
     else let got = subslice (unat off) (unat off + unat len) (blob_file bm)
          in got @ replicate (unat len - length got) 0)"

text \<open>A positional write fills a gap in front of it with zeros.\<close>

definition write_at :: "bytes \<Rightarrow> nat \<Rightarrow> bytes \<Rightarrow> bytes" where
  "write_at buf off contents =
    take off contents @ replicate (off - length contents) 0 @ buf @ drop (off + length buf) contents"

definition blob_write_at :: "bytes \<Rightarrow> u64 \<Rightarrow> blob_manager \<Rightarrow> blob_manager" where
  "blob_write_at buf off bm = bm\<lparr>blob_file := write_at buf (unat off) (blob_file bm)\<rparr>"

section \<open>Work items\<close>

record put_raw =
  pr_collection :: str
  pr_key :: str
  pr_skeleton :: bytes
  pr_offset :: u64
  pr_data :: bytes
  pr_timestamp :: i64
  pr_len :: u32

datatype blob_work =
    PutRaw put_raw
  | PutWork str str bytes

text \<open>The bytes of a value that is moved out, \<open>None\<close> where the loops keep the value.\<close>

definition raw_bytes :: "value \<Rightarrow> bytes option" where
  "raw_bytes v = (case v of String s \<Rightarrow> Some s | Binary b \<Rightarrow> Some b | _ \<Rightarrow> None)"

definition movable :: "nat \<Rightarrow> value \<Rightarrow> bytes option" where
  "movable threshold v = (if threshold < len_bytes v then raw_bytes v else None)"

fun extract_fields :: "str \<Rightarrow> str \<Rightarrow> i64 \<Rightarrow> nat \<Rightarrow> fields \<Rightarrow> blob_manager \<Rightarrow>
    put_raw list \<times> fields \<times> blob_manager" where
  "extract_fields collection key time threshold [] bm = ([], [], bm)"
| "extract_fields collection key time threshold ((k, v) # fs) bm =
    (let len = len_bytes v in
     case movable threshold v of
       None \<Rightarrow>
         let (works, fs', bm') = extract_fields collection key time threshold fs bm
         in (works, (k, v) # fs', bm')
     | Some raw \<Rightarrow>
         let (off, bm1) = reserve_raw (of_nat len) bm;
             (works, fs', bm') = extract_fields collection key time threshold fs bm1
         in (\<lparr>pr_collection = collection, pr_key = key, pr_skeleton = [], pr_offset = off,
              pr_data = raw, pr_timestamp = time, pr_len = of_nat len\<rparr> # works,
             (k, BlobLink off (of_nat len)) # fs', bm'))"

text \<open>The last work item carries the encoded skeleton of the document.\<close>

definition set_last_skeleton :: "bytes \<Rightarrow> put_raw list \<Rightarrow> put_raw list" where
  "set_last_skeleton skeleton works =
    (if works = [] then [] else butlast works @ [(last works)\<lparr>pr_skeleton := skeleton\<rparr>])"

definition extract_blobs :: "str \<Rightarrow> str \<Rightarrow> hako_doc \<Rightarrow> nat \<Rightarrow> blob_manager \<Rightarrow>
    put_raw list \<times> hako_doc \<times> blob_manager" where
  "extract_blobs collection key d threshold bm =
    (let (works, fs, bm') = extract_fields collection key (doc_time d) threshold (doc_fields d) bm;
         d' = d\<lparr>doc_fields := fs\<rparr>
     in (set_last_skeleton (doc_encode d') works, d', bm'))"

fun extract_patch_blobs :: "str \<Rightarrow> hako_doc \<Rightarrow> (str \<times> value) list \<Rightarrow> nat \<Rightarrow> blob_manager \<Rightarrow>
    put_raw list \<times> hako_doc \<times> blob_manager" where
  "extract_patch_blobs collection d [] threshold bm = ([], d, bm)"
| "extract_patch_blobs collection d ((k, v) # updates) threshold bm =
    (let len = len_bytes v in
     case movable threshold v of
       None \<Rightarrow> extract_patch_blobs collection (doc_insert d k v) updates threshold bm
     | Some raw \<Rightarrow>
         let (off, bm1) = reserve_raw (of_nat len) bm;
             (works, d', bm') =
               extract_patch_blobs collection (doc_insert d k (BlobLink off (of_nat len))) updates threshold bm1
         in (\<lparr>pr_collection = collection, pr_key = [], pr_skeleton = [], pr_offset = off,
              pr_data = raw, pr_timestamp = doc_time d, pr_len = of_nat len\<rparr> # works, d', bm'))"

definition extract_blobs_placeholder :: "hako_doc \<Rightarrow> nat \<Rightarrow> hako_doc" where
  "extract_blobs_placeholder d threshold =
    d\<lparr>doc_fields := map (\<lambda>(k, v). (k,
        if threshold < len_bytes v then BlobLink 0xFFFFFFFFFFFFFFFF (of_nat (len_bytes v)) else v))
      (doc_fields d)\<rparr>"

text \<open>The physical writes of a list of work items, in order.\<close>

definition write_works :: "put_raw list \<Rightarrow> blob_manager \<Rightarrow> blob_manager" where
  "write_works works bm = foldl (\<lambda>bm w. blob_write_at (pr_data w) (pr_offset w) bm) bm works"

section \<open>Resolving links\<close>

text \<open>
  \<open>resolve_doc_static\<close> (and the same pass of \<open>apply_blob_snapshot\<close>) of \<open>src/engine/engine.rs\<close>: a link
  reads from the works still queued, keyed by offset, or from the file; bytes that are valid UTF-8
  become a string. A placeholder link stays.
\<close>

definition queue_snapshot :: "blob_work list \<Rightarrow> (u64 \<rightharpoonup> bytes)" where
  "queue_snapshot queue =
    foldl (\<lambda>m work. case work of PutRaw w \<Rightarrow> m(pr_offset w \<mapsto> pr_data w) | PutWork _ _ _ \<Rightarrow> m)
      Map.empty queue"

definition inflate_bytes :: "bytes \<Rightarrow> value" where
  "inflate_bytes data = (case from_utf8 data of Some s \<Rightarrow> String s | None \<Rightarrow> Binary data)"

definition resolve_value :: "blob_manager \<Rightarrow> (u64 \<rightharpoonup> bytes) \<Rightarrow> value \<Rightarrow> value" where
  "resolve_value bm queued v =
    (case v of
       BlobLink off len \<Rightarrow>
         if off = 0xFFFFFFFFFFFFFFFF then v
         else inflate_bytes (case queued off of Some bytes \<Rightarrow> bytes | None \<Rightarrow> blob_read_at bm off len)
     | _ \<Rightarrow> v)"

definition live_link :: "value \<Rightarrow> bool" where
  "live_link v \<longleftrightarrow> (case v of BlobLink off _ \<Rightarrow> off \<noteq> 0xFFFFFFFFFFFFFFFF | _ \<Rightarrow> False)"

definition resolve_doc :: "blob_manager option \<Rightarrow> blob_work list \<Rightarrow> hako_doc \<Rightarrow> hako_doc result" where
  "resolve_doc manager queue d =
    (if list_ex (\<lambda>(k, v). live_link v) (doc_fields d) then
       (case manager of
          None \<Rightarrow> Err (StorageError (ascii ''No blob manager''))
        | Some bm \<Rightarrow>
            Ok (d\<lparr>doc_fields := map (\<lambda>(k, v). (k, resolve_value bm (queue_snapshot queue) v)) (doc_fields d)\<rparr>))
     else Ok d)"

lemma resolve_doc_Some:
  "resolve_doc (Some bm) queue d =
    Ok (d\<lparr>doc_fields := map (\<lambda>(k, v). (k, resolve_value bm (queue_snapshot queue) v)) (doc_fields d)\<rparr>)"
proof (cases "list_ex (\<lambda>(k, v). live_link v) (doc_fields d)")
  case False
  have "resolve_value bm (queue_snapshot queue) v = v" if "(k, v) \<in> set (doc_fields d)" for k v
    using False that by (cases v) (auto simp: resolve_value_def live_link_def list_ex_iff)
  then have "map (\<lambda>(k, v). (k, resolve_value bm (queue_snapshot queue) v)) (doc_fields d) = doc_fields d"
    by (intro map_idI) auto
  with False show ?thesis by (simp add: resolve_doc_def)
qed (simp add: resolve_doc_def)

section \<open>Regions\<close>

lemma list_all2_map_back:
  "list_all2 P xs ys \<Longrightarrow> (\<And>x y. P x y \<Longrightarrow> x \<in> set xs \<Longrightarrow> f y = x) \<Longrightarrow> map f ys = xs"
  by (induction rule: list_all2_induct) auto


fun regions :: "nat \<Rightarrow> put_raw list \<Rightarrow> nat \<Rightarrow> bool" where
  "regions a [] b = (a = b)"
| "regions a (w # ws) b =
    (unat (pr_offset w) = a \<and> unat (pr_len w) = length (pr_data w) \<and> pr_data w \<noteq> [] \<and>
     regions (a + length (pr_data w)) ws b)"

lemma regions_append: "regions a (ws @ vs) b \<longleftrightarrow> (\<exists>m. regions a ws m \<and> regions m vs b)"
  by (induction ws arbitrary: a) auto

lemma regions_bounds:
  "regions a ws b \<Longrightarrow> a \<le> b \<and> (\<forall>w \<in> set ws. a \<le> unat (pr_offset w) \<and>
    unat (pr_offset w) + length (pr_data w) \<le> b \<and> unat (pr_len w) = length (pr_data w) \<and> pr_data w \<noteq> [])"
  by (induction ws arbitrary: a) fastforce+

lemma subslice_write_at:
  "b \<le> off \<Longrightarrow> b \<le> length c \<Longrightarrow> subslice a b (write_at buf off c) = subslice a b c"
  "subslice off (off + length buf) (write_at buf off c) = buf"
proof -
  assume b: "b \<le> off" "b \<le> length c"
  then have "take b (write_at buf off c) = take b c" by (simp add: write_at_def min_absorb2)
  then show "subslice a b (write_at buf off c) = subslice a b c"
    by (metis drop_take subslice_def)
next
  show "subslice off (off + length buf) (write_at buf off c) = buf"
    by (simp add: write_at_def subslice_def)
qed

lemma length_write_at: "length (write_at buf off c) = max (length c) (off + length buf)"
  by (auto simp: write_at_def min_def max_def)

lemma write_works_region:
  "regions a ws b \<Longrightarrow> w \<in> set ws \<Longrightarrow>
    subslice (unat (pr_offset w)) (unat (pr_offset w) + length (pr_data w)) (blob_file (write_works ws bm)) = pr_data w \<and>
    b \<le> length (blob_file (write_works ws bm))"
proof (induction ws arbitrary: b rule: rev_induct)
  case (snoc v ws)
  from snoc.prems(1) obtain m where m: "regions a ws m" "unat (pr_offset v) = m" "b = m + length (pr_data v)"
    by (auto simp: regions_append)
  have f: "blob_file (write_works (ws @ [v]) bm) = write_at (pr_data v) m (blob_file (write_works ws bm))"
    using m(2) by (simp add: write_works_def blob_write_at_def)
  show ?case
  proof (cases "w \<in> set ws")
    case True
    with snoc.IH [OF m(1) True] regions_bounds [OF m(1)] show ?thesis
      unfolding f by (auto simp: subslice_write_at length_write_at m(3))
  next
    case False
    with snoc.prems(2) have "w = v" by simp
    then show ?thesis unfolding f using m by (auto simp: subslice_write_at length_write_at)
  qed
qed simp

lemma blob_read_written:
  assumes "regions a ws b" "b < 2 ^ 64" "w \<in> set ws"
  shows "blob_read_at (write_works ws bm) (pr_offset w) (pr_len w) = pr_data w"
proof -
  from regions_bounds [OF assms(1)] assms(3) have w: "unat (pr_offset w) + length (pr_data w) \<le> b"
    "unat (pr_len w) = length (pr_data w)" "pr_data w \<noteq> []" by auto
  then have "unat (pr_offset w) < 2 ^ 64 - 1" using assms(2) by (cases "pr_data w") auto
  then have "pr_offset w \<noteq> 0xFFFFFFFFFFFFFFFF" by auto
  with write_works_region [OF assms(1,3)] w(2) show ?thesis
    by (simp add: blob_read_at_def)
qed

lemma queue_snapshot_snoc:
  "queue_snapshot (map PutRaw ws @ [PutRaw v]) = (queue_snapshot (map PutRaw ws))(pr_offset v \<mapsto> pr_data v)"
  by (simp add: queue_snapshot_def)

lemma queue_snapshot_regions:
  "regions a ws b \<Longrightarrow> w \<in> set ws \<Longrightarrow> queue_snapshot (map PutRaw ws) (pr_offset w) = Some (pr_data w)"
proof (induction ws arbitrary: b rule: rev_induct)
  case (snoc v ws)
  from snoc.prems(1) obtain m where m: "regions a ws m" "unat (pr_offset v) = m"
    by (auto simp: regions_append)
  show ?case
  proof (cases "w \<in> set ws")
    case True
    with regions_bounds [OF m(1)] m(2) have "pr_offset w \<noteq> pr_offset v" by (cases "pr_data w") fastforce+
    with snoc.IH [OF m(1) True] show ?thesis by (simp add: queue_snapshot_snoc)
  next
    case False
    with snoc.prems(2) show ?thesis by (simp add: queue_snapshot_snoc)
  qed
qed simp

lemma queue_snapshot_outside:
  "regions a ws b \<Longrightarrow> unat off < a \<Longrightarrow> queue_snapshot (map PutRaw ws) off = None"
proof (induction ws arbitrary: b rule: rev_induct)
  case (snoc v ws)
  then obtain m where m: "regions a ws m" "unat (pr_offset v) = m" by (auto simp: regions_append)
  with snoc.IH [OF m(1)] snoc.prems(2) regions_bounds [OF m(1)] show ?case
    by (auto simp: queue_snapshot_snoc)
qed (simp add: queue_snapshot_def)

text \<open>The bytes of a work item are found whether its write has happened or is still queued.\<close>

lemma link_bytes:
  assumes "regions a works b" "b < 2 ^ 64" "w \<in> set works"
  shows "(case queue_snapshot (map PutRaw (drop n works)) (pr_offset w) of Some bytes \<Rightarrow> bytes
      | None \<Rightarrow> blob_read_at (write_works (take n works) bm) (pr_offset w) (pr_len w)) = pr_data w"
proof -
  from assms(1) have "regions a (take n works @ drop n works) b" by simp
  then obtain m where m: "regions a (take n works) m" "regions m (drop n works) b"
    unfolding regions_append by blast
  from assms(3) consider "w \<in> set (drop n works)" | "w \<in> set (take n works)"
    by (metis Un_iff append_take_drop_id set_append)
  then show ?thesis
  proof cases
    case 1
    then show ?thesis by (simp add: queue_snapshot_regions [OF m(2)])
  next
    case 2
    with regions_bounds [OF m(1)] have "unat (pr_offset w) < m" by (cases "pr_data w") fastforce+
    moreover have "m < 2 ^ 64" using regions_bounds [OF m(2)] assms(2) by simp
    ultimately show ?thesis
      by (simp add: queue_snapshot_outside [OF m(2)] blob_read_written [OF m(1) _ 2])
  qed
qed

text \<open>Which value of the result stands for which value of the document.\<close>

definition moved :: "nat \<Rightarrow> put_raw list \<Rightarrow> str \<times> value \<Rightarrow> str \<times> value \<Rightarrow> bool" where
  "moved threshold works kv kv' \<longleftrightarrow> fst kv = fst kv' \<and>
    (case movable threshold (snd kv) of
       None \<Rightarrow> snd kv' = snd kv
     | Some raw \<Rightarrow> \<exists>w \<in> set works. snd kv' = BlobLink (pr_offset w) (pr_len w) \<and> pr_data w = raw)"

definition moved_bytes :: "nat \<Rightarrow> fields \<Rightarrow> nat" where
  "moved_bytes threshold fs =
    sum_list (map (\<lambda>(k, v). if threshold < len_bytes v then len_bytes v else 0) fs)"

lemma raw_bytes_len: "raw_bytes v = Some raw \<Longrightarrow> len_bytes v = length raw"
  by (cases v) (auto simp: raw_bytes_def)

lemma raw_bytes_None: "raw_bytes v = None \<Longrightarrow> len_bytes v = 0"
  by (cases v) (auto simp: raw_bytes_def)

lemma extract_fields_spec:
  assumes "extract_fields col key time threshold fs bm = (works, fs', bm')"
    and "unat (blob_size bm) + moved_bytes threshold fs < 2 ^ 64" "\<forall>(k, v) \<in> set fs. len_bytes v < 2 ^ 32"
  shows "regions (unat (blob_size bm)) works (unat (blob_size bm) + moved_bytes threshold fs) \<and>
    unat (blob_size bm') = unat (blob_size bm) + moved_bytes threshold fs \<and> blob_file bm' = blob_file bm \<and>
    list_all2 (moved threshold works) fs fs'"
  using assms
proof (induction fs arbitrary: bm works fs' bm')
  case Nil
  then show ?case by (simp add: moved_bytes_def)
next
  case (Cons kv fs)
  obtain k v where [simp]: "kv = (k, v)" by (cases kv)
  show ?case
  proof (cases "movable threshold v")
    case None
    then have z: "moved_bytes threshold (kv # fs) = moved_bytes threshold fs"
      by (auto simp: moved_bytes_def movable_def split: if_splits dest: raw_bytes_None)
    from Cons.prems(1) None obtain fs1 where "extract_fields col key time threshold fs bm = (works, fs1, bm')"
      "fs' = (k, v) # fs1" by (auto simp: Let_def split: prod.splits)
    with Cons.IH [of bm works fs1 bm'] Cons.prems(2,3) None show ?thesis
      unfolding z by (simp add: moved_def)
  next
    case (Some raw)
    then have big: "threshold < len_bytes v" "raw_bytes v = Some raw" by (auto simp: movable_def split: if_splits)
    note len = raw_bytes_len [OF big(2)]
    define bm1 where "bm1 = snd (reserve_raw (of_nat (len_bytes v)) bm)"
    have z: "moved_bytes threshold ((k, v) # fs) = len_bytes v + moved_bytes threshold fs"
      using big(1) by (simp add: moved_bytes_def)
    have lv: "unat (of_nat (len_bytes v) :: u32) = len_bytes v"
      using Cons.prems(3) by (auto simp: unat_of_nat)
    have sz: "unat (blob_size bm1) = unat (blob_size bm) + len_bytes v" "blob_file bm1 = blob_file bm"
      using Cons.prems(2) lv unfolding bm1_def
      by (simp_all add: z reserve_raw_def unat_word_ariths unsigned_ucast_eq take_bit_nat_eq_self)
    from Cons.prems(1) Some obtain ws fs1 w where
      ext: "extract_fields col key time threshold fs bm1 = (ws, fs1, bm')" and
      w: "works = w # ws" "fs' = (k, BlobLink (pr_offset w) (pr_len w)) # fs1"
        "pr_offset w = blob_size bm" "pr_len w = of_nat (len_bytes v)" "pr_data w = raw"
      by (auto simp: Let_def bm1_def reserve_raw_def split: prod.splits)
    have "raw \<noteq> []" using big(1) len by auto
    moreover have ih: "regions (unat (blob_size bm1)) ws (unat (blob_size bm1) + moved_bytes threshold fs) \<and>
      unat (blob_size bm') = unat (blob_size bm1) + moved_bytes threshold fs \<and> blob_file bm' = blob_file bm1 \<and>
      list_all2 (moved threshold ws) fs fs1"
      using Cons.prems(2,3) by (intro Cons.IH [OF ext]) (simp_all add: z sz)
    moreover have "list_all2 (moved threshold works) fs fs1"
      using conjunct2 [OF conjunct2 [OF conjunct2 [OF ih]]]
      by (rule list_all2_mono) (auto simp: moved_def w(1) split: option.splits)
    moreover have "moved threshold works (k, v) (k, BlobLink (pr_offset w) (pr_len w))"
      using Some w by (auto simp: moved_def)
    ultimately show ?thesis
      using w len lv by (simp add: z sz add.assoc)
  qed
qed

lemma resolve_moved:
  assumes "regions a works b" "b < 2 ^ 64" "moved threshold works (k, v) (k', v')"
    "\<forall>off len. v = BlobLink off len \<longrightarrow> off = 0xFFFFFFFFFFFFFFFF"
    "threshold < len_bytes v \<longrightarrow> (case v of String s \<Rightarrow> utf8_valid s | Binary c \<Rightarrow> \<not> utf8_valid c | _ \<Rightarrow> True)"
  shows "k' = k \<and> resolve_value (write_works (take n works) bm) (queue_snapshot (map PutRaw (drop n works))) v' = v"
proof (cases "movable threshold v")
  case None
  with assms(3,4) show ?thesis by (cases v) (simp_all add: moved_def resolve_value_def)
next
  case (Some raw)
  with assms(3) obtain w where w: "w \<in> set works" "v' = BlobLink (pr_offset w) (pr_len w)" "pr_data w = raw" "k' = k"
    by (auto simp: moved_def)
  from regions_bounds [OF assms(1)] w(1) have "unat (pr_offset w) + length (pr_data w) \<le> b" "pr_data w \<noteq> []" by auto
  then have "unat (pr_offset w) < 2 ^ 64 - 1" using assms(2) by (cases "pr_data w") auto
  then have "pr_offset w \<noteq> 0xFFFFFFFFFFFFFFFF" by auto
  then have "resolve_value (write_works (take n works) bm) (queue_snapshot (map PutRaw (drop n works))) v' = inflate_bytes raw"
    using link_bytes [OF assms(1,2) w(1)] w(3) by (simp add: resolve_value_def w(2))
  with Some assms(5) w(4) show ?thesis
    by (cases v) (auto simp: movable_def raw_bytes_def inflate_bytes_def from_utf8_def split: if_splits)
qed

lemma regions_skeleton: "regions a (set_last_skeleton sk works) b = regions a works b"
  by (cases works rule: rev_cases) (simp_all add: set_last_skeleton_def regions_append)

lemma set_last_skeleton_item:
  "w \<in> set works \<Longrightarrow> \<exists>w' \<in> set (set_last_skeleton sk works).
    pr_offset w' = pr_offset w \<and> pr_len w' = pr_len w \<and> pr_data w' = pr_data w"
  by (cases works rule: rev_cases) (auto simp: set_last_skeleton_def)

lemma moved_skeleton:
  assumes "moved threshold works kv kv'"
  shows "moved threshold (set_last_skeleton sk works) kv kv'"
proof (cases "movable threshold (snd kv)")
  case None
  with assms show ?thesis by (simp add: moved_def)
next
  case (Some raw)
  with assms obtain w where w: "w \<in> set works" "snd kv' = BlobLink (pr_offset w) (pr_len w)" "pr_data w = raw"
    "fst kv = fst kv'" by (auto simp: moved_def)
  from set_last_skeleton_item [OF w(1)] obtain w' where "w' \<in> set (set_last_skeleton sk works)"
    "pr_offset w' = pr_offset w \<and> pr_len w' = pr_len w \<and> pr_data w' = pr_data w" by blast
  with w Some show ?thesis by (auto simp: moved_def intro!: bexI [of _ w'])
qed



text \<open>A large binary that happens to be valid UTF-8 is not restored: it comes back as a string.\<close>

lemma utf8_binary_becomes_string:
  "let d = \<lparr>doc_fields = [([97], Binary [104, 105])], doc_time = 0\<rparr>;
       (works, d', bm') = extract_blobs [99] [107] d 1 (blob_manager_new [] 0)
   in resolve_doc (Some (write_works works bm')) [] d' = Ok (d\<lparr>doc_fields := [([97], String [104, 105])]\<rparr>)"
proof -
  have "inflate_bytes [104, 105] = String [104, 105]"
    by (simp add: inflate_bytes_def from_utf8_def utf8_valid.simps)
  then show ?thesis
    by (simp add: extract_blobs_def set_last_skeleton_def reserve_raw_def movable_def raw_bytes_def Let_def
        blob_manager_new_def resolve_doc_Some resolve_value_def write_works_def blob_write_at_def write_at_def
        queue_snapshot_def blob_read_at_def subslice_def)
qed

end
