(* ===== verification/Compaction.thy ===== *)
theory Compaction
  imports Segment Blob
begin

text \<open>
  The pointers of the primary index (\<open>src/storage/engine.rs\<close>) and the rewriting of a set of entries into
  a fresh segment (\<open>src/storage/compaction.rs\<close>): each value is compressed when that makes it smaller,
  encrypted, appended, and addressed by a new pointer whose length carries the compression flag.
\<close>

datatype pointer =
    SegmentPtr u64 u64 u32
  | Inlined bytes
  | BlobPtr u64 u32
  | BlobPending hako_doc
  | BlobPendingData bytes bytes
  | Deleted i64

definition compress_value :: "zstd option \<Rightarrow> bool \<Rightarrow> bytes \<Rightarrow> bytes \<times> u32" where
  "compress_value Z use_compression raw =
    (case Z of
       None \<Rightarrow> (raw, 0)
     | Some z \<Rightarrow>
         if use_compression \<and> 2048 < length raw then
           (case zstd_encode z raw of
              None \<Rightarrow> (raw, 0)
            | Some compressed \<Rightarrow>
                if length compressed < length raw then (compressed, push_bit 31 1) else (raw, 0))
         else (raw, 0))"

fun compact_entries :: "prims \<Rightarrow> zstd option \<Rightarrow> u64 \<Rightarrow> bool \<Rightarrow> (str \<times> bytes) list \<Rightarrow> (str \<rightharpoonup> pointer) \<Rightarrow> segment \<Rightarrow>
    unit result \<times> (str \<rightharpoonup> pointer) \<times> segment" where
  "compact_entries P Z sid use_compression [] index s = (Ok (), index, s)"
| "compact_entries P Z sid use_compression ((key, raw) # entries) index s =
    (let (packed, compression_bit) = compress_value Z use_compression raw;
         (r, enc') = seal_value P (seg_enc s) packed;
         s1 = s\<lparr>seg_enc := enc'\<rparr>
     in case r of
          Ok payload \<Rightarrow>
            let stored_len = of_nat (length payload) OR compression_bit;
                (off, s2) = append_raw_with_len payload stored_len s1
            in compact_entries P Z sid use_compression entries (index(key \<mapsto> SegmentPtr sid off stored_len)) s2
        | Err e \<Rightarrow> (Err e, index, s1)
        | Panic \<Rightarrow> (Panic, index, s1))"

definition compact_segment :: "prims \<Rightarrow> zstd option \<Rightarrow> (str \<times> bytes) list \<Rightarrow> u64 \<Rightarrow> bool \<Rightarrow> segment \<Rightarrow>
    unit result \<times> (str \<rightharpoonup> pointer) \<times> segment" where
  "compact_segment P Z entries sid use_compression s =
    compact_entries P Z sid use_compression entries Map.empty (segment_truncate s)"

section \<open>Every entry is readable through its pointer\<close>

lemma stored_flag:
  assumes "n < 2 ^ 31"
  shows "stored_size (of_nat n OR push_bit 31 1) = n" "bit (of_nat n OR push_bit 31 1 :: u32) 31"
proof -
  have m: "(0x7FFFFFFF :: u32) = mask 31" by (simp add: mask_eq_exp_minus_1)
  have "(of_nat n OR push_bit 31 1 :: u32) AND mask 31 = of_nat n AND mask 31"
    by (rule bit_eqI) (auto simp only: bit_and_iff bit_or_iff bit_mask_iff bit_push_bit_iff bit_1_iff)
  then show "stored_size (of_nat n OR push_bit 31 1) = n"
    using stored_small(1) [OF assms] by (simp only: stored_size_def m)
  show "bit (of_nat n OR push_bit 31 1 :: u32) 31" by (simp add: bit_simps)
qed

lemma packed_readable:
  assumes "aead_ok P" "\<forall>z. Z = Some z \<longrightarrow> zstd_ok z" "length raw < 2 ^ 30"
    and "compress_value Z use_compression raw = (packed, flag)" "seal_value P enc packed = (Ok payload, enc')"
  shows "stored_size (of_nat (length payload) OR flag) = length payload"
    "open_record P Z enc (of_nat (length payload) OR flag) payload = Ok raw"
    "map_option ctx_key enc' = map_option ctx_key enc"
proof -
  note sealed = seal_value_ok [OF assms(1,5)]
  from assms(4) consider "packed = raw" "flag = 0"
    | z where "Z = Some z" "flag = push_bit 31 1" "zstd_encode z raw = Some packed" "length packed < length raw"
    by (auto simp: compress_value_def split: option.splits if_splits)
  note cases = this
  have len: "length payload < 2 ^ 31" using cases sealed(2) assms(3) by cases simp_all
  show "stored_size (of_nat (length payload) OR flag) = length payload"
    using cases stored_small(1) [OF len] stored_flag(1) [OF len] by cases simp_all
  show "open_record P Z enc (of_nat (length payload) OR flag) payload = Ok raw"
    using cases
  proof cases
    case 1
    with sealed(3) stored_small(2) [OF len] show ?thesis by simp
  next
    case 2
    have "\<not> bit (0 :: u32) 31" by simp
    from sealed(3) [OF this, of Z] have "(case enc of None \<Rightarrow> Ok payload | Some c \<Rightarrow> decrypt P c payload) = Ok packed"
      by (auto simp: open_record_def)
    moreover have "zstd_decode z packed = Some raw" using assms(2) 2 by (auto simp: zstd_ok_def)
    ultimately show ?thesis
      using 2 stored_flag(2) [OF len] by (simp add: open_record_def)
  qed
  show "map_option ctx_key enc' = map_option ctx_key enc" by (rule sealed(1))
qed

definition addressed :: "prims \<Rightarrow> zstd option \<Rightarrow> u64 \<Rightarrow> segment \<Rightarrow> (str \<rightharpoonup> pointer) \<Rightarrow> str \<Rightarrow> bytes \<Rightarrow> bool" where
  "addressed P Z sid s index k v \<longleftrightarrow>
    (\<exists>off l. index k = Some (SegmentPtr sid off l) \<and> placed P Z (seg_enc s) (seg_file s) off l v)"

lemma compact_entries_addressed:
  assumes "aead_ok P" "\<forall>z. Z = Some z \<longrightarrow> zstd_ok z"
    and "compact_entries P Z sid use_compression entries index s = (Ok (), index', s')"
    and "length (seg_file s') < 2 ^ 64" "\<forall>(k, v) \<in> set entries. length v < 2 ^ 30"
  shows "map_option ctx_key (seg_enc s') = map_option ctx_key (seg_enc s) \<and> seg_map s' = seg_map s \<and>
    seg_id s' = seg_id s \<and> (\<exists>suf. seg_file s' = seg_file s @ suf) \<and> current_size s' = current_size s \<and>
    (\<forall>k. map_of (rev entries) k = None \<longrightarrow> index' k = index k) \<and>
    (\<forall>k v. map_of (rev entries) k = Some v \<longrightarrow> addressed P Z sid s' index' k v)"
  using assms(3-)
proof (induction entries arbitrary: index s)
  case Nil
  then show ?case by auto
next
  case (Cons kv entries)
  obtain key raw where [simp]: "kv = (key, raw)" by (cases kv)
  obtain packed flag where c: "compress_value Z use_compression raw = (packed, flag)" by fastforce
  from Cons.prems(1) c obtain payload enc' where sv: "seal_value P (seg_enc s) packed = (Ok payload, enc')"
    by (auto simp: Let_def split: prod.splits result.splits)
  let ?l = "of_nat (length payload) OR flag :: u32" and ?off = "of_nat (length (seg_file s)) :: u64"
  let ?s = "s\<lparr>seg_enc := enc', seg_file := seg_file s @ u32_le ?l @ payload\<rparr>"
  have raw: "length raw < 2 ^ 30" using Cons.prems(3) by simp
  note packed = packed_readable [OF assms(1,2) raw c sv]
  have "compact_entries P Z sid use_compression entries (index(key \<mapsto> SegmentPtr sid ?off ?l)) ?s = (Ok (), index', s')"
    using Cons.prems(1) c sv by (simp add: append_raw_with_len_def Let_def)
  note ih = Cons.IH [OF this Cons.prems(2)]
  from ih Cons.prems(3) obtain suf where suf: "seg_file s' = seg_file s @ u32_le ?l @ payload @ suf"
    and enc: "map_option ctx_key (seg_enc s') = map_option ctx_key enc'" by auto
  have "placed P Z (seg_enc s) (seg_file s') ?off ?l raw"
    unfolding suf using packed(1,2) Cons.prems(2) suf by (intro placed_at) auto
  then have here: "placed P Z (seg_enc s') (seg_file s') ?off ?l raw"
    using placed_cong [of "seg_enc s'" "seg_enc s" P Z] enc packed(3) by simp
  have "addressed P Z sid s' index' k v" if "map_of (rev (kv # entries)) k = Some v" for k v
  proof (cases "map_of (rev entries) k")
    case None
    with that have "k = key" "v = raw" by (auto simp: map_add_def split: if_splits)
    with here None ih Cons.prems(3) show ?thesis by (auto simp: addressed_def)
  next
    case (Some v')
    with that have "v' = v" by (simp add: map_add_def)
    with Some ih Cons.prems(3) show ?thesis by auto
  qed
  moreover have "index' k = index k" if "map_of (rev (kv # entries)) k = None" for k
    using that ih Cons.prems(3) by (auto simp: map_add_def split: option.splits if_splits)
  ultimately show ?case using ih Cons.prems(3) packed(3) suf enc by auto
qed

text \<open>C40. Compaction keeps every value. When \<open>compact_segment\<close> succeeds on a fresh segment, its index holds
  exactly the keys of the entries, and reading a key's pointer from the new segment gives the value of the
  key's last entry back, whether it was compressed or not and encrypted or not.\<close>

theorem compact_segment_readable:
  assumes "aead_ok P" "\<forall>z. Z = Some z \<longrightarrow> zstd_ok z"
    and "compact_segment P Z entries sid use_compression s = (Ok (), index, s')"
    and "seg_map s = 0" "length (seg_file s') < 2 ^ 64" "\<forall>(k, v) \<in> set entries. length v < 2 ^ 30"
  shows "dom index = fst ` set entries \<and>
    (\<forall>k v. map_of (rev entries) k = Some v \<longrightarrow>
      (\<exists>off l. index k = Some (SegmentPtr sid off l) \<and> read_payload P Z s' off l = Ok v))"
proof -
  note a = compact_entries_addressed [OF assms(1,2) assms(3) [unfolded compact_segment_def] assms(5,6)]
  have m: "seg_map s' \<le> length (seg_file s')" using a assms(4) by (auto simp: segment_truncate_def)
  have "read_payload P Z s' off l = Ok v" if "placed P Z (seg_enc s') (seg_file s') off l v" for off l v
    using that m by (rule placed_read)
  then have some: "\<exists>off l. index k = Some (SegmentPtr sid off l) \<and> read_payload P Z s' off l = Ok v"
    if "map_of (rev entries) k = Some v" for k v
    using a that unfolding addressed_def by blast
  have none: "index k = None" if "map_of (rev entries) k = None" for k using a that by simp
  have "index k \<noteq> None \<longleftrightarrow> map_of (rev entries) k \<noteq> None" for k
    using some none by (cases "map_of (rev entries) k") fastforce+
  then have "dom index = dom (map_of (rev entries))" by (auto simp: dom_def)
  with some show ?thesis by (simp add: dom_map_of_conv_image_fst)
qed

definition sample_zstd :: "bytes \<Rightarrow> zstd" where
  "sample_zstd big =
    \<lparr>zstd_encode = (\<lambda>raw. if raw = big then Some [1] else None),
     zstd_decode = (\<lambda>c. if c = [1] then Some big else None)\<rparr>"

lemma sample_zstd_ok: "zstd_ok (sample_zstd big)"
  by (simp add: zstd_ok_def sample_zstd_def)

lemma sample_compact:
  assumes "length big = 3000"
  shows "\<exists>index s'. compact_segment sample_prims (Some (sample_zstd big)) [([97], big), ([98], [1, 2])] 5 True
    (segment_open [] 5 None) = (Ok (), index, s') \<and> length (seg_file s') < 20"
  using assms
  by (simp add: compact_segment_def segment_truncate_def segment_open_def compress_value_def sample_zstd_def
      seal_value_def append_raw_with_len_def Let_def)

theorem compact_segment_readable_witness:
  "\<exists>index s' off l. compact_segment sample_prims (Some (sample_zstd (replicate 3000 7)))
     [([97], replicate 3000 7), ([98], [1, 2])] 5 True (segment_open [] 5 None) = (Ok (), index, s') \<and>
     index [97] = Some (SegmentPtr 5 off l) \<and>
     read_payload sample_prims (Some (sample_zstd (replicate 3000 7))) s' off l = Ok (replicate 3000 7)"
proof -
  define big :: bytes where "big = replicate 3000 7"
  have len: "length big = 3000" by (simp add: big_def)
  from sample_compact [OF len] obtain index s' where
    c: "compact_segment sample_prims (Some (sample_zstd big)) [([97], big), ([98], [1, 2])] 5 True
      (segment_open [] 5 None) = (Ok (), index, s')" and l: "length (seg_file s') < 20" by blast
  have "\<forall>k v. map_of (rev [([97], big), ([98], [1, 2])]) k = Some v \<longrightarrow>
      (\<exists>off l. index k = Some (SegmentPtr 5 off l) \<and> read_payload sample_prims (Some (sample_zstd big)) s' off l = Ok v)"
    using compact_segment_readable [OF sample_prims_ok _ c] l len
    by (simp add: sample_zstd_ok segment_open_def)
  from spec [OF spec [OF this, of "[97]"], of big] c show ?thesis unfolding big_def by simp
qed

end
