(* ===== verification/Sorted_View.thy ===== *)
theory Sorted_View
  imports Prelude
begin

text \<open>
  The sorted key view of \<open>src/storage/engine.rs\<close> as list operations: single insertions and removals by
  binary search, the three strategies that resolve a batch of changed keys, and the cursor ranges in
  both directions. The locale \<open>ordered_set\<close> is the contract of a duplicate-free ordered container;
  what a batch of membership updates does is proved there once.
\<close>

section \<open>Interface\<close>

locale ordered_set =
  fixes elems :: "'s \<Rightarrow> 'a set"
    and ok :: "'s \<Rightarrow> bool"
    and ins :: "'a \<Rightarrow> 's \<Rightarrow> 's"
    and del :: "'a \<Rightarrow> 's \<Rightarrow> 's"
  assumes ok_ins: "ok s \<Longrightarrow> ok (ins x s)"
    and ok_del: "ok s \<Longrightarrow> ok (del x s)"
    and elems_ins: "ok s \<Longrightarrow> elems (ins x s) = insert x (elems s)"
    and elems_del: "ok s \<Longrightarrow> elems (del x s) = elems s - {x}"
begin

definition settle :: "('a \<Rightarrow> bool) \<Rightarrow> 'a list \<Rightarrow> 's \<Rightarrow> 's" where
  "settle live xs s = fold (\<lambda>x s. if live x then ins x s else del x s) xs s"

lemma settle_spec:
  "ok s \<Longrightarrow> ok (settle live xs s) \<and> elems (settle live xs s) = (elems s - set xs) \<union> {x \<in> set xs. live x}"
proof (induction xs arbitrary: s)
  case (Cons x xs)
  let ?s = "if live x then ins x s else del x s"
  have "ok ?s" "elems ?s = (if live x then insert x (elems s) else elems s - {x})"
    using Cons.prems by (auto simp: ok_ins ok_del elems_ins elems_del)
  with Cons.IH [of ?s] show ?case by (auto simp: settle_def)
qed (simp add: settle_def)

end

section \<open>Single keys\<close>

definition view_search :: "str \<Rightarrow> str list \<Rightarrow> nat + nat" where
  "view_search key = binary_search_by (\<lambda>k. cmp k key)"

definition view_contains :: "str \<Rightarrow> str list \<Rightarrow> bool" where
  "view_contains key keys = (case view_search key keys of Inr _ \<Rightarrow> True | Inl _ \<Rightarrow> False)"

definition view_insert :: "str \<Rightarrow> str list \<Rightarrow> str list" where
  "view_insert key keys =
    (case view_search key keys of
       Inr _ \<Rightarrow> keys
     | Inl pos \<Rightarrow> take pos keys @ key # drop pos keys)"

definition view_remove :: "str \<Rightarrow> str list \<Rightarrow> str list" where
  "view_remove key keys =
    (case view_search key keys of
       Inr pos \<Rightarrow> take pos keys @ drop (Suc pos) keys
     | Inl _ \<Rightarrow> keys)"

abbreviation ascending :: "str list \<Rightarrow> bool" where
  "ascending \<equiv> sorted_wrt (<)"

lemma probe_ascending: "ascending keys \<Longrightarrow> probe_sorted (\<lambda>k. cmp k key) keys"
  unfolding probe_sorted_def by (rule sorted_wrt_mono_rel) (auto dest: cmp_probe)

lemma view_search_Inr:
  "ascending keys \<Longrightarrow> view_search key keys = Inr p \<Longrightarrow> p < length keys \<and> keys ! p = key"
  using binary_search_Inr [OF probe_ascending] by (fastforce simp: view_search_def)

lemma view_search_Inl:
  assumes "ascending keys" "view_search key keys = Inl p"
  shows "p \<le> length keys" "\<forall>k \<in> set (take p keys). k < key" "\<forall>k \<in> set (drop p keys). key < k"
proof -
  note b = binary_search_Inl [OF probe_ascending [OF assms(1)] assms(2) [unfolded view_search_def]]
  show "p \<le> length keys" using b by simp
  show "\<forall>k \<in> set (take p keys). k < key" using b by (auto simp: in_set_conv_nth)
  show "\<forall>k \<in> set (drop p keys). key < k"
  proof
    fix k assume "k \<in> set (drop p keys)"
    then obtain i where "i < length keys - p" "k = keys ! (p + i)" by (auto simp: in_set_conv_nth)
    with b have "cmp k key = Greater" by simp
    then show "key < k" by simp
  qed
qed

lemma view_search_split:
  assumes "ascending keys"
  obtains (found) us vs where "view_search key keys = Inr (length us)" "keys = us @ key # vs"
      "\<forall>k \<in> set us. k < key" "\<forall>k \<in> set vs. key < k"
    | (absent) us vs where "view_search key keys = Inl (length us)" "keys = us @ vs"
      "\<forall>k \<in> set us. k < key" "\<forall>k \<in> set vs. key < k"
proof (cases "view_search key keys")
  case (Inl p)
  from view_search_Inl [OF assms Inl] Inl absent [of "take p keys" "drop p keys"] show ?thesis
    by (simp add: min_absorb2)
next
  case (Inr p)
  from view_search_Inr [OF assms Inr] have p: "p < length keys" "keys ! p = key" by auto
  then have "keys = take p keys @ key # drop (Suc p) keys" using id_take_nth_drop [OF p(1)] by simp
  with found [of "take p keys" "drop (Suc p) keys"] Inr p assms show ?thesis
    by (metis length_take less_imp_le min_absorb2 sorted_wrt_append sorted_wrt.simps(2) list.set_intros(1))
qed

lemma view_contains_iff: "ascending keys \<Longrightarrow> view_contains key keys \<longleftrightarrow> key \<in> set keys"
  by (erule view_search_split [of _ key]) (auto simp: view_contains_def)

lemma ascending_mid:
  "ascending (us @ x # vs) \<longleftrightarrow> ascending us \<and> ascending vs \<and> (\<forall>k \<in> set us. k < x) \<and> (\<forall>k \<in> set vs. x < k)"
  by (auto simp: sorted_wrt_append intro: less_trans)

lemma view_insert_spec:
  assumes "ascending keys"
  shows "ascending (view_insert key keys) \<and> set (view_insert key keys) = insert key (set keys)"
  using assms
proof (cases rule: view_search_split [of _ key])
  case (found us vs)
  then show ?thesis using assms by (auto simp: view_insert_def)
next
  case (absent us vs)
  then show ?thesis using assms by (auto simp: view_insert_def ascending_mid sorted_wrt_append)
qed

lemma view_remove_spec:
  assumes "ascending keys"
  shows "ascending (view_remove key keys) \<and> set (view_remove key keys) = set keys - {key}"
  using assms
proof (cases rule: view_search_split [of _ key])
  case (found us vs)
  then show ?thesis using assms by (auto simp: view_remove_def sorted_wrt_append)
next
  case (absent us vs)
  then show ?thesis using assms by (auto simp: view_remove_def)
qed

interpretation view: ordered_set set ascending view_insert view_remove
  by unfold_locales (simp_all add: view_insert_spec view_remove_spec)

section \<open>Batches\<close>

text \<open>\<open>flush_pending_sorted\<close>: the direct path per key, and the merge through the second buffer.\<close>

fun merge_view :: "(str \<Rightarrow> bool) \<Rightarrow> str list \<Rightarrow> str list \<Rightarrow> str list" where
  "merge_view live [] pending = filter live pending"
| "merge_view live (k # old) pending =
    filter live (takeWhile (\<lambda>p. p < k) pending) @
    (case dropWhile (\<lambda>p. p < k) pending of
       [] \<Rightarrow> k # merge_view live old []
     | p # rest \<Rightarrow>
         if p = k then (if live k then [k] else []) @ merge_view live old rest
         else k # merge_view live old (p # rest))"

definition settle_small :: "(str \<Rightarrow> bool) \<Rightarrow> str list \<Rightarrow> str list \<Rightarrow> str list" where
  "settle_small live pending keys =
    fold (\<lambda>k keys. if live k then view_insert k keys else view_remove k keys) pending keys"

definition flush_pending :: "(str \<Rightarrow> bool) \<Rightarrow> str list \<Rightarrow> str list \<Rightarrow> str list" where
  "flush_pending live pending keys =
    (if pending = [] then keys
     else let pending' = remdups_adj (sort pending);
              tail_ok = (keys = [] \<or> last keys < hd pending')
          in if tail_ok \<and> list_all live pending' then keys @ pending'
             else if length pending' \<le> 32 then settle_small live pending' keys
             else merge_view live keys pending')"

lemma ascending_remdups: "sorted (xs :: str list) \<Longrightarrow> ascending (remdups_adj xs)"
proof (induction xs rule: remdups_adj.induct)
  case (3 x y xs)
  show ?case
  proof (cases "x = y")
    case False
    with 3 have "\<forall>z \<in> set (remdups_adj (y # xs)). x < z" by fastforce
    with False 3 show ?thesis by simp
  qed (use 3 in simp)
qed simp_all

lemma merge_view_spec:
  assumes "ascending old" "ascending pending"
  shows "ascending (merge_view live old pending) \<and>
    set (merge_view live old pending) = (set old - set pending) \<union> {p \<in> set pending. live p}"
  using assms
proof (induction old arbitrary: pending)
  case Nil
  then show ?case by (auto simp: sorted_wrt_filter)
next
  case (Cons k old)
  define us where "us = takeWhile (\<lambda>p. p < k) pending"
  define vs where "vs = dropWhile (\<lambda>p. p < k) pending"
  have split: "pending = us @ vs" by (simp add: us_def vs_def)
  have us: "\<forall>p \<in> set us. p < k" by (auto simp: us_def dest: set_takeWhileD)
  have asc: "ascending us" "ascending vs" "ascending (filter live us)"
    using Cons.prems(2) by (auto simp: split sorted_wrt_append sorted_wrt_filter)
  have old: "ascending old" "\<forall>x \<in> set old. k < x" using Cons.prems(1) by auto
  have ih: "ascending (merge_view live old ws)"
    "set (merge_view live old ws) = (set old - set ws) \<union> {p \<in> set ws. live p}" if "ascending ws" for ws
    using Cons.IH [OF old(1) that] by auto
  have disj: "set us \<inter> set old = {}" "k \<notin> set us" "k \<notin> set old" using us old(2) by fastforce+
  note step = merge_view.simps(2) [of live k old pending, folded us_def vs_def]
  show ?case
  proof (cases vs)
    case Nil
    then have eq: "merge_view live (k # old) pending = filter live us @ k # merge_view live old []"
      unfolding step by simp
    show ?thesis
      unfolding eq ascending_mid using ih [of "[]"] old us asc disj Nil by (auto simp: split)
  next
    case (Cons p rest)
    have pk: "\<not> p < k" using Cons hd_dropWhile [of "\<lambda>p. p < k" pending] by (auto simp: vs_def)
    have rest: "ascending rest" "\<forall>x \<in> set rest. p < x" using asc(2) Cons by auto
    show ?thesis
    proof (cases "p = k")
      case True
      then have eq: "merge_view live (k # old) pending =
        (if live k then filter live us @ k # merge_view live old rest else filter live us @ merge_view live old rest)"
        unfolding step Cons by simp
      have m: "\<forall>x \<in> set (merge_view live old rest). k < x"
        using ih(2) [OF rest(1)] old(2) rest(2) True by auto
      then have "ascending (filter live us @ merge_view live old rest)"
        using asc(3) ih(1) [OF rest(1)] us by (auto simp: sorted_wrt_append intro: less_trans)
      moreover have "k \<notin> set rest" using rest(2) True by auto
      ultimately show ?thesis
        unfolding eq using ih [OF rest(1)] m asc(3) us disj True by (auto simp: split Cons ascending_mid)
    next
      case False
      then have eq: "merge_view live (k # old) pending = filter live us @ k # merge_view live old vs"
        unfolding step Cons by simp
      have "k < p" using pk False by simp
      then have above: "\<forall>x \<in> set vs. k < x" using rest(2) Cons by (auto intro: less_trans)
      then have "k \<notin> set vs" by auto
      with above show ?thesis
        unfolding eq ascending_mid using ih [OF asc(2)] old us asc disj by (auto simp: split)
    qed
  qed
qed

lemma ascending_last: "ascending keys \<Longrightarrow> x \<in> set keys \<Longrightarrow> x \<le> last keys"
  by (cases keys rule: rev_cases) (auto simp: sorted_wrt_append)

text \<open>
  Whatever strategy is taken, the batch leaves the keys that are live, provided every key whose membership
  has changed is pending.
\<close>

lemma flush_pending_spec:
  assumes "ascending keys" "\<forall>k. live k \<noteq> (k \<in> set keys) \<longrightarrow> k \<in> set pending"
  shows "ascending (flush_pending live pending keys) \<and> set (flush_pending live pending keys) = {k. live k}"
proof (cases "pending = []")
  case True
  with assms show ?thesis by (auto simp: flush_pending_def)
next
  case False
  define ps where "ps = remdups_adj (sort pending)"
  have ps: "ascending ps" "set ps = set pending" "ps \<noteq> []"
    using False length_sort [of "\<lambda>k. k" pending] by (auto simp: ps_def ascending_remdups simp del: length_sort)
  have goal: "(set keys - set ps) \<union> {p \<in> set ps. live p} = {k. live k}" using assms(2) ps(2) by auto
  have eq: "flush_pending live pending keys =
    (if (keys = [] \<or> last keys < hd ps) \<and> list_all live ps then keys @ ps
     else if length ps \<le> 32 then settle_small live ps keys else merge_view live keys ps)"
    using False by (simp add: flush_pending_def ps_def Let_def)
  have small: "settle_small live ps keys = view.settle live ps keys"
    by (simp add: settle_small_def view.settle_def)
  show ?thesis
  proof (cases "(keys = [] \<or> last keys < hd ps) \<and> list_all live ps")
    case True
    have "x < y" if "x \<in> set keys" "y \<in> set ps" for x y
    proof -
      from ascending_last [OF assms(1) that(1)] have "x \<le> last keys" .
      moreover have "hd ps \<le> y" using that(2) ps(1,3) by (cases ps) auto
      ultimately show ?thesis using True that(1) by auto
    qed
    then have "ascending (keys @ ps)" "set keys \<inter> set ps = {}"
      using assms(1) ps(1) by (auto simp: sorted_wrt_append)
    with True goal show ?thesis unfolding eq by (auto simp: list_all_iff)
  next
    case False
    then show ?thesis
      using view.settle_spec [OF assms(1), of live ps] merge_view_spec [OF assms(1) ps(1), of live] goal
      unfolding eq small if_not_P [OF False] by simp
  qed
qed

section \<open>Cursor ranges\<close>

definition sorted_key_range :: "str list \<Rightarrow> str option \<Rightarrow> bool \<Rightarrow> nat option \<Rightarrow> nat option \<Rightarrow> (nat \<times> nat) option" where
  "sorted_key_range keys start start_exclusive off limit =
    (let total = length keys;
         skip = (case off of None \<Rightarrow> 0 | Some n \<Rightarrow> n)
     in if total = 0 then Some (0, 0)
        else let start_pos = (case start of
                     None \<Rightarrow> skip
                   | Some s \<Rightarrow>
                       (case view_search s keys of
                          Inr p \<Rightarrow> p + of_bool start_exclusive + skip
                        | Inl pos \<Rightarrow> pos + skip));
                 end_pos = (case limit of None \<Rightarrow> total | Some l \<Rightarrow> min (start_pos + l) total)
             in if total \<le> start_pos then Some (total, total) else Some (start_pos, end_pos))"

definition sorted_key_range_reverse :: "str list \<Rightarrow> str option \<Rightarrow> bool \<Rightarrow> nat option \<Rightarrow> nat option \<Rightarrow> (nat \<times> nat) option" where
  "sorted_key_range_reverse keys start start_exclusive off limit =
    (let total = length keys in
     if total = 0 then Some (0, 0)
     else let raw_end = (case start of
                  None \<Rightarrow> total
                | Some s \<Rightarrow>
                    (case view_search s keys of
                       Inr p \<Rightarrow> p + of_bool (\<not> start_exclusive)
                     | Inl pos \<Rightarrow> pos));
              end_pos = raw_end - (case off of None \<Rightarrow> 0 | Some n \<Rightarrow> n);
              s = (case limit of None \<Rightarrow> 0 | Some l \<Rightarrow> end_pos - l)
          in Some (min s end_pos, end_pos))"

text \<open>What the ranges are for: the keys behind (or before) an anchor, without the skipped ones, cut off at
  the limit.\<close>

definition page :: "nat option \<Rightarrow> nat option \<Rightarrow> 'a list \<Rightarrow> 'a list" where
  "page off limit xs =
    (let ys = drop (case off of None \<Rightarrow> 0 | Some n \<Rightarrow> n) xs in case limit of None \<Rightarrow> ys | Some l \<Rightarrow> take l ys)"

definition from_anchor :: "str option \<Rightarrow> bool \<Rightarrow> str list \<Rightarrow> str list" where
  "from_anchor start excl =
    filter (\<lambda>k. case start of None \<Rightarrow> True | Some s \<Rightarrow> if excl then s < k else s \<le> k)"

definition upto_anchor :: "str option \<Rightarrow> bool \<Rightarrow> str list \<Rightarrow> str list" where
  "upto_anchor start excl =
    filter (\<lambda>k. case start of None \<Rightarrow> True | Some s \<Rightarrow> if excl then k < s else k \<le> s)"

lemma filter_none: "\<forall>x \<in> set xs. \<not> P x \<Longrightarrow> filter P xs = []"
  by (induction xs) auto

lemma from_anchor_drop:
  assumes "ascending keys"
  shows "from_anchor (Some s) excl keys =
    drop (case view_search s keys of Inr p \<Rightarrow> p + of_bool excl | Inl pos \<Rightarrow> pos) keys"
  using assms
proof (cases rule: view_search_split [of _ s])
  case (found us vs)
  then show ?thesis
    by (auto simp: from_anchor_def filter_id_conv intro!: filter_none) (auto simp: not_le not_less less_imp_le)
next
  case (absent us vs)
  then show ?thesis
    by (auto simp: from_anchor_def filter_id_conv intro!: filter_none) (auto simp: not_le not_less less_imp_le)
qed

lemma upto_anchor_take:
  assumes "ascending keys"
  shows "upto_anchor (Some s) excl keys =
    take (case view_search s keys of Inr p \<Rightarrow> p + of_bool (\<not> excl) | Inl pos \<Rightarrow> pos) keys"
  using assms
proof (cases rule: view_search_split [of _ s])
  case (found us vs)
  then show ?thesis
    by (auto simp: upto_anchor_def filter_id_conv intro!: filter_none) (auto simp: not_le not_less less_imp_le)
next
  case (absent us vs)
  then show ?thesis
    by (auto simp: upto_anchor_def filter_id_conv intro!: filter_none) (auto simp: not_le not_less less_imp_le)
qed

lemma slice_page:
  "a \<le> length xs \<Longrightarrow> b = (case limit of None \<Rightarrow> length xs | Some l \<Rightarrow> min (a + l) (length xs)) \<Longrightarrow>
    take (b - a) (drop a xs) = (case limit of None \<Rightarrow> drop a xs | Some l \<Rightarrow> take l (drop a xs))"
  by (cases limit) (auto simp: min_def)

lemma sorted_key_range_slice:
  assumes "ascending keys"
  shows "\<exists>a b. sorted_key_range keys start excl off limit = Some (a, b) \<and> a \<le> b \<and> b \<le> length keys \<and>
    take (b - a) (drop a keys) = page off limit (from_anchor start excl keys)"
proof -
  define skip where "skip = (case off of None \<Rightarrow> 0 | Some n \<Rightarrow> n)"
  define base where "base = (case start of None \<Rightarrow> 0 | Some s \<Rightarrow>
    (case view_search s keys of Inr p \<Rightarrow> p + of_bool excl | Inl pos \<Rightarrow> pos))"
  have anchor: "from_anchor start excl keys = drop base keys"
    using from_anchor_drop [OF assms] by (cases start) (auto simp: base_def from_anchor_def)
  have eq: "sorted_key_range keys start excl off limit =
    (if keys = [] then Some (0, 0) else if length keys \<le> base + skip then Some (length keys, length keys)
     else Some (base + skip, case limit of None \<Rightarrow> length keys | Some l \<Rightarrow> min (base + skip + l) (length keys)))"
    by (auto simp: sorted_key_range_def Let_def base_def skip_def split: option.splits sum.splits)
  have pg: "page off limit (drop base keys) =
    (case limit of None \<Rightarrow> drop (base + skip) keys | Some l \<Rightarrow> take l (drop (base + skip) keys))"
    by (cases limit) (simp_all add: page_def skip_def [symmetric] add.commute Let_def)
  show ?thesis
    unfolding eq anchor pg
    using slice_page [of "base + skip" keys _ limit] by (cases limit) auto
qed

lemma sorted_key_range_reverse_slice:
  assumes "ascending keys"
  shows "\<exists>a b. sorted_key_range_reverse keys start excl off limit = Some (a, b) \<and> a \<le> b \<and> b \<le> length keys \<and>
    rev (take (b - a) (drop a keys)) = page off limit (rev (upto_anchor start excl keys))"
proof -
  define skip where "skip = (case off of None \<Rightarrow> 0 | Some n \<Rightarrow> n)"
  define base where "base = (case start of None \<Rightarrow> length keys | Some s \<Rightarrow>
    (case view_search s keys of Inr p \<Rightarrow> p + of_bool (\<not> excl) | Inl pos \<Rightarrow> pos))"
  define b where "b = base - skip"
  define a where "a = (case limit of None \<Rightarrow> 0 | Some l \<Rightarrow> b - l)"
  have anchor: "upto_anchor start excl keys = take base keys"
    using upto_anchor_take [OF assms] by (cases start) (auto simp: base_def upto_anchor_def)
  have base: "base \<le> length keys"
    unfolding base_def
    using view_search_Inr [OF assms] view_search_Inl(1) [OF assms]
    by (fastforce simp: Suc_le_eq dest: less_imp_le split: option.splits sum.splits)
  have ab: "a \<le> b" "b \<le> length keys" using base by (auto simp: a_def b_def split: option.splits)
  have eq: "sorted_key_range_reverse keys start excl off limit = (if keys = [] then Some (0, 0) else Some (a, b))"
    unfolding sorted_key_range_reverse_def Let_def base_def [symmetric] skip_def [symmetric] b_def [symmetric]
      a_def [symmetric] using ab by (simp add: min_absorb1)
  have "page off limit (rev (take base keys)) = rev (take (b - a) (drop a keys))"
    using base ab
    by (cases limit) (simp_all add: page_def Let_def skip_def [symmetric] drop_rev take_rev min_absorb2 b_def a_def drop_take)
  with ab base show ?thesis unfolding eq anchor by auto
qed

end
