(* ===== verification/Wal_Codec.thy ===== *)
theory Wal_Codec
  imports Crypto Framing
begin

text \<open>
  The record format of the write-ahead log, \<open>src/storage/wal.rs\<close>: the operations, their payload
  encoding (\<open>encode_into\<close>) and decoding (\<open>decode\<close>), the framing of a payload by its length and
  checksum, and the selection of the operations of committed transactions. \<open>decode\<close> indexes the
  payload, so a payload that is too short panics; only the key and value lengths are checked.
\<close>

section \<open>Operations\<close>

datatype wal_op =
    BeginTx u64
  | Put str u64 u64 u32
  | Delete str i64
  | CommitTx u64
  | PutInlined str bytes
  | PutBlob str u64 u32

fun get_key :: "wal_op \<Rightarrow> str" where
  "get_key (Put key _ _ _) = key"
| "get_key (Delete key _) = key"
| "get_key (PutInlined key _) = key"
| "get_key (PutBlob key _ _) = key"
| "get_key (BeginTx _) = []"
| "get_key (CommitTx _) = []"

definition encode_key :: "str \<Rightarrow> bytes" where
  "encode_key key = u16_le (of_nat (length key)) @ key"

fun encode_op :: "wal_op \<Rightarrow> bytes" where
  "encode_op (BeginTx tx_id) = [0] @ u64_le tx_id"
| "encode_op (Put key segment_id segment_offset len) =
    [1] @ encode_key key @ u64_le segment_id @ u64_le segment_offset @ u32_le len"
| "encode_op (Delete key timestamp) = [2] @ encode_key key @ u64_le timestamp"
| "encode_op (CommitTx tx_id) = [3] @ u64_le tx_id"
| "encode_op (PutInlined key val) =
    [4] @ encode_key key @ u32_le (of_nat (length val)) @ val"
| "encode_op (PutBlob key offset len) = [5] @ encode_key key @ u64_le offset @ u32_le len"

text \<open>The key at position 1, shared by four tags: the key and the position behind it.\<close>

definition decode_key :: "bytes \<Rightarrow> str \<Rightarrow> str \<Rightarrow> (str \<times> nat) result" where
  "decode_key payload overrun bad =
    and_then (index_range payload 1 3) (\<lambda>h.
      let key_len = unat (le_u16 h) in
      if length payload < 3 + key_len then Err (Corrupt overrun)
      else and_then (index_range payload 3 (3 + key_len)) (\<lambda>k.
        case from_utf8 k of
          None \<Rightarrow> Err (Corrupt bad)
        | Some key \<Rightarrow> Ok (key, 3 + key_len)))"

definition decode_op :: "bytes \<Rightarrow> wal_op result" where
  "decode_op payload =
    (case get_at payload 0 of
       None \<Rightarrow> Err (Corrupt (ascii ''empty wal record''))
     | Some tag \<Rightarrow>
         if tag = 0 then
           and_then (index_range payload 1 9) (\<lambda>b. Ok (BeginTx (le_u64 b)))
         else if tag = 1 then
           and_then (decode_key payload (ascii ''wal put key overruns record'') (ascii ''bad wal key''))
             (\<lambda>(key, pos).
           and_then (index_range payload pos (pos + 8)) (\<lambda>sid.
           and_then (index_range payload (pos + 8) (pos + 16)) (\<lambda>off.
           and_then (index_range payload (pos + 16) (pos + 20)) (\<lambda>len.
             Ok (Put key (le_u64 sid) (le_u64 off) (le_u32 len))))))
         else if tag = 2 then
           and_then (decode_key payload (ascii ''wal delete key overruns record'') (ascii ''bad wal key''))
             (\<lambda>(key, pos).
           and_then (index_range payload pos (pos + 8)) (\<lambda>ts. Ok (Delete key (le_u64 ts))))
         else if tag = 3 then
           and_then (index_range payload 1 9) (\<lambda>b. Ok (CommitTx (le_u64 b)))
         else if tag = 4 then
           and_then (decode_key payload (ascii ''wal putinlined key overruns record'') (ascii ''bad key''))
             (\<lambda>(key, pos).
           and_then (index_range payload pos (pos + 4)) (\<lambda>l.
             let val_len = unat (le_u32 l) in
             if length payload < pos + 4 + val_len
             then Err (Corrupt (ascii ''wal putinlined val overruns record''))
             else and_then (index_range payload (pos + 4) (pos + 4 + val_len)) (\<lambda>v.
               Ok (PutInlined key v))))
         else if tag = 5 then
           and_then (decode_key payload (ascii ''wal putblob key overruns record'') (ascii ''bad key''))
             (\<lambda>(key, pos).
           and_then (index_range payload pos (pos + 8)) (\<lambda>off.
           and_then (index_range payload (pos + 8) (pos + 12)) (\<lambda>len.
             Ok (PutBlob key (le_u64 off) (le_u32 len)))))
         else Err (Corrupt (ascii ''unknown wal op'')))"

text \<open>The operations the format can hold: keys of less than 64 KiB, values of less than 2 GiB.\<close>

definition wal_key_ok :: "str \<Rightarrow> bool" where
  "wal_key_ok key \<longleftrightarrow> length key < 65536 \<and> utf8_valid key"

fun op_ok :: "wal_op \<Rightarrow> bool" where
  "op_ok (Put key _ _ _) = wal_key_ok key"
| "op_ok (Delete key _) = wal_key_ok key"
| "op_ok (PutInlined key val) = (wal_key_ok key \<and> length val < 2 ^ 31)"
| "op_ok (PutBlob key _ _) = wal_key_ok key"
| "op_ok _ = True"

section \<open>Frames\<close>

definition frame :: "prims \<Rightarrow> bytes \<Rightarrow> bytes" where
  "frame P payload = u32_le (of_nat (length payload)) @ u32_le (crc32 P payload) @ payload"

definition is_zero_header :: "bytes \<Rightarrow> bool" where
  "is_zero_header header \<longleftrightarrow> list_all (\<lambda>b. b = 0) header"

text \<open>
  One turn of the read loops: the header of eight bytes, the padding test, the payload and its
  checksum. \<open>None\<close> is a \<open>break\<close>; \<open>padding_at\<close> tells the break on padding from the others.
\<close>

definition frame_step :: "prims \<Rightarrow> bytes \<Rightarrow> nat \<Rightarrow> (bytes \<times> nat) option" where
  "frame_step P bs pos =
    (case get_range bs pos (pos + 8) of
       None \<Rightarrow> None
     | Some header \<Rightarrow>
         let len = unat (le_u32 (take 4 header)); expected_crc = le_u32 (drop 4 header) in
         if is_zero_header header then None
         else (case get_range bs (pos + 8) (pos + 8 + len) of
             None \<Rightarrow> None
           | Some payload \<Rightarrow>
               if crc32 P payload \<noteq> expected_crc then None
               else Some (payload, pos + 8 + len)))"

definition padding_at :: "bytes \<Rightarrow> nat \<Rightarrow> bool" where
  "padding_at bs pos =
    (case get_range bs pos (pos + 8) of None \<Rightarrow> False | Some header \<Rightarrow> is_zero_header header)"

definition payload_ok :: "bytes \<Rightarrow> bool" where
  "payload_ok payload \<longleftrightarrow> payload \<noteq> [] \<and> length payload < 2 ^ 32"

section \<open>Committed operations\<close>

fun filter_committed_loop ::
  "wal_op list \<Rightarrow> u64 option \<Rightarrow> wal_op list \<Rightarrow> wal_op list \<Rightarrow> wal_op list" where
  "filter_committed_loop output current_tx tx_ops [] = output"
| "filter_committed_loop output current_tx tx_ops (op # raw_ops) =
    (case op of
       BeginTx tx_id \<Rightarrow> filter_committed_loop output (Some tx_id) [] raw_ops
     | CommitTx tx_id \<Rightarrow>
         filter_committed_loop (if current_tx = Some tx_id then output @ tx_ops else output)
           None [] raw_ops
     | _ \<Rightarrow>
         if current_tx \<noteq> None
         then filter_committed_loop output current_tx (tx_ops @ [op]) raw_ops
         else filter_committed_loop (output @ [op]) current_tx tx_ops raw_ops)"

definition filter_committed_ops :: "wal_op list \<Rightarrow> wal_op list" where
  "filter_committed_ops raw_ops = filter_committed_loop [] None [] raw_ops"

section \<open>Round trip of an operation\<close>

lemma index_range_codec:
  "a = length pre \<Longrightarrow> b = length pre + length s \<Longrightarrow> index_range (pre @ s @ rest) a b = Ok s"
  by (simp add: codec_simps)

lemma length_encode_key [simp]: "length (encode_key key) = 2 + length key"
  by (simp add: encode_key_def)

lemma decode_key_encode:
  assumes "wal_key_ok key"
  shows "decode_key (t # encode_key key @ rest) o1 o2 = Ok (key, 3 + length key)"
proof -
  have l: "unat (of_nat (length key) :: u16) = length key"
    using assms by (simp add: wal_key_ok_def unat_of_nat)
  have "index_range ([t] @ u16_le (of_nat (length key)) @ (key @ rest)) 1 3 = Ok (u16_le (of_nat (length key)))"
    by (rule index_range_codec) simp_all
  moreover have "index_range ((t # u16_le (of_nat (length key))) @ key @ rest) 3 (3 + length key) = Ok key"
    by (rule index_range_codec) simp_all
  ultimately show ?thesis using assms l
    by (simp add: decode_key_def encode_key_def Let_def wal_key_ok_def from_utf8_def)
qed

lemma index_range_tail:
  "a = 3 + length key + length x \<Longrightarrow> b = a + length s \<Longrightarrow>
    index_range (t # encode_key key @ x @ s @ r) a b = Ok s"
  using index_range_codec [of a "t # encode_key key @ x" b s r] by (simp add: encode_key_def)

lemma index_range_tails:
  "a = 3 + length key \<Longrightarrow> b = a + length s \<Longrightarrow> index_range (t # encode_key key @ s @ r) a b = Ok s"
  "a = 3 + length key \<Longrightarrow> b = a + length s \<Longrightarrow> index_range (t # encode_key key @ s) a b = Ok s"
  "a = 3 + length key + length x \<Longrightarrow> b = a + length s \<Longrightarrow>
    index_range (t # encode_key key @ x @ s) a b = Ok s"
  "a = 3 + length key + length x + length y \<Longrightarrow> b = a + length s \<Longrightarrow>
    index_range (t # encode_key key @ x @ y @ s) a b = Ok s"
  using index_range_tail [of a key "[]" b s t r] index_range_tail [of a key "[]" b s t "[]"]
    index_range_tail [of a key x b s t "[]"] index_range_tail [of a key "x @ y" b s t "[]"]
  by simp_all

lemma decode_encode_op:
  assumes "op_ok op"
  shows "decode_op (encode_op op) = Ok op"
proof -
  have [simp]: "get_at (t # bs) 0 = Some t" for t :: byte and bs by (simp add: get_at_def)
  have tx: "index_range (t # u64_le n) (Suc 0) 9 = Ok (u64_le n)" for t n
    using index_range_codec [of "Suc 0" "[t]" 9 "u64_le n" "[]"] by simp
  note [simp del] = index_range_Ok_iff and_then_Ok_iff
  show ?thesis
  proof (cases op)
    case (BeginTx n)
    then show ?thesis by (simp add: decode_op_def tx)
  next
    case (Put key sid off len)
    then show ?thesis using assms by (simp add: decode_op_def decode_key_encode index_range_tails(1,4) index_range_tail)
  next
    case (PutInlined key val)
    then have l: "unat (of_nat (length val) :: u32) = length val"
      using assms by (simp add: unat_of_nat)
    from PutInlined l assms show ?thesis
      by (simp add: decode_op_def decode_key_encode index_range_tails(1,3) Let_def)
  next
    case (Delete key ts)
    then show ?thesis using assms by (simp add: decode_op_def decode_key_encode index_range_tails(2))
  next
    case (CommitTx n)
    then show ?thesis by (simp add: decode_op_def tx)
  next
    case (PutBlob key off len)
    then show ?thesis using assms by (simp add: decode_op_def decode_key_encode index_range_tails(1,3))
  qed
qed

lemma length_encode_op: "op_ok op \<Longrightarrow> 0 < length (encode_op op) \<and> length (encode_op op) < 2 ^ 31 + 2 ^ 17"
  by (cases op) (simp_all add: wal_key_ok_def)

section \<open>Frames as a stream\<close>

lemma frame_step_Some:
  "frame_step P bs pos = Some (payload, pos') \<longleftrightarrow>
    (\<exists>header len. get_range bs pos (pos + 8) = Some header \<and> \<not> is_zero_header header \<and>
      len = unat (le_u32 (take 4 header)) \<and> get_range bs (pos + 8) (pos + 8 + len) = Some payload \<and>
      crc32 P payload = le_u32 (drop 4 header) \<and> pos' = pos + 8 + len)"
proof (cases "get_range bs pos (pos + 8)")
  case (Some h)
  then show ?thesis
    by (cases "get_range bs (pos + 8) (pos + 8 + unat (le_u32 (take 4 h)))")
      (auto simp: frame_step_def Let_def)
qed (simp add: frame_step_def)

lemma nat_to_le_0: "nat_to_le n 0 = replicate n 0"
  by (induction n) simp_all

lemma frame_header_not_zero:
  assumes "payload_ok payload"
  shows "\<not> is_zero_header (u32_le (of_nat (length payload)) @ c)"
proof
  assume "is_zero_header (u32_le (of_nat (length payload)) @ c)"
  then have "u32_le (of_nat (length payload)) = replicate 4 0"
    by (simp add: is_zero_header_def list_all_iff replicate_eqI)
  also have "replicate 4 0 = u32_le 0" by (simp add: u32_le_def nat_to_le_0)
  finally have "(of_nat (length payload) :: u32) = 0" by simp
  with assms show False by (auto simp: payload_ok_def word_of_nat_eq_0_iff dest: dvd_imp_le)
qed

lemma frame_step_frame:
  assumes "payload_ok payload"
  shows "frame_step P (pre @ frame P payload @ rest) (length pre) =
    Some (payload, length pre + length (frame P payload))"
proof -
  let ?h = "u32_le (of_nat (length payload)) @ u32_le (crc32 P payload)"
  have h: "get_range (pre @ frame P payload @ rest) (length pre) (length pre + 8) = Some ?h"
    using get_range_mid [of "length pre" pre "length pre + 8" ?h "payload @ rest"]
    by (simp add: frame_def)
  have "get_range (pre @ frame P payload @ rest) (length pre + 8) (length pre + 8 + length payload) =
      Some payload"
    using get_range_mid [of "length pre + 8" "pre @ ?h" "length pre + 8 + length payload" payload rest]
    by (simp add: frame_def)
  moreover have "unat (of_nat (length payload) :: u32) = length payload"
    using assms by (simp add: payload_ok_def unat_of_nat)
  ultimately show ?thesis
    using h frame_header_not_zero [OF assms] by (simp add: frame_step_Some frame_def)
qed

lemma frame_step_mono:
  "frame_step P bs pos = Some (payload, pos') \<Longrightarrow> frame_step P (bs @ c) pos = Some (payload, pos')"
  by (auto simp: frame_step_Some intro!: get_range_mono)

lemma frame_step_bounds:
  "frame_step P bs pos = Some (payload, pos') \<Longrightarrow>
    pos < pos' \<and> pos' \<le> length bs \<and> pos' = pos + 8 + length payload"
  by (auto simp: frame_step_Some get_range_Some_iff length_subslice)

interpretation frames: framed_stream "frame P" payload_ok "frame_step P" for P
proof
  fix bs pos x pos'
  assume "frame_step P bs pos = Some (x, pos')"
  from frame_step_bounds [OF this] show "pos < pos' \<and> pos' \<le> length bs" by blast
qed (rule frame_step_frame frame_step_mono, assumption)+

section \<open>Recovered transactions\<close>

fun data_op :: "wal_op \<Rightarrow> bool" where
  "data_op (BeginTx _) = False"
| "data_op (CommitTx _) = False"
| "data_op _ = True"

lemma filter_committed_loop_append:
  "filter_committed_loop out cur tx raw = out @ filter_committed_loop [] cur tx raw"
proof (induction raw arbitrary: out cur tx)
  case (Cons op raw)
  show ?case
    by (cases op) (simp_all, (metis Cons.IH append.assoc append_Nil)+)
qed simp

lemma filter_committed_data:
  "\<forall>op \<in> set ops. data_op op \<Longrightarrow>
    filter_committed_loop out (Some t) tx (ops @ rest) = filter_committed_loop out (Some t) (tx @ ops) rest"
proof (induction ops arbitrary: tx)
  case (Cons op ops)
  then show ?case by (cases op) auto
qed simp

text \<open>What the log holds: operations written alone, and batches between their markers.\<close>

datatype wal_unit = Single wal_op | Batch u64 "wal_op list"

fun unit_log :: "wal_unit \<Rightarrow> wal_op list" where
  "unit_log (Single op) = [op]"
| "unit_log (Batch tx_id ops) = BeginTx tx_id # ops @ [CommitTx tx_id]"

fun unit_data :: "wal_unit \<Rightarrow> wal_op list" where
  "unit_data (Single op) = [op]"
| "unit_data (Batch tx_id ops) = ops"

definition unit_ok :: "wal_unit \<Rightarrow> bool" where
  "unit_ok u \<longleftrightarrow> (\<forall>op \<in> set (unit_data u). data_op op \<and> op_ok op)"

lemma filter_committed_unit:
  assumes "unit_ok u"
  shows "filter_committed_ops (unit_log u @ rest) = unit_data u @ filter_committed_ops rest"
proof (cases u)
  case (Single op)
  with assms show ?thesis
    using filter_committed_loop_append [of "[op]" None "[]" rest]
    by (cases op) (simp_all add: unit_ok_def filter_committed_ops_def)
next
  case (Batch t ops)
  with assms show ?thesis
    using filter_committed_loop_append [of ops None "[]" rest]
    by (simp add: unit_ok_def filter_committed_ops_def filter_committed_data)
qed

lemma filter_committed_partial:
  assumes "unit_ok u" "n < length (unit_log u)"
  shows "filter_committed_ops (take n (unit_log u)) = []"
proof (cases u)
  case (Single op)
  with assms show ?thesis by (simp add: filter_committed_ops_def)
next
  case (Batch t ops)
  show ?thesis
  proof (cases n)
    case (Suc m)
    then have "take n (unit_log u) = BeginTx t # take m ops"
      using assms(2) Batch by simp
    moreover have "\<forall>op \<in> set (take m ops). data_op op"
      using assms(1) Batch by (auto simp: unit_ok_def dest: in_set_takeD)
    ultimately show ?thesis
      using filter_committed_data [of "take m ops" "[]" t "[]" "[]"]
      by (simp add: filter_committed_ops_def)
  qed (simp add: filter_committed_ops_def)
qed

lemma filter_committed_cut:
  assumes "\<forall>u \<in> set us. unit_ok u"
  shows "\<exists>j \<le> length us.
    filter_committed_ops (take k (concat (map unit_log us))) = concat (map unit_data (take j us)) \<and>
    length (concat (map unit_log (take j us))) \<le> k \<and>
    (j < length us \<longrightarrow> k < length (concat (map unit_log (take (Suc j) us))))"
  using assms
proof (induction us arbitrary: k)
  case Nil
  then show ?case by (simp add: filter_committed_ops_def)
next
  case (Cons u us)
  show ?case
  proof (cases "k < length (unit_log u)")
    case True
    with Cons.prems filter_committed_partial [of u k] show ?thesis
      by (intro exI [of _ 0]) simp
  next
    case False
    from Cons obtain j where j: "j \<le> length us"
      "filter_committed_ops (take (k - length (unit_log u)) (concat (map unit_log us))) =
        concat (map unit_data (take j us))"
      "length (concat (map unit_log (take j us))) \<le> k - length (unit_log u)"
      "j < length us \<longrightarrow> k - length (unit_log u) < length (concat (map unit_log (take (Suc j) us)))"
      by (metis list.set_intros(2))
    with False Cons.prems show ?thesis
      by (intro exI [of _ "Suc j"]) (auto simp: filter_committed_unit)
  qed
qed

section \<open>Properties\<close>

text \<open>C36. Every operation the format can hold is decoded from its payload as it was written.\<close>

theorem wal_op_roundtrip:
  assumes "op_ok op"
  shows "decode_op (encode_op op) = Ok op"
  by (rule decode_encode_op [OF assms])

theorem wal_op_roundtrip_witness:
  "decode_op (5 # u16_le 2 @ [107, 49] @ u64_le 4096 @ u32_le 77) = Ok (PutBlob [107, 49] 4096 77)"
proof -
  have "op_ok (PutBlob [107, 49] 4096 77)" by (simp add: wal_key_ok_def utf8_valid.simps)
  from wal_op_roundtrip [OF this] show ?thesis by (simp add: encode_key_def)
qed

text \<open>A payload that passes its checksum but is cut short makes the decoder panic instead of
  returning the error its conversions are meant to return.\<close>

lemma short_record_panics: "decode_op [0] = Panic" "decode_op [3, 1, 2] = Panic"
  by (simp_all add: decode_op_def get_at_def index_range_def get_range_def)

end
