(* ===== verification/Storage_Index.thy ===== *)
theory Storage_Index
  imports Compaction Sorted_View Wal_Codec
begin

text \<open>
  The primary index of \<open>src/storage/engine.rs\<close>: the table from keys to pointers, the sorted view of the
  live keys, the live count per collection and the bytes held in memory. The hash table is a map; a
  loop over it visits the keys in the order the argument \<open>visit\<close> gives. The record is extended to the
  whole storage engine later, so the operations here are operations of the engine.
\<close>

record ram_index =
  index :: "str \<rightharpoonup> pointer"
  sorted_keys :: "str list"
  collection_counts :: "str \<rightharpoonup> nat"
  inlined_bytes :: nat
  logical_name :: str

type_synonym visit = "(str \<rightharpoonup> pointer) \<Rightarrow> str list"

definition visits :: "visit \<Rightarrow> bool" where
  "visits visit \<longleftrightarrow> (\<forall>m. finite (dom m) \<longrightarrow> distinct (visit m) \<and> set (visit m) = dom m)"

section \<open>Operations\<close>

definition is_tombstone :: "pointer \<Rightarrow> bool" where
  "is_tombstone p = (case p of Deleted _ \<Rightarrow> True | _ \<Rightarrow> False)"

definition live_pointer :: "pointer option \<Rightarrow> bool" where
  "live_pointer p = (case p of None \<Rightarrow> False | Some q \<Rightarrow> \<not> is_tombstone q)"

definition is_live :: "'a ram_index_scheme \<Rightarrow> str \<Rightarrow> bool" where
  "is_live st key = live_pointer (index st key)"

definition pointer_bytes :: "pointer option \<Rightarrow> nat" where
  "pointer_bytes p =
    (case p of
       Some (Inlined d) \<Rightarrow> length d
     | Some (BlobPendingData data skeleton) \<Rightarrow> length skeleton
     | _ \<Rightarrow> 0)"

definition set_pointer :: "str \<Rightarrow> pointer option \<Rightarrow> 'a ram_index_scheme \<Rightarrow> 'a ram_index_scheme" where
  "set_pointer key p st =
    st\<lparr>index := (index st)(key := p),
       inlined_bytes := inlined_bytes st + pointer_bytes p - pointer_bytes (index st key)\<rparr>"

definition adjust_count :: "bool \<Rightarrow> bool \<Rightarrow> 'a ram_index_scheme \<Rightarrow> 'a ram_index_scheme" where
  "adjust_count old_was_live new_is_live st =
    (let counts = collection_counts st; name = logical_name st in
     if old_was_live \<and> \<not> new_is_live then
       (case counts name of
          None \<Rightarrow> st
        | Some n \<Rightarrow> st\<lparr>collection_counts := counts(name \<mapsto> n - 1)\<rparr>)
     else if \<not> old_was_live \<and> new_is_live then
       st\<lparr>collection_counts := counts(name \<mapsto> (case counts name of None \<Rightarrow> 0 | Some n \<Rightarrow> n) + 1)\<rparr>
     else st)"

definition apply_pointer :: "str \<Rightarrow> pointer option \<Rightarrow> 'a ram_index_scheme \<Rightarrow> 'a ram_index_scheme" where
  "apply_pointer key new_pointer st =
    adjust_count (is_live st key) (live_pointer new_pointer) (set_pointer key new_pointer st)"

definition update_index_entry :: "str \<Rightarrow> pointer option \<Rightarrow> 'a ram_index_scheme \<Rightarrow> 'a ram_index_scheme" where
  "update_index_entry key new_pointer st =
    (let st' = apply_pointer key new_pointer st in
     st'\<lparr>sorted_keys := (if live_pointer new_pointer then view_insert key (sorted_keys st')
                         else view_remove key (sorted_keys st'))\<rparr>)"

definition update_index_entry_deferred ::
  "str \<Rightarrow> pointer option \<Rightarrow> 'a ram_index_scheme \<times> str list \<Rightarrow> 'a ram_index_scheme \<times> str list" where
  "update_index_entry_deferred key new_pointer sp =
    (let st' = apply_pointer key new_pointer (fst sp);
         in_view = view_contains key (sorted_keys st')
     in (st', if live_pointer new_pointer \<noteq> in_view then snd sp @ [key] else snd sp))"

definition flush_pending_sorted :: "str list \<Rightarrow> 'a ram_index_scheme \<Rightarrow> 'a ram_index_scheme" where
  "flush_pending_sorted pending st =
    st\<lparr>sorted_keys := flush_pending (is_live st) pending (sorted_keys st)\<rparr>"

text \<open>The loops that apply a list of updates and flush once.\<close>

definition update_batch :: "(str \<times> pointer option) list \<Rightarrow> 'a ram_index_scheme \<Rightarrow> 'a ram_index_scheme" where
  "update_batch updates st =
    (let (st', pending) = foldl (\<lambda>sp (key, p). update_index_entry_deferred key p sp) (st, []) updates
     in flush_pending_sorted pending st')"

definition update_index_entry_nosort :: "str \<Rightarrow> pointer \<Rightarrow> 'a ram_index_scheme \<Rightarrow> 'a ram_index_scheme" where
  "update_index_entry_nosort key new_pointer st = set_pointer key (Some new_pointer) st"

text \<open>The index update of a log operation, in \<open>recover\<close> and in \<open>apply_replicated_ops\<close>.\<close>

fun op_update :: "wal_op \<Rightarrow> (str \<times> pointer) option" where
  "op_update (Put key segment_id segment_offset len) = Some (key, SegmentPtr segment_id segment_offset len)"
| "op_update (Delete key timestamp) = Some (key, Deleted timestamp)"
| "op_update (PutInlined key val) = Some (key, Inlined val)"
| "op_update (PutBlob key off len) = Some (key, BlobPtr off len)"
| "op_update (BeginTx _) = None"
| "op_update (CommitTx _) = None"

definition replay_op :: "'a ram_index_scheme \<Rightarrow> wal_op \<Rightarrow> 'a ram_index_scheme" where
  "replay_op st op =
    (case op_update op of None \<Rightarrow> st | Some (key, p) \<Rightarrow> update_index_entry_nosort key p st)"

text \<open>\<open>recover\<close> behind the replay; \<open>visit\<close> is the order in which the table is visited.\<close>

definition recover_index :: "visit \<Rightarrow> wal_op list \<Rightarrow> 'a ram_index_scheme \<Rightarrow> 'a ram_index_scheme" where
  "recover_index visit ops st =
    (let st1 = foldl replay_op st ops;
         keys = sort (filter (is_live st1) (visit (index st1)))
     in st1\<lparr>sorted_keys := keys,
            collection_counts := (collection_counts st1)(logical_name st1 \<mapsto> length keys)\<rparr>)"

definition purge_tombstones :: "visit \<Rightarrow> 'a ram_index_scheme \<Rightarrow> nat \<times> 'a ram_index_scheme" where
  "purge_tombstones visit st =
    (let dead = filter (\<lambda>k. case index st k of None \<Rightarrow> False | Some p \<Rightarrow> is_tombstone p) (visit (index st))
     in (length dead, update_batch (map (\<lambda>k. (k, None)) dead) st))"

definition purge_old_tombstones :: "int \<Rightarrow> int \<Rightarrow> 'a ram_index_scheme \<Rightarrow> 'a ram_index_scheme" where
  "purge_old_tombstones now max_age st =
    st\<lparr>index := (\<lambda>k. case index st k of
         Some (Deleted t) \<Rightarrow> if now - sint t < max_age then Some (Deleted t) else None
       | p \<Rightarrow> p)\<rparr>"

definition count_prefix :: "visit \<Rightarrow> str \<Rightarrow> 'a ram_index_scheme \<Rightarrow> nat" where
  "count_prefix visit prefix_str st =
    (if prefix_str = [] \<or> prefix_str = logical_name st then
       (case collection_counts st (logical_name st) of
          Some n \<Rightarrow> n
        | None \<Rightarrow> length (filter (is_live st) (visit (index st))))
     else length (filter (\<lambda>k. prefix prefix_str k \<and> is_live st k) (visit (index st))))"

definition scan_prefix_keys :: "visit \<Rightarrow> str \<Rightarrow> 'a ram_index_scheme \<Rightarrow> str list" where
  "scan_prefix_keys visit prefix_str st =
    filter (\<lambda>k. is_live st k \<and> (prefix_str = [] \<or> prefix prefix_str k)) (visit (index st))"

section \<open>Invariant\<close>

definition live_keys :: "'a ram_index_scheme \<Rightarrow> str set" where
  "live_keys st = {k. is_live st k}"

definition bytes_total :: "(str \<rightharpoonup> pointer) \<Rightarrow> nat" where
  "bytes_total m = (\<Sum>k \<in> dom m. pointer_bytes (m k))"

definition stats_ok :: "'a ram_index_scheme \<Rightarrow> bool" where
  "stats_ok st \<longleftrightarrow> finite (dom (index st)) \<and> inlined_bytes st = bytes_total (index st) \<and>
    (case collection_counts st (logical_name st) of
       None \<Rightarrow> live_keys st = {}
     | Some n \<Rightarrow> n = card (live_keys st))"

definition view_ok :: "'a ram_index_scheme \<Rightarrow> bool" where
  "view_ok st \<longleftrightarrow> ascending (sorted_keys st) \<and> set (sorted_keys st) = live_keys st"

definition index_ok :: "'a ram_index_scheme \<Rightarrow> bool" where
  "index_ok st \<longleftrightarrow> stats_ok st \<and> view_ok st"

section \<open>Every operation keeps the invariant\<close>

lemma live_keys_update [simp]:
  "live_keys (set_pointer key p st) = (if live_pointer p then insert key (live_keys st) else live_keys st - {key})"
  by (auto simp: live_keys_def is_live_def set_pointer_def)

lemma adjust_count_fields [simp]:
  "index (adjust_count a b st) = index st" "sorted_keys (adjust_count a b st) = sorted_keys st"
  "inlined_bytes (adjust_count a b st) = inlined_bytes st" "logical_name (adjust_count a b st) = logical_name st"
  by (simp_all add: adjust_count_def Let_def split: option.splits)

lemma live_keys_adjust [simp]: "live_keys (adjust_count a b st) = live_keys st"
  by (simp add: live_keys_def is_live_def)

lemma finite_live: "finite (dom (index st)) \<Longrightarrow> finite (live_keys st)"
  by (rule finite_subset [of _ "dom (index st)"]) (auto simp: live_keys_def is_live_def live_pointer_def split: option.splits)

lemma bytes_total_update:
  assumes "finite (dom m)"
  shows "bytes_total (m(k := p)) = bytes_total m + pointer_bytes p - pointer_bytes (m k)"
proof -
  have d: "bytes_total m' = (\<Sum>j \<in> dom m' - {k}. pointer_bytes (m' j)) + pointer_bytes (m' k)"
    if "finite (dom m')" for m'
    using that by (cases "k \<in> dom m'")
      (auto simp: bytes_total_def sum.remove [of "dom m'" k] pointer_bytes_def domIff)
  have "dom (m(k := p)) - {k} = dom m - {k}" by auto
  moreover have "(\<Sum>j \<in> dom m - {k}. pointer_bytes ((m(k := p)) j)) = (\<Sum>j \<in> dom m - {k}. pointer_bytes (m j))"
    by (rule sum.cong) auto
  moreover have "finite (dom (m(k := p)))" using assms by simp
  ultimately show ?thesis using d [OF assms] d [of "m(k := p)"] by (simp del: fun_upd_apply) simp
qed

lemma stats_apply:
  assumes "stats_ok st"
  shows "stats_ok (apply_pointer key p st)"
proof -
  let ?st = "apply_pointer key p st"
  have fin: "finite (dom (index st))" using assms by (simp add: stats_ok_def)
  have idx: "index ?st = (index st)(key := p)" "logical_name ?st = logical_name st"
    by (simp_all add: apply_pointer_def set_pointer_def)
  have bytes: "inlined_bytes ?st = bytes_total (index ?st)"
    using assms bytes_total_update [OF fin, of key p] by (simp add: apply_pointer_def stats_ok_def set_pointer_def)
  have live: "live_keys ?st = (if live_pointer p then insert key (live_keys st) else live_keys st - {key})"
    by (simp add: apply_pointer_def)
  have mem: "is_live st key \<longleftrightarrow> key \<in> live_keys st" by (simp add: live_keys_def)
  have "case collection_counts ?st (logical_name st) of None \<Rightarrow> live_keys ?st = {} | Some n \<Rightarrow> n = card (live_keys ?st)"
    using assms finite_live [OF fin] unfolding live
    by (cases "collection_counts st (logical_name st)")
      (auto simp: apply_pointer_def adjust_count_def set_pointer_def mem stats_ok_def Let_def insert_absorb)
  with bytes fin idx show ?thesis by (simp add: stats_ok_def)
qed

lemma apply_pointer_view [simp]:
  "sorted_keys (apply_pointer key p st) = sorted_keys st" "index (apply_pointer key p st) = (index st)(key := p)"
  "live_keys (apply_pointer key p st) = (if live_pointer p then insert key (live_keys st) else live_keys st - {key})"
  by (simp_all add: apply_pointer_def) (simp_all add: set_pointer_def)

lemma live_sorted_keys [simp]:
  "is_live (st\<lparr>sorted_keys := ks\<rparr>) = is_live st" "live_keys (st\<lparr>sorted_keys := ks\<rparr>) = live_keys st"
  by (simp_all add: live_keys_def is_live_def fun_eq_iff)

lemma stats_sorted_keys [simp]: "stats_ok (st\<lparr>sorted_keys := ks\<rparr>) = stats_ok st"
  by (simp add: stats_ok_def split: option.splits)

lemma index_ok_update: "index_ok st \<Longrightarrow> index_ok (update_index_entry key p st)"
  by (auto simp: index_ok_def view_ok_def update_index_entry_def Let_def stats_apply view_insert_spec view_remove_spec)

text \<open>Between the updates of a batch: whatever has changed its membership is pending.\<close>

definition pending_ok :: "'a ram_index_scheme \<times> str list \<Rightarrow> bool" where
  "pending_ok sp \<longleftrightarrow> stats_ok (fst sp) \<and> ascending (sorted_keys (fst sp)) \<and>
    (\<forall>k. (k \<in> live_keys (fst sp)) \<noteq> (k \<in> set (sorted_keys (fst sp))) \<longrightarrow> k \<in> set (snd sp))"

lemma pending_ok_deferred: "pending_ok sp \<Longrightarrow> pending_ok (update_index_entry_deferred key p sp)"
  by (auto simp: pending_ok_def update_index_entry_deferred_def Let_def stats_apply view_contains_iff)

lemma pending_ok_fold:
  "pending_ok sp \<Longrightarrow> pending_ok (foldl (\<lambda>sp (key, p). update_index_entry_deferred key p sp) sp updates)"
  by (induction updates arbitrary: sp) (simp_all add: pending_ok_deferred split_beta)

lemma flush_pending_ok: "pending_ok (st, pending) \<Longrightarrow> index_ok (flush_pending_sorted pending st)"
  using flush_pending_spec [of "sorted_keys st" "is_live st" pending]
  by (auto simp: pending_ok_def index_ok_def view_ok_def flush_pending_sorted_def live_keys_def)

lemma index_ok_batch: "index_ok st \<Longrightarrow> index_ok (update_batch updates st)"
proof -
  assume "index_ok st"
  then have "pending_ok (st, [])" by (simp add: pending_ok_def index_ok_def view_ok_def)
  from pending_ok_fold [OF this, of updates] show ?thesis
    by (auto simp: update_batch_def split: prod.splits intro: flush_pending_ok)
qed

text \<open>The view is determined by the table.\<close>

lemma view_unique: "view_ok st \<Longrightarrow> sorted_keys st = sorted_list_of_set (live_keys st)"
  by (metis view_ok_def sorted_list_of_set.idem_if_sorted_distinct strict_sorted_iff)

lemma view_determined:
  "view_ok st \<Longrightarrow> view_ok st' \<Longrightarrow> index st = index st' \<Longrightarrow> sorted_keys st = sorted_keys st'"
  by (simp add: view_unique live_keys_def is_live_def)

lemma index_flush [simp]: "index (flush_pending_sorted pending st) = index st"
  by (simp add: flush_pending_sorted_def)

lemma index_deferred_fold:
  "index (fst (foldl (\<lambda>sp (key, p). update_index_entry_deferred key p sp) sp updates)) =
    foldl (\<lambda>m (key, p). m(key := p)) (index (fst sp)) updates"
  by (induction updates arbitrary: sp) (simp_all add: update_index_entry_deferred_def Let_def split_beta)

lemma index_batch: "index (update_batch updates st) = foldl (\<lambda>m (key, p). m(key := p)) (index st) updates"
  using index_deferred_fold [of "(st, [])" updates] by (simp add: update_batch_def split_beta)

lemma index_update_fold:
  "index (foldl (\<lambda>st (key, p). update_index_entry key p st) st updates) =
    foldl (\<lambda>m (key, p). m(key := p)) (index st) updates"
  by (induction updates arbitrary: st) (simp_all add: update_index_entry_def Let_def split_beta)

lemma index_ok_update_fold:
  "index_ok st \<Longrightarrow> index_ok (foldl (\<lambda>st (key, p). update_index_entry key p st) st updates)"
  by (induction updates arbitrary: st) (simp_all add: index_ok_update split_beta)

section \<open>Recovery\<close>

lemma replay_op_index [simp]:
  "index (replay_op st op) = (case op_update op of None \<Rightarrow> index st | Some (key, p) \<Rightarrow> (index st)(key \<mapsto> p))"
  "logical_name (replay_op st op) = logical_name st" "collection_counts (replay_op st op) = collection_counts st"
  by (simp_all add: replay_op_def update_index_entry_nosort_def set_pointer_def split: option.splits)

definition replay_table :: "wal_op list \<Rightarrow> (str \<rightharpoonup> pointer) \<Rightarrow> (str \<rightharpoonup> pointer)" where
  "replay_table ops m =
    foldl (\<lambda>m op. case op_update op of None \<Rightarrow> m | Some (key, p) \<Rightarrow> m(key \<mapsto> p)) m ops"

lemma replay_ops_index: "index (foldl replay_op st ops) = replay_table ops (index st)"
  by (induction ops arbitrary: st) (simp_all add: replay_table_def)

lemma finite_replay_table: "finite (dom m) \<Longrightarrow> finite (dom (replay_table ops m))"
  unfolding replay_table_def by (induction ops arbitrary: m) (auto split: option.splits)

lemma replay_op_bytes:
  "finite (dom (index st)) \<Longrightarrow> inlined_bytes st = bytes_total (index st) \<Longrightarrow>
    finite (dom (index (replay_op st op))) \<and> inlined_bytes (replay_op st op) = bytes_total (index (replay_op st op))"
  by (cases "op_update op")
    (auto simp: replay_op_def update_index_entry_nosort_def set_pointer_def bytes_total_update)

lemma replay_ops_bytes:
  "finite (dom (index st)) \<Longrightarrow> inlined_bytes st = bytes_total (index st) \<Longrightarrow>
    inlined_bytes (foldl replay_op st ops) = bytes_total (index (foldl replay_op st ops))"
  by (induction ops arbitrary: st) (use replay_op_bytes in \<open>auto simp del: replay_op_index\<close>)

lemma replay_ops_name: "logical_name (foldl replay_op st ops) = logical_name st"
  by (induction ops arbitrary: st) simp_all

lemma recover_index_ok:
  assumes "visits visit" "finite (dom (index st))" "inlined_bytes st = bytes_total (index st)"
  shows "index_ok (recover_index visit ops st)" "index (recover_index visit ops st) = replay_table ops (index st)"
proof -
  define st1 where "st1 = foldl replay_op st ops"
  define keys where "keys = sort (filter (is_live st1) (visit (index st1)))"
  have r: "recover_index visit ops st =
    st1\<lparr>sorted_keys := keys, collection_counts := (collection_counts st1)(logical_name st1 \<mapsto> length keys)\<rparr>"
    by (simp add: recover_index_def st1_def keys_def Let_def)
  have fin: "finite (dom (index st1))"
    using assms(2) by (simp add: st1_def replay_ops_index finite_replay_table)
  with assms(1) have v: "distinct (visit (index st1))" "set (visit (index st1)) = dom (index st1)"
    by (auto simp: visits_def)
  have sub: "live_keys st1 \<subseteq> dom (index st1)"
    by (auto simp: live_keys_def is_live_def live_pointer_def split: option.splits)
  have "ascending keys" using v(1) by (simp add: keys_def strict_sorted_iff)
  moreover have set: "set keys = live_keys st1" using v(2) sub by (auto simp: keys_def live_keys_def)
  moreover have "length keys = card (live_keys st1)"
    using v(1) set distinct_card [of keys] by (simp add: keys_def)
  moreover have "inlined_bytes st1 = bytes_total (index st1)"
    unfolding st1_def using replay_ops_bytes [OF assms(2,3)] .
  ultimately show "index_ok (recover_index visit ops st)"
    using fin by (simp add: r index_ok_def stats_ok_def view_ok_def live_keys_def is_live_def)
  show "index (recover_index visit ops st) = replay_table ops (index st)"
    by (simp add: r st1_def replay_ops_index)
qed

section \<open>Purging and counting\<close>

lemma purge_tombstones_index:
  assumes "visits visit" "finite (dom (index st))"
  shows "index (snd (purge_tombstones visit st)) = (\<lambda>k. if is_live st k then index st k else None)"
proof -
  have del: "foldl (\<lambda>m (key, p). m(key := p)) m (map (\<lambda>k. (k, None)) ks) = (\<lambda>k. if k \<in> set ks then None else m k)"
    for m :: "str \<rightharpoonup> pointer" and ks
    by (induction ks arbitrary: m) (auto simp: fun_eq_iff)
  have "set (visit (index st)) = dom (index st)" using assms by (auto simp: visits_def)
  then show ?thesis
    by (auto simp: purge_tombstones_def Let_def index_batch del fun_eq_iff is_live_def live_pointer_def
        split: option.splits)
qed

lemma purge_tombstones_ok: "index_ok st \<Longrightarrow> index_ok (snd (purge_tombstones visit st))"
  by (simp add: purge_tombstones_def Let_def index_ok_batch)

lemma purge_old_live: "live_keys (purge_old_tombstones now max_age st) = live_keys st"
  by (auto simp: live_keys_def is_live_def live_pointer_def is_tombstone_def purge_old_tombstones_def
      split: option.splits pointer.splits)

lemma count_prefix_card:
  assumes "visits visit" "index_ok st"
  shows "count_prefix visit p st =
    card {k \<in> live_keys st. p = [] \<or> p = logical_name st \<or> prefix p k}"
proof -
  have fin: "finite (dom (index st))" using assms(2) by (simp add: index_ok_def stats_ok_def)
  with assms(1) have v: "distinct (visit (index st))" "set (visit (index st)) = dom (index st)"
    by (auto simp: visits_def)
  have sub: "live_keys st \<subseteq> dom (index st)"
    by (auto simp: live_keys_def is_live_def live_pointer_def split: option.splits)
  have scan: "length (filter Q (visit (index st))) = card {k. Q k \<and> k \<in> dom (index st)}" for Q
    using v distinct_card [OF distinct_filter [OF v(1)], of Q] by (auto simp: conj_commute intro!: arg_cong [of _ _ card])
  have "{k \<in> live_keys st. prefix p k} = {k. (prefix p k \<and> is_live st k) \<and> k \<in> dom (index st)}"
    using sub by (auto simp: live_keys_def)
  moreover have "live_keys st = {k. is_live st k \<and> k \<in> dom (index st)}" using sub by (auto simp: live_keys_def)
  ultimately show ?thesis
    using assms(2) scan by (auto simp: count_prefix_def index_ok_def stats_ok_def split: option.splits)
qed

lemma purge_old_ok:
  assumes "index_ok st"
  shows "index_ok (purge_old_tombstones now max_age st)"
proof -
  let ?st = "purge_old_tombstones now max_age st"
  have dom: "dom (index ?st) \<subseteq> dom (index st)"
    by (auto simp: purge_old_tombstones_def dom_def split: option.splits pointer.splits)
  have fin: "finite (dom (index st))" using assms by (simp add: index_ok_def stats_ok_def)
  have same: "pointer_bytes (index ?st k) = pointer_bytes (index st k)" for k
    by (auto simp: purge_old_tombstones_def pointer_bytes_def split: option.splits pointer.splits)
  have "pointer_bytes (index st k) = 0" if "k \<in> dom (index st) - dom (index ?st)" for k
    using that same [of k] by (simp add: domIff pointer_bytes_def [of None])
  then have "bytes_total (index st) = bytes_total (index ?st)"
    unfolding bytes_total_def same by (intro sum.mono_neutral_right [OF fin dom]) blast
  moreover have "finite (dom (index ?st))" using dom fin by (rule finite_subset)
  ultimately show ?thesis
    using assms purge_old_live [of now max_age st]
    by (simp add: index_ok_def stats_ok_def view_ok_def) (simp add: purge_old_tombstones_def split: option.splits)
qed

section \<open>Batched and immediate maintenance\<close>

lemma apply_pointer_sorted_keys:
  "apply_pointer key p (st\<lparr>sorted_keys := ks\<rparr>) = (apply_pointer key p st)\<lparr>sorted_keys := ks\<rparr>"
  by (simp add: apply_pointer_def set_pointer_def adjust_count_def Let_def split: option.splits)

lemma immediate_stats:
  "\<exists>ks. foldl (\<lambda>st (key, p). update_index_entry key p st) st updates =
    (foldl (\<lambda>st (key, p). apply_pointer key p st) st updates)\<lparr>sorted_keys := ks\<rparr>"
proof (induction updates rule: rev_induct)
  case Nil
  show ?case by (intro exI [of _ "sorted_keys st"]) simp
next
  case (snoc u updates)
  let ?a = "foldl (\<lambda>st (key, p). apply_pointer key p st) st updates"
  obtain key p where u: "u = (key, p)" by (cases u)
  from snoc obtain ks where "foldl (\<lambda>st (key, p). update_index_entry key p st) st (updates @ [u]) =
    update_index_entry key p (?a\<lparr>sorted_keys := ks\<rparr>)" by (auto simp: u)
  also have "\<exists>ks'. \<dots> = (apply_pointer key p ?a)\<lparr>sorted_keys := ks'\<rparr>"
    by (auto simp: update_index_entry_def Let_def apply_pointer_sorted_keys)
  finally show ?case by (simp add: u)
qed

lemma deferred_stats:
  "fst (foldl (\<lambda>sp (key, p). update_index_entry_deferred key p sp) sp updates) =
    foldl (\<lambda>st (key, p). apply_pointer key p st) (fst sp) updates"
  by (induction updates arbitrary: sp) (simp_all add: update_index_entry_deferred_def Let_def split_beta)

text \<open>C12. Batching the maintenance of the sorted view changes nothing: applying a batch of index updates
  with one flush at the end leaves exactly the state that updating the entries one by one leaves, for
  every strategy the flush takes and also when a key is written several times in the batch.\<close>

theorem batched_equals_immediate:
  assumes "index_ok st"
  shows "update_batch updates st = foldl (\<lambda>st (key, p). update_index_entry key p st) st updates"
proof -
  let ?b = "update_batch updates st" and ?i = "foldl (\<lambda>st (key, p). update_index_entry key p st) st updates"
  let ?a = "foldl (\<lambda>st (key, p). apply_pointer key p st) st updates"
  have b: "?b = ?a\<lparr>sorted_keys := sorted_keys ?b\<rparr>"
    using deferred_stats [of "(st, [])" updates] by (simp add: update_batch_def split_beta flush_pending_sorted_def)
  from immediate_stats obtain ks where "?i = ?a\<lparr>sorted_keys := ks\<rparr>" by blast
  then have i: "?i = ?a\<lparr>sorted_keys := sorted_keys ?i\<rparr>" by simp
  have "sorted_keys ?b = sorted_keys ?i"
    using index_ok_batch [OF assms, of updates] index_ok_update_fold [OF assms, of updates]
    by (intro view_determined) (simp_all add: index_ok_def index_batch index_update_fold)
  then show ?thesis using b i by metis
qed




section \<open>Sample\<close>

definition sample_visit :: visit where
  "sample_visit m = (if finite (dom m) then sorted_list_of_set (dom m) else [])"

lemma sample_visits: "visits sample_visit"
  by (simp add: visits_def sample_visit_def)

definition sample_index :: ram_index where
  "sample_index = \<lparr>index = [[98] \<mapsto> Inlined [1, 2], [97] \<mapsto> BlobPtr 0 3, [99] \<mapsto> Deleted 5],
    sorted_keys = [[97], [98]], collection_counts = [[120] \<mapsto> 2], inlined_bytes = 2, logical_name = [120]\<rparr>"

lemma sample_live: "live_keys sample_index = {[97], [98]}"
  by (auto simp: live_keys_def is_live_def live_pointer_def is_tombstone_def sample_index_def split: if_splits)

lemma sample_fields:
  "dom (index sample_index) = {[97], [98], [99]}" "sorted_keys sample_index = [[97], [98]]"
  "collection_counts sample_index [120] = Some 2" "inlined_bytes sample_index = 2"
  "logical_name sample_index = [120]"
  by (auto simp: sample_index_def)

lemma sample_index_ok: "index_ok sample_index"
proof -
  have "bytes_total (index sample_index) = 2"
    by (simp add: bytes_total_def sample_fields) (simp add: sample_index_def pointer_bytes_def)
  then show ?thesis by (simp add: index_ok_def stats_ok_def view_ok_def sample_live sample_fields)
qed

theorem batched_equals_immediate_witness:
  "sorted_keys (update_batch [([100], Some (Inlined [])), ([97], None), ([97], Some (Inlined [7]))] sample_index) =
    sorted_keys (foldl (\<lambda>st (key, p). update_index_entry key p st) sample_index
      [([100], Some (Inlined [])), ([97], None), ([97], Some (Inlined [7]))])"
  using batched_equals_immediate [OF sample_index_ok] by simp




end
