(* ===== verification/Wal.thy ===== *)
theory Wal
  imports Wal_Codec
begin

text \<open>
  The write-ahead log of \<open>src/storage/wal.rs\<close> as a state: the file with its cursor, the write
  buffer, the counters of the group commit and the durability mode. The clock reading is an
  argument (\<open>now\<close>, in milliseconds), file operations succeed, and the checksum and cipher come
  with the argument \<open>P\<close>. A replay
  that fails returns no state: its caller drops the handle.
\<close>

section \<open>State\<close>

record wal =
  wal_file :: bytes
  wal_cursor :: nat
  wal_mode :: durability_mode
  group_commit_max_ops :: nat
  pending_ops :: nat
  wal_enc :: "enc_ctx option"
  write_buffer :: bytes
  last_sync :: nat
  commit_interval :: nat
  strict_interval :: bool
  reserve_bytes :: nat
  data_len :: nat

fun reserves_for_mode :: "durability_mode \<Rightarrow> bool" where
  "reserves_for_mode Always = True"
| "reserves_for_mode OnCommit = True"
| "reserves_for_mode _ = False"

text \<open>\<open>File::set_len\<close> and \<open>Write::write_all\<close> at the cursor.\<close>

definition set_len :: "nat \<Rightarrow> bytes \<Rightarrow> bytes" where
  "set_len n file = take n file @ replicate (n - length file) 0"

definition write_all :: "bytes \<Rightarrow> wal \<Rightarrow> wal" where
  "write_all bs w =
    w\<lparr>wal_file := set_len (wal_cursor w) (wal_file w) @ bs @ drop (wal_cursor w + length bs) (wal_file w),
      wal_cursor := wal_cursor w + length bs\<rparr>"

definition wal_open :: "bytes \<Rightarrow> durability_mode \<Rightarrow> nat \<Rightarrow> enc_ctx option \<Rightarrow> nat \<Rightarrow> nat \<Rightarrow> wal" where
  "wal_open file mode max_ops enc reserve now =
    \<lparr>wal_file = (if reserves_for_mode mode \<and> 0 < reserve \<and> length file < reserve
                 then set_len reserve file else file),
     wal_cursor = length file,
     wal_mode = mode,
     group_commit_max_ops = max max_ops 1,
     pending_ops = 0,
     wal_enc = enc,
     write_buffer = [],
     last_sync = now,
     commit_interval = 5,
     strict_interval = False,
     reserve_bytes = reserve,
     data_len = 0\<rparr>"

section \<open>Writing\<close>

definition flush :: "nat \<Rightarrow> wal \<Rightarrow> wal" where
  "flush now w =
    (if write_buffer w = [] then w
     else let w' = write_all (write_buffer w) w in
       w'\<lparr>write_buffer := [], pending_ops := 0, last_sync := now, data_len := wal_cursor w'\<rparr>)"

definition should_flush :: "nat \<Rightarrow> bool \<Rightarrow> wal \<Rightarrow> bool" where
  "should_flush now is_commit w =
    (case wal_mode w of
       Always \<Rightarrow> True
     | OnCommit \<Rightarrow> is_commit
     | Interval \<Rightarrow>
         if strict_interval w
         then is_commit \<and> (commit_interval w \<le> now - last_sync w \<or>
                length (write_buffer w) > 16 * 1024 * 1024)
         else is_commit \<and> (group_commit_max_ops w \<le> pending_ops w \<or>
                commit_interval w \<le> now - last_sync w \<or>
                length (write_buffer w) > 124 * 1024)
     | Manual \<Rightarrow> False)"

definition maybe_sync :: "nat \<Rightarrow> bool \<Rightarrow> bool \<Rightarrow> wal \<Rightarrow> wal" where
  "maybe_sync now is_commit is_remote w =
    (if is_remote \<and> wal_mode w \<noteq> Always then
       let w' = write_all (write_buffer w) w in
       w'\<lparr>write_buffer := [], data_len := wal_cursor w'\<rparr>
     else if should_flush now is_commit w then flush now w
     else w)"

text \<open>The payload of a record: the encoded operation, encrypted when a key is configured.\<close>

definition seal_op :: "prims \<Rightarrow> enc_ctx option \<Rightarrow> wal_op \<Rightarrow> bytes result \<times> enc_ctx option" where
  "seal_op P enc op =
    (case enc of
       None \<Rightarrow> (Ok (encode_op op), None)
     | Some c \<Rightarrow> (let (r, c') = encrypt P c (encode_op op) in (r, Some c')))"

text \<open>
  The record is built in place: eight bytes are reserved first, and an encryption error returns
  with them left in the buffer.
\<close>

definition push_record :: "prims \<Rightarrow> wal_op \<Rightarrow> wal \<Rightarrow> unit result \<times> wal" where
  "push_record P op w =
    (let (r, enc') = seal_op P (wal_enc w) op in
     case r of
       Ok payload \<Rightarrow>
         (Ok (), w\<lparr>wal_enc := enc', write_buffer := write_buffer w @ frame P payload,
                   pending_ops := pending_ops w + 1\<rparr>)
     | Err e \<Rightarrow> (Err e, w\<lparr>wal_enc := enc', write_buffer := write_buffer w @ replicate 8 0\<rparr>)
     | Panic \<Rightarrow> (Panic, w))"

fun is_commit_op :: "wal_op \<Rightarrow> bool" where
  "is_commit_op (CommitTx _) = True"
| "is_commit_op _ = False"

definition append_op :: "prims \<Rightarrow> nat \<Rightarrow> wal_op \<Rightarrow> bool \<Rightarrow> wal \<Rightarrow> unit result \<times> wal" where
  "append_op P now op is_remote w =
    (case push_record P op w of
       (Ok _, w') \<Rightarrow> (Ok (), maybe_sync now (is_commit_op op) is_remote w')
     | (r, w') \<Rightarrow> (r, w'))"

fun push_records :: "prims \<Rightarrow> wal_op list \<Rightarrow> wal \<Rightarrow> unit result \<times> wal" where
  "push_records P [] w = (Ok (), w)"
| "push_records P (op # ops) w =
    (case push_record P op w of
       (Ok _, w') \<Rightarrow> push_records P ops w'
     | (r, w') \<Rightarrow> (r, w'))"

definition append_batch :: "prims \<Rightarrow> nat \<Rightarrow> wal_op list \<Rightarrow> bool \<Rightarrow> wal \<Rightarrow> unit result \<times> wal" where
  "append_batch P now ops is_remote w =
    (case push_records P ops w of
       (Ok _, w') \<Rightarrow> (Ok (), maybe_sync now (list_ex is_commit_op ops) is_remote w')
     | (r, w') \<Rightarrow> (r, w'))"

text \<open>\<open>append_to_buffer\<close> unwraps the encryption, so its failure is a panic.\<close>

definition append_to_buffer :: "prims \<Rightarrow> wal_op \<Rightarrow> wal \<Rightarrow> unit result \<times> wal" where
  "append_to_buffer P op w =
    (case push_record P op w of (Ok _, w') \<Rightarrow> (Ok (), w') | (_, w') \<Rightarrow> (Panic, w'))"

fun append_all_to_buffer :: "prims \<Rightarrow> wal_op list \<Rightarrow> wal \<Rightarrow> unit result \<times> wal" where
  "append_all_to_buffer P [] w = (Ok (), w)"
| "append_all_to_buffer P (op # ops) w =
    (case append_to_buffer P op w of
       (Ok _, w') \<Rightarrow> append_all_to_buffer P ops w'
     | (r, w') \<Rightarrow> (r, w'))"

definition append_batch_fast ::
  "prims \<Rightarrow> nat \<Rightarrow> u64 \<Rightarrow> wal_op list \<Rightarrow> bool \<Rightarrow> wal \<Rightarrow> unit result \<times> wal" where
  "append_batch_fast P now tx_id ops is_remote w =
    (case append_all_to_buffer P (BeginTx tx_id # ops @ [CommitTx tx_id]) w of
       (Ok _, w') \<Rightarrow> (Ok (), maybe_sync now True is_remote w')
     | (r, w') \<Rightarrow> (r, w'))"

text \<open>\<open>append_raw\<close> clears the buffer, writes one unencrypted record and leaves it in the buffer.\<close>

definition append_raw :: "prims \<Rightarrow> wal_op \<Rightarrow> wal \<Rightarrow> wal" where
  "append_raw P op w =
    (let record = frame P (encode_op op)
     in write_all record (w\<lparr>write_buffer := record\<rparr>))"

definition reset :: "wal \<Rightarrow> wal" where
  "reset w =
    w\<lparr>write_buffer := [],
      wal_file := (if reserves_for_mode (wal_mode w) \<and> 0 < reserve_bytes w
                   then set_len (reserve_bytes w) [] else []),
      wal_cursor := 0, pending_ops := 0, data_len := 0\<rparr>"

section \<open>Reading\<close>

definition open_payload :: "prims \<Rightarrow> enc_ctx option \<Rightarrow> bytes \<Rightarrow> bytes result" where
  "open_payload P enc payload =
    (case enc of None \<Rightarrow> Ok payload | Some c \<Rightarrow> decrypt P c payload)"

text \<open>
  The loop of \<open>replay\<close>: the operations, the position behind the last valid record, and whether the
  loop stopped on padding. A record that decrypts but does not decode ends the loop with a key
  configured, and is an error without one.
\<close>

function replay_loop ::
  "prims \<Rightarrow> enc_ctx option \<Rightarrow> bytes \<Rightarrow> nat \<Rightarrow> (wal_op list \<times> nat \<times> bool) result" where
  "replay_loop P enc file pos =
    (case frame_step P file pos of
       None \<Rightarrow> Ok ([], pos, padding_at file pos)
     | Some (payload, pos') \<Rightarrow>
         if payload = [] then Ok ([], pos, False)
         else (case open_payload P enc payload of
             Err _ \<Rightarrow> Err (Corrupt (ascii ''Decryption failed. Wrong encryption key?''))
           | Panic \<Rightarrow> Panic
           | Ok decoded \<Rightarrow>
               (case decode_op decoded of
                  Ok op \<Rightarrow>
                    and_then (replay_loop P enc file pos') (\<lambda>(ops, end, padding).
                      Ok (op # ops, end, padding))
                | Panic \<Rightarrow> Panic
                | Err _ \<Rightarrow>
                    if enc = None
                    then Err (Corrupt (ascii
                      ''Recognized valid data but failed to decode. Is this collection encrypted?''))
                    else Ok ([], pos, False))))"
  by pat_completeness auto
termination
  by (relation "measure (\<lambda>(P, enc, file, pos). length file - pos)") (auto dest!: frame_step_bounds)

text \<open>The loop of \<open>replay_from_offset\<close> and of \<open>tail\<close>, which pass every error on.\<close>

function scan_loop ::
  "prims \<Rightarrow> enc_ctx option \<Rightarrow> bytes \<Rightarrow> nat \<Rightarrow> (wal_op list \<times> nat \<times> bool) result" where
  "scan_loop P enc file pos =
    (case frame_step P file pos of
       None \<Rightarrow> Ok ([], pos, padding_at file pos)
     | Some (payload, pos') \<Rightarrow>
         and_then (open_payload P enc payload) (\<lambda>decoded.
         and_then (decode_op decoded) (\<lambda>op.
         and_then (scan_loop P enc file pos') (\<lambda>(ops, end, padding).
           Ok (op # ops, end, padding)))))"
  by pat_completeness auto
termination
  by (relation "measure (\<lambda>(P, enc, file, pos). length file - pos)") (auto dest!: frame_step_bounds)

declare replay_loop.simps [simp del] scan_loop.simps [simp del]

text \<open>The repair and repositioning behind both loops.\<close>

definition finish_replay :: "wal \<Rightarrow> wal_op list \<times> nat \<times> bool \<Rightarrow> (wal_op list \<times> wal) result" where
  "finish_replay w r =
    (case r of (raw_ops, last_valid_pos, stopped_on_padding) \<Rightarrow>
       Ok (filter_committed_ops raw_ops,
           w\<lparr>wal_file := (if last_valid_pos < length (wal_file w) \<and> \<not> stopped_on_padding
                          then set_len last_valid_pos (wal_file w) else wal_file w),
             wal_cursor := last_valid_pos, data_len := last_valid_pos\<rparr>))"

definition replay :: "prims \<Rightarrow> wal \<Rightarrow> (wal_op list \<times> wal) result" where
  "replay P w = and_then (replay_loop P (wal_enc w) (wal_file w) 0) (finish_replay w)"

definition replay_from_offset :: "prims \<Rightarrow> nat \<Rightarrow> wal \<Rightarrow> (wal_op list \<times> wal) result" where
  "replay_from_offset P offset w = and_then (scan_loop P (wal_enc w) (wal_file w) 0) (finish_replay w)"

definition tail :: "prims \<Rightarrow> nat \<Rightarrow> wal \<Rightarrow> (wal_op list \<times> nat) result" where
  "tail P start_offset w =
    (let start = (if data_len w < start_offset then 0 else start_offset) in
     if length (wal_file w) \<le> start then Ok ([], length (wal_file w))
     else and_then (scan_loop P (wal_enc w) (wal_file w) start) (\<lambda>(ops, pos, _). Ok (ops, pos)))"

definition has_pending :: "wal \<Rightarrow> bool" where
  "has_pending w \<longleftrightarrow> write_buffer w \<noteq> []"

definition should_tick_flush :: "nat \<Rightarrow> wal \<Rightarrow> bool" where
  "should_tick_flush now w \<longleftrightarrow>
    wal_mode w = Interval \<and> has_pending w \<and> commit_interval w \<le> now - last_sync w"

definition set_durability_mode :: "durability_mode \<Rightarrow> wal \<Rightarrow> wal" where
  "set_durability_mode mode w = w\<lparr>wal_mode := mode\<rparr>"

definition set_group_commit_interval :: "nat \<Rightarrow> wal \<Rightarrow> wal" where
  "set_group_commit_interval ms w =
    (let ms' = clamp_group_commit_interval_ms ms in
     w\<lparr>commit_interval := ms', strict_interval := (ms' \<noteq> default_group_commit_interval_ms)\<rparr>)"

end
