(* ===== verification/Storage_Engine.thy ===== *)
theory Storage_Engine
  imports Storage_Index Wal
begin

text \<open>
  The storage engine of one collection, \<open>src/storage/engine.rs\<close>: the primary index extended by the
  segments, the log, the page cache and the blob file. Every operation takes the state and returns its
  result with the new state. The clones of the encryption context share one nonce counter: the state
  holds it in \<open>st_enc\<close>, and a component that encrypts takes it from there and puts it back. Loops over
  the two hash tables visit them in the order the arguments \<open>visit\<close> and \<open>seg_visit\<close> give. A segment file
  under a new identifier is empty when it is opened; file operations succeed.
\<close>

section \<open>State\<close>

record seg_meta =
  sm_level :: u32
  sm_segment :: segment

record storage = ram_index +
  segments :: "u64 \<rightharpoonup> seg_meta"
  active_segment_id :: u64
  next_segment_id :: u64
  st_wal :: wal
  next_tx_id :: u64
  compaction_threshold :: nat
  st_enc :: "enc_ctx option"
  max_inlined_bytes :: nat
  blob_threshold :: nat
  use_compression :: bool
  st_cache :: page_cache
  st_blobs :: "blob_manager option"
  blob_flush_queue :: "blob_work list"

type_synonym seg_visit = "(u64 \<rightharpoonup> seg_meta) \<Rightarrow> u64 list"

datatype storage_mutation =
    MPut str bytes
  | MDelete str

text \<open>A call into the log, and into a segment that the caller unwraps.\<close>

definition on_wal :: "(wal \<Rightarrow> 'r result \<times> wal) \<Rightarrow> storage \<Rightarrow> 'r result \<times> storage" where
  "on_wal f st =
    (let (r, w) = f ((st_wal st)\<lparr>wal_enc := st_enc st\<rparr>)
     in (r, st\<lparr>st_wal := w, st_enc := wal_enc w\<rparr>))"

definition on_segment :: "u64 \<Rightarrow> (segment \<Rightarrow> 'r result \<times> segment) \<Rightarrow> storage \<Rightarrow> 'r result \<times> storage" where
  "on_segment sid f st =
    (case segments st sid of
       None \<Rightarrow> (Panic, st)
     | Some m \<Rightarrow>
         let (r, s) = f ((sm_segment m)\<lparr>seg_enc := st_enc st\<rparr>)
         in (r, st\<lparr>segments := (segments st)(sid \<mapsto> m\<lparr>sm_segment := s\<rparr>), st_enc := seg_enc s\<rparr>))"

section \<open>Reading\<close>

definition read_pointer_internal ::
  "prims \<Rightarrow> zstd option \<Rightarrow> storage \<Rightarrow> pointer \<Rightarrow> bool \<Rightarrow> page_cache \<Rightarrow> bytes option result \<times> page_cache" where
  "read_pointer_internal P Z st p use_cache cache =
    (case p of
       BlobPending d \<Rightarrow> (Ok (Some (doc_encode d)), cache)
     | Inlined data \<Rightarrow> (Ok (Some data), cache)
     | BlobPtr off len \<Rightarrow>
         (case st_blobs st of
            None \<Rightarrow> (Panic, cache)
          | Some bm \<Rightarrow> (Ok (Some (blob_read_at bm off len)), cache))
     | BlobPendingData data _ \<Rightarrow> (Ok (Some data), cache)
     | SegmentPtr sid off len \<Rightarrow>
         (case segments st sid of
            None \<Rightarrow> (Ok None, cache)
          | Some m \<Rightarrow>
              let (r, cache') = segment_read_at P Z (sm_segment m) off len use_cache cache
              in (and_then r (\<lambda>bs. Ok (Some bs)), cache'))
     | Deleted _ \<Rightarrow> (Ok None, cache))"

definition read_pointer_shared ::
  "prims \<Rightarrow> zstd option \<Rightarrow> storage \<Rightarrow> pointer \<Rightarrow> page_cache \<Rightarrow> bytes option result \<times> page_cache" where
  "read_pointer_shared P Z st p cache =
    (case p of
       Inlined data \<Rightarrow> (Ok (Some data), cache)
     | BlobPendingData data _ \<Rightarrow> (Ok (Some data), cache)
     | BlobPending d \<Rightarrow> (Ok (Some (doc_encode d)), cache)
     | Deleted _ \<Rightarrow> (Ok None, cache)
     | other \<Rightarrow> read_pointer_internal P Z st other True cache)"

definition storage_get :: "prims \<Rightarrow> zstd option \<Rightarrow> str \<Rightarrow> storage \<Rightarrow> bytes option result \<times> storage" where
  "storage_get P Z key st =
    (case index st key of
       Some (Deleted _) \<Rightarrow> (Ok None, st)
     | Some p \<Rightarrow>
         let (r, cache) = read_pointer_internal P Z st p True (st_cache st)
         in (r, st\<lparr>st_cache := cache\<rparr>)
     | None \<Rightarrow> (Ok None, st))"

definition storage_get_shared :: "prims \<Rightarrow> zstd option \<Rightarrow> str \<Rightarrow> storage \<Rightarrow> bytes option result \<times> storage" where
  "storage_get_shared P Z key st =
    (case index st key of
       Some (Deleted _) \<Rightarrow> (Ok None, st)
     | Some p \<Rightarrow>
         let (r, cache) = read_pointer_shared P Z st p (st_cache st)
         in (r, st\<lparr>st_cache := cache\<rparr>)
     | None \<Rightarrow> (Ok None, st))"

definition read_pointer_uncached_by_key :: "prims \<Rightarrow> zstd option \<Rightarrow> str \<Rightarrow> storage \<Rightarrow> bytes option result" where
  "read_pointer_uncached_by_key P Z key st =
    (case index st key of
       None \<Rightarrow> Ok None
     | Some p \<Rightarrow> fst (read_pointer_internal P Z st p False (st_cache st)))"

text \<open>The loop of \<open>scan_prefix\<close>, which reads through the cache.\<close>

fun scan_keys :: "prims \<Rightarrow> zstd option \<Rightarrow> storage \<Rightarrow> str list \<Rightarrow> page_cache \<Rightarrow> (str \<times> bytes) list result \<times> page_cache" where
  "scan_keys P Z st [] cache = (Ok [], cache)"
| "scan_keys P Z st (k # ks) cache =
    (case index st k of
       None \<Rightarrow> scan_keys P Z st ks cache
     | Some p \<Rightarrow>
         (case read_pointer_internal P Z st p True cache of
            (Ok v, cache') \<Rightarrow>
              let (r, cache'') = scan_keys P Z st ks cache'
              in (and_then r (\<lambda>out. Ok (case v of None \<Rightarrow> out | Some bs \<Rightarrow> (k, bs) # out)), cache'')
          | (Err e, cache') \<Rightarrow> (Err e, cache')
          | (Panic, cache') \<Rightarrow> (Panic, cache')))"

definition scan_prefix :: "prims \<Rightarrow> zstd option \<Rightarrow> visit \<Rightarrow> str \<Rightarrow> storage \<Rightarrow> (str \<times> bytes) list result \<times> storage" where
  "scan_prefix P Z visit prefix_str st =
    (let (r, cache) = scan_keys P Z st (scan_prefix_keys visit prefix_str st) (st_cache st)
     in (r, st\<lparr>st_cache := cache\<rparr>))"

section \<open>Writing\<close>

definition rotate_segment :: "storage \<Rightarrow> storage" where
  "rotate_segment st =
    (let new_id = next_segment_id st in
     st\<lparr>next_segment_id := new_id + 1,
        segments := (segments st)(new_id \<mapsto> \<lparr>sm_level = 0, sm_segment = segment_open [] new_id (st_enc st)\<rparr>),
        active_segment_id := new_id\<rparr>)"

definition maybe_rotate_active_segment :: "storage \<Rightarrow> unit result \<times> storage" where
  "maybe_rotate_active_segment st =
    (case segments st (active_segment_id st) of
       None \<Rightarrow> (Err (Corrupt (ascii ''active segment missing'')), st)
     | Some m \<Rightarrow>
         if current_size (sm_segment m) < max (compaction_threshold st) (1024 * 1024) then (Ok (), st)
         else (Ok (), rotate_segment st))"

text \<open>What the loop of \<open>apply_batch\<close> collects: log operations, index updates, values for the active
  segment and work for the blob file.\<close>

record batch_plan =
  bp_ops :: "wal_op list"
  bp_updates :: "(str \<times> pointer option) list"
  bp_segment :: "(str \<times> bytes) list"
  bp_blobs :: "blob_work list"

fun plan_mutation :: "nat \<Rightarrow> str \<Rightarrow> i64 \<Rightarrow> batch_plan \<Rightarrow> storage_mutation \<Rightarrow> batch_plan" where
  "plan_mutation threshold collection now plan (MPut key val) =
    (if length val < 4096 then
       plan\<lparr>bp_ops := bp_ops plan @ [PutInlined key val],
            bp_updates := bp_updates plan @ [(key, Some (Inlined val))]\<rparr>
     else if threshold < length val then
       plan\<lparr>bp_updates := bp_updates plan @ [(key, Some (Inlined val))],
            bp_blobs := bp_blobs plan @ [PutWork collection key val]\<rparr>
     else plan\<lparr>bp_segment := bp_segment plan @ [(key, val)]\<rparr>)"
| "plan_mutation threshold collection now plan (MDelete key) =
    plan\<lparr>bp_ops := bp_ops plan @ [Delete key now],
         bp_updates := bp_updates plan @ [(key, Some (Deleted now))]\<rparr>"

definition plan_batch :: "nat \<Rightarrow> str \<Rightarrow> i64 \<Rightarrow> u64 \<Rightarrow> storage_mutation list \<Rightarrow> batch_plan" where
  "plan_batch threshold collection now tx_id mutations =
    foldl (plan_mutation threshold collection now)
      \<lparr>bp_ops = [BeginTx tx_id], bp_updates = [], bp_segment = [], bp_blobs = []\<rparr> mutations"

text \<open>The operations and updates of the values that went to the segment come behind the others.\<close>

definition segment_ops :: "u64 \<Rightarrow> (str \<times> bytes) list \<Rightarrow> (u64 \<times> u32) list \<Rightarrow> wal_op list" where
  "segment_ops sid puts offsets = map2 (\<lambda>(key, _) (off, len). Put key sid off len) puts offsets"

definition segment_updates :: "u64 \<Rightarrow> (str \<times> bytes) list \<Rightarrow> (u64 \<times> u32) list \<Rightarrow> (str \<times> pointer option) list" where
  "segment_updates sid puts offsets = map2 (\<lambda>(key, _) (off, len). (key, Some (SegmentPtr sid off len))) puts offsets"

definition apply_batch :: "prims \<Rightarrow> i64 \<Rightarrow> nat \<Rightarrow> storage_mutation list \<Rightarrow> bool \<Rightarrow> storage \<Rightarrow>
    (blob_work list \<times> wal_op list) result \<times> storage" where
  "apply_batch P now clock mutations is_remote st =
    (if mutations = [] then (Ok ([], []), st)
     else let tx_id = next_tx_id st in
       (case maybe_rotate_active_segment (st\<lparr>next_tx_id := tx_id + 1\<rparr>) of
          (Err e, st1) \<Rightarrow> (Err e, st1)
        | (Panic, st1) \<Rightarrow> (Panic, st1)
        | (Ok _, st1) \<Rightarrow>
            let plan = plan_batch (blob_threshold st1) (logical_name st1) now tx_id mutations;
                active_id = active_segment_id st1;
                puts = bp_segment plan
            in (case (if puts = [] then (Ok [], st1)
                      else on_segment active_id (segment_append_batch P (map snd puts)) st1) of
                  (Err e, st2) \<Rightarrow> (Err e, st2)
                | (Panic, st2) \<Rightarrow> (Panic, st2)
                | (Ok offsets, st2) \<Rightarrow>
                    let wal_ops = bp_ops plan @ segment_ops active_id puts offsets @ [CommitTx tx_id]
                    in (case on_wal (append_batch P clock wal_ops is_remote) st2 of
                          (Err e, st3) \<Rightarrow> (Err e, st3)
                        | (Panic, st3) \<Rightarrow> (Panic, st3)
                        | (Ok _, st3) \<Rightarrow>
                            (Ok (bp_blobs plan, wal_ops),
                             update_batch (bp_updates plan @ segment_updates active_id puts offsets) st3)))))"

definition storage_put :: "prims \<Rightarrow> i64 \<Rightarrow> nat \<Rightarrow> str \<Rightarrow> bytes \<Rightarrow> storage \<Rightarrow> unit result \<times> storage" where
  "storage_put P now clock key val st =
    (let (r, st') = apply_batch P now clock [MPut key val] False st in (and_then r (\<lambda>_. Ok ()), st'))"

definition storage_delete :: "prims \<Rightarrow> i64 \<Rightarrow> nat \<Rightarrow> str \<Rightarrow> storage \<Rightarrow> unit result \<times> storage" where
  "storage_delete P now clock key st =
    (let (r, st') = apply_batch P now clock [MDelete key] False st in (and_then r (\<lambda>_. Ok ()), st'))"

definition apply_replicated_ops :: "prims \<Rightarrow> nat \<Rightarrow> wal_op list \<Rightarrow> storage \<Rightarrow> unit result \<times> storage" where
  "apply_replicated_ops P clock ops st =
    (case on_wal (append_batch P clock ops True) st of
       (Ok _, st') \<Rightarrow>
         (Ok (), update_batch (map (\<lambda>(key, p). (key, Some p)) (List.map_filter op_update ops)) st')
     | r \<Rightarrow> r)"

definition hard_delete_keys :: "prims \<Rightarrow> i64 \<Rightarrow> nat \<Rightarrow> str list \<Rightarrow> storage \<Rightarrow> nat result \<times> storage" where
  "hard_delete_keys P now clock keys st =
    (if keys = [] then (Ok 0, st)
     else let tx_id = next_tx_id st in
       (case on_wal (append_batch_fast P clock tx_id (map (\<lambda>k. Delete k now) keys) False)
               (st\<lparr>next_tx_id := tx_id + 1\<rparr>) of
          (Ok _, st') \<Rightarrow> (Ok (length keys), st'\<lparr>index := fold (\<lambda>k m. m(k := None)) keys (index st')\<rparr>)
        | (Err e, st') \<Rightarrow> (Err e, st')
        | (Panic, st') \<Rightarrow> (Panic, st')))"

section \<open>Log snapshots\<close>

definition snapshot_op :: "bool \<Rightarrow> nat \<Rightarrow> str \<Rightarrow> pointer \<Rightarrow> wal_op" where
  "snapshot_op has_blobs threshold key p =
    (case p of
       SegmentPtr sid off len \<Rightarrow> Put key sid off len
     | Inlined val \<Rightarrow> PutInlined key val
     | BlobPtr off len \<Rightarrow> PutBlob key off len
     | BlobPending d \<Rightarrow>
         PutInlined key (doc_encode (if has_blobs then extract_blobs_placeholder d threshold else d))
     | BlobPendingData _ skeleton \<Rightarrow> PutInlined key skeleton
     | Deleted timestamp \<Rightarrow> Delete key timestamp)"

definition snapshot_ops :: "visit \<Rightarrow> storage \<Rightarrow> wal_op list" where
  "snapshot_ops visit st =
    List.map_filter (\<lambda>k. map_option (snapshot_op (st_blobs st \<noteq> None) (blob_threshold st) k) (index st k))
      (visit (index st))"

definition rewrite_wal_snapshot :: "prims \<Rightarrow> visit \<Rightarrow> nat \<Rightarrow> storage \<Rightarrow> unit result \<times> storage" where
  "rewrite_wal_snapshot P visit clock st =
    on_wal (append_batch P clock (snapshot_ops visit st) False) (st\<lparr>st_wal := reset (st_wal st)\<rparr>)"

definition wal_snapshot_worthwhile :: "storage \<Rightarrow> bool" where
  "wal_snapshot_worthwhile st \<longleftrightarrow>
    compaction_threshold st < data_len (st_wal st) \<and> min (inlined_bytes st * 3) (2 ^ 64 - 1) < data_len (st_wal st)"

end
