(* ===== verification/Wal_Recovery.thy ===== *)
theory Wal_Recovery
  imports Wal
begin

text \<open>
  What the write-ahead log promises. The abstract log is a list of operations; \<open>wal_inv P w log\<close>
  says that the file up to the cursor followed by the write buffer is the framed log and that the
  rest of the file is padding. Every operation of the log refines appending to that list, a file
  cut at any byte replays to the units whose records are whole, and a tail reader resumes at any
  record boundary.
\<close>

section \<open>Records of a log\<close>

text \<open>
  The abstract log: a byte string holds a list of operations when it is the concatenation of
  frames whose payloads open to the encoded operations.
\<close>

definition record_of :: "prims \<Rightarrow> enc_ctx option \<Rightarrow> bytes \<Rightarrow> wal_op \<Rightarrow> bool" where
  "record_of P enc payload op \<longleftrightarrow>
    payload_ok payload \<and> op_ok op \<and> open_payload P enc payload = Ok (encode_op op)"

definition wal_holds :: "prims \<Rightarrow> enc_ctx option \<Rightarrow> bytes \<Rightarrow> wal_op list \<Rightarrow> bool" where
  "wal_holds P enc bs log \<longleftrightarrow>
    (\<exists>payloads. bs = concat (map (frame P) payloads) \<and> list_all2 (record_of P enc) payloads log)"

definition wal_inv :: "prims \<Rightarrow> wal \<Rightarrow> wal_op list \<Rightarrow> bool" where
  "wal_inv P w log \<longleftrightarrow>
    wal_cursor w \<le> length (wal_file w) \<and>
    drop (wal_cursor w) (wal_file w) = replicate (length (wal_file w) - wal_cursor w) 0 \<and>
    wal_holds P (wal_enc w) (take (wal_cursor w) (wal_file w) @ write_buffer w) log"

lemma open_payload_cong:
  "map_option ctx_key enc = map_option ctx_key enc' \<Longrightarrow> open_payload P enc = open_payload P enc'"
  by (cases enc; cases enc') (auto simp: open_payload_def fun_eq_iff intro: decrypt_cong)

lemma wal_holds_cong:
  assumes "map_option ctx_key enc = map_option ctx_key enc'"
  shows "wal_holds P enc = wal_holds P enc'"
proof -
  have "record_of P enc = record_of P enc'"
    using open_payload_cong [OF assms] by (simp add: record_of_def fun_eq_iff)
  then show ?thesis by (intro ext) (simp add: wal_holds_def)
qed

lemma wal_holds_Nil: "wal_holds P enc [] []"
  by (auto simp: wal_holds_def)

lemma wal_holds_snoc:
  assumes "wal_holds P enc bs log" "record_of P enc payload op"
  shows "wal_holds P enc (bs @ frame P payload) (log @ [op])"
proof -
  from assms(1) obtain ps where "bs = concat (map (frame P) ps)" "list_all2 (record_of P enc) ps log"
    by (auto simp: wal_holds_def)
  with assms(2) show ?thesis
    by (auto simp: wal_holds_def intro!: exI [of _ "ps @ [payload]"] list_all2_appendI)
qed

lemma record_payload_ok: "list_all2 (record_of P enc) payloads log \<Longrightarrow> \<forall>p \<in> set payloads. payload_ok p"
  by (induction rule: list_all2_induct) (auto simp: record_of_def)

lemma seal_op_record:
  assumes "aead_ok P" "op_ok op" "seal_op P enc op = (Ok payload, enc')"
  shows "map_option ctx_key enc' = map_option ctx_key enc" "record_of P enc' payload op"
proof -
  show k: "map_option ctx_key enc' = map_option ctx_key enc"
    using assms(3) by (auto simp: seal_op_def encrypt_key split: option.splits prod.splits)
  show "record_of P enc' payload op"
  proof (cases enc)
    case None
    with assms(2,3) length_encode_op [of op] show ?thesis
      by (auto simp: seal_op_def record_of_def payload_ok_def open_payload_def)
  next
    case (Some c)
    with assms(3) obtain c' where e: "encrypt P c (encode_op op) = (Ok payload, c')" "enc' = Some c'"
      by (auto simp: seal_op_def split: prod.splits)
    note d = decrypt_encrypt [OF assms(1) e(1)] decrypt_cong [OF encrypt_key [OF e(1)], of P payload]
    with assms(2) length_encode_op [of op] e(2) show ?thesis
      by (auto simp: record_of_def payload_ok_def open_payload_def)
  qed
qed

section \<open>Writing keeps the log\<close>

lemma wal_inv_push:
  assumes "wal_inv P w log" "aead_ok P" "op_ok op" "push_record P op w = (Ok u, w')"
  shows "wal_inv P w' (log @ [op])"
proof -
  from assms(4) obtain payload enc' where s: "seal_op P (wal_enc w) op = (Ok payload, enc')"
    and w': "w' = w\<lparr>wal_enc := enc', write_buffer := write_buffer w @ frame P payload,
                   pending_ops := pending_ops w + 1\<rparr>"
    by (auto simp: push_record_def split: prod.splits result.splits)
  note r = seal_op_record [OF assms(2,3) s]
  have "wal_holds P enc' (take (wal_cursor w) (wal_file w) @ write_buffer w) log"
    using assms(1) wal_holds_cong [OF r(1)] by (simp add: wal_inv_def)
  from wal_holds_snoc [OF this r(2)] assms(1) show ?thesis
    by (simp add: wal_inv_def w')
qed

lemma wal_inv_write_all:
  assumes "wal_inv P w log"
  shows "wal_inv P ((write_all (write_buffer w) w)\<lparr>write_buffer := []\<rparr>) log"
proof -
  let ?c = "wal_cursor w" and ?f = "wal_file w" and ?b = "write_buffer w"
  from assms have c: "?c \<le> length ?f"
    and z: "drop ?c ?f = replicate (length ?f - ?c) 0"
    and h: "wal_holds P (wal_enc w) (take ?c ?f @ ?b) log"
    by (auto simp: wal_inv_def)
  have "drop (?c + length ?b) ?f = drop (length ?b) (drop ?c ?f)" by (simp add: add.commute)
  also have "\<dots> = replicate (length ?f - (?c + length ?b)) 0" unfolding z by simp
  finally have "drop (?c + length ?b) ?f = replicate (length ?f - (?c + length ?b)) 0" .
  with c h show ?thesis
    by (auto simp: wal_inv_def write_all_def set_len_def min_def)
qed

lemma wal_inv_cong:
  "wal_inv P w log \<Longrightarrow> wal_cursor w' = wal_cursor w \<Longrightarrow> wal_file w' = wal_file w \<Longrightarrow>
    wal_enc w' = wal_enc w \<Longrightarrow> write_buffer w' = write_buffer w \<Longrightarrow> wal_inv P w' log"
  by (simp add: wal_inv_def)

lemma wal_inv_flush: "wal_inv P w log \<Longrightarrow> wal_inv P (flush now w) log"
  by (auto simp: flush_def Let_def elim!: wal_inv_cong [OF wal_inv_write_all])

lemma wal_inv_maybe_sync: "wal_inv P w log \<Longrightarrow> wal_inv P (maybe_sync now c r w) log"
  by (auto simp: maybe_sync_def Let_def wal_inv_flush elim!: wal_inv_cong [OF wal_inv_write_all])

lemma wal_inv_push_records:
  "wal_inv P w log \<Longrightarrow> aead_ok P \<Longrightarrow> \<forall>op \<in> set ops. op_ok op \<Longrightarrow> push_records P ops w = (Ok u, w') \<Longrightarrow>
    wal_inv P w' (log @ ops)"
proof (induction ops arbitrary: w log)
  case (Cons op ops)
  from Cons.prems(4) obtain w1 u1 where w1: "push_record P op w = (Ok u1, w1)" "push_records P ops w1 = (Ok u, w')"
    by (auto split: prod.splits result.splits)
  have "wal_inv P w1 (log @ [op])"
    using wal_inv_push [OF Cons.prems(1,2) _ w1(1)] Cons.prems(3) by simp
  from Cons.IH [OF this Cons.prems(2) _ w1(2)] Cons.prems(3) show ?case by simp
qed simp

lemma append_all_to_buffer_push:
  "append_all_to_buffer P ops w = (Ok u, w') \<longleftrightarrow> push_records P ops w = (Ok u, w')"
  by (induction ops arbitrary: w)
    (auto simp: append_to_buffer_def split: prod.splits result.splits)

lemma wal_inv_append_op:
  assumes "wal_inv P w log" "aead_ok P" "op_ok op" "append_op P now op rem w = (Ok u, w')"
  shows "wal_inv P w' (log @ [op])"
  using assms(4) wal_inv_push [OF assms(1-3)]
  by (auto simp: append_op_def intro!: wal_inv_maybe_sync split: prod.splits result.splits)

lemma wal_inv_append_batch:
  assumes "wal_inv P w log" "aead_ok P" "\<forall>op \<in> set ops. op_ok op" "append_batch P now ops rem w = (Ok u, w')"
  shows "wal_inv P w' (log @ ops)"
  using assms(4) wal_inv_push_records [OF assms(1-3)]
  by (auto simp: append_batch_def intro!: wal_inv_maybe_sync split: prod.splits result.splits)

lemma wal_inv_append_batch_fast:
  assumes "wal_inv P w log" "aead_ok P" "\<forall>op \<in> set ops. op_ok op"
    and "append_batch_fast P now tx ops rem w = (Ok u, w')"
  shows "wal_inv P w' (log @ BeginTx tx # ops @ [CommitTx tx])"
proof -
  from assms(4) obtain u1 w1 where "append_all_to_buffer P (BeginTx tx # ops @ [CommitTx tx]) w = (Ok u1, w1)"
    and w': "w' = maybe_sync now True rem w1"
    by (auto simp: append_batch_fast_def split: prod.splits result.splits)
  then have "push_records P (BeginTx tx # ops @ [CommitTx tx]) w = (Ok u1, w1)"
    by (simp only: append_all_to_buffer_push)
  from wal_inv_push_records [OF assms(1,2) _ this] assms(3) show ?thesis
    unfolding w' by (intro wal_inv_maybe_sync) auto
qed

lemma wal_inv_reset: "wal_inv P (reset w) []"
  by (simp add: wal_inv_def reset_def set_len_def wal_holds_Nil)

section \<open>Reading the log back\<close>

lemma read_all_frames:
  assumes "frame_step P bs pos = Some (payload, pos')"
  shows "read_all (frame_step P) bs pos = (let (ps, e) = read_all (frame_step P) bs pos' in (payload # ps, e))"
  using assms frame_step_bounds [OF assms] by (subst read_all.simps) simp

lemma replay_loop_read_all:
  assumes "read_all (frame_step P) bs pos = (payloads, e)" "list_all2 (record_of P enc) payloads ops"
  shows "replay_loop P enc bs pos = Ok (ops, e, padding_at bs e) \<and>
    scan_loop P enc bs pos = Ok (ops, e, padding_at bs e)"
  using assms
proof (induction payloads arbitrary: pos ops)
  case Nil
  then have "frame_step P bs pos = None" "e = pos"
    using frame_step_bounds [of P bs pos]
    by (auto simp: read_all.simps [of _ _ pos] split: option.splits prod.splits if_splits)
  with Nil show ?case by (simp add: replay_loop.simps scan_loop.simps)
next
  case (Cons payload payloads)
  from Cons.prems(1) obtain pos' where s: "frame_step P bs pos = Some (payload, pos')"
    by (auto simp: read_all.simps [of _ _ pos] split: option.splits prod.splits if_splits)
  with Cons.prems(1) have r: "read_all (frame_step P) bs pos' = (payloads, e)"
    by (auto simp: read_all_frames split: prod.splits)
  from Cons.prems(2) obtain op ops' where o: "ops = op # ops'" "record_of P enc payload op"
    "list_all2 (record_of P enc) payloads ops'" by (auto simp: list_all2_Cons1)
  from o(2) have "payload \<noteq> []" "open_payload P enc payload = Ok (encode_op op)"
    "decode_op (encode_op op) = Ok op"
    by (auto simp: record_of_def payload_ok_def decode_encode_op)
  with Cons.IH [OF r o(3)] s o(1) show ?case
    by (subst replay_loop.simps, subst scan_loop.simps) simp
qed

lemma concat_take_split:
  assumes "k < length xs"
  shows "concat (map f xs) = concat (map f (take k xs)) @ f (xs ! k) @ concat (map f (drop (Suc k) xs))"
  by (subst id_take_nth_drop [OF assms]) simp

lemma cut_not_padding:
  assumes "\<forall>p \<in> set payloads. payload_ok p" "k \<le> length payloads"
  shows "\<not> padding_at (take n (concat (map (frame P) payloads)))
    (length (concat (map (frame P) (take k payloads))))" (is "\<not> padding_at (take n ?whole) ?e")
proof
  assume "padding_at (take n ?whole) ?e"
  then obtain h where h: "get_range (take n ?whole) ?e (?e + 8) = Some h" "is_zero_header h"
    by (auto simp: padding_at_def split: option.splits)
  from get_range_mono [OF h(1), of "drop n ?whole"] have w: "get_range ?whole ?e (?e + 8) = Some h"
    by simp
  have "k < length payloads"
  proof (rule ccontr)
    assume "\<not> k < length payloads"
    with assms(2) w show False by (simp add: get_range_Some_iff)
  qed
  from concat_take_split [OF this, of "frame P"] frame_step_frame
  have "frame_step P ?whole ?e \<noteq> None"
    using assms(1) \<open>k < length payloads\<close> by (metis nth_mem option.distinct(1))
  with h(2) w show False by (auto simp: frame_step_def)
qed

lemma wal_holds_read_all:
  assumes "wal_holds P enc bs log"
  obtains payloads where "bs = concat (map (frame P) payloads)" "list_all2 (record_of P enc) payloads log"
    "\<forall>p \<in> set payloads. payload_ok p"
  using assms record_payload_ok by (auto simp: wal_holds_def)

lemma length_concat_take_mono:
  "i \<le> j \<Longrightarrow> length (concat (map f (take i xs))) \<le> length (concat (map f (take j xs)))"
  by (metis (no_types) append_take_drop_id concat_append le_add1 length_append map_append min.absorb1 take_take)

text \<open>The records of a prefix that ends on a record boundary are the first records.\<close>

lemma holds_prefix:
  assumes "bs = concat (map (frame P) ps)" "\<forall>p \<in> set ps. payload_ok p"
    and "wal_holds P enc (take d bs) log"
  shows "length log \<le> length ps \<and> take d bs = concat (map (frame P) (take (length log) ps))"
proof -
  from assms(3) obtain qs where qs: "take d bs = concat (map (frame P) qs)"
    "list_all2 (record_of P enc) qs log" "\<forall>p \<in> set qs. payload_ok p"
    by (rule wal_holds_read_all)
  have "read_all (frame_step P) (take d bs) 0 = (qs, length (take d bs))"
    using frames.read_all_stop [OF qs(3), of P "[]" "[]"] frames.step_end [of P "take d bs"]
    by (simp flip: qs(1))
  with frames.read_all_cut [OF assms(2), of P "[]" d] obtain k where "k \<le> length ps" "qs = take k ps"
    unfolding assms(1) by auto
  with list_all2_lengthD [OF qs(2)] qs(1) show ?thesis by auto
qed

text \<open>A log cut at any byte: the whole records before the cut, and no others.\<close>

lemma holds_cut:
  assumes "wal_holds P enc bs log"
  obtains k e where "k \<le> length log" "e \<le> n" "e \<le> length bs"
    "replay_loop P enc (take n bs) 0 = Ok (take k log, e, False)"
    "wal_holds P enc (take e bs) (take k log)"
    "\<And>i d. i \<le> length log \<Longrightarrow> d \<le> n \<Longrightarrow> wal_holds P enc (take d bs) (take i log) \<Longrightarrow> i \<le> k"
proof -
  from assms obtain ps where ps: "bs = concat (map (frame P) ps)" "list_all2 (record_of P enc) ps log"
    "\<forall>p \<in> set ps. payload_ok p" by (rule wal_holds_read_all)
  have len: "length ps = length log" using ps(2) by (rule list_all2_lengthD)
  from frames.read_all_cut [OF ps(3), of P "[]" n] obtain k where k: "k \<le> length ps"
    "read_all (frame_step P) (take n bs) 0 = (take k ps, length (concat (map (frame P) (take k ps))))"
    "length (concat (map (frame P) (take k ps))) \<le> n"
    "k < length ps \<longrightarrow> n < length (concat (map (frame P) (take (Suc k) ps)))"
    unfolding ps(1) by auto
  let ?e = "length (concat (map (frame P) (take k ps)))"
  have rec: "list_all2 (record_of P enc) (take k ps) (take k log)"
    using ps(2) by (rule list_all2_takeI)
  have r: "replay_loop P enc (take n bs) 0 = Ok (take k log, ?e, False)"
    using replay_loop_read_all [OF k(2) rec] cut_not_padding [OF ps(3) k(1), of n P] ps(1) by simp
  have e: "take ?e bs = concat (map (frame P) (take k ps))" "?e \<le> length bs"
    unfolding ps(1) by (metis append_eq_conv_conj append_take_drop_id concat_append map_append)
      (metis append_take_drop_id concat_append le_add1 length_append map_append)
  have max: "i \<le> k" if i: "i \<le> length log" "d \<le> n" "wal_holds P enc (take d bs) (take i log)" for i d
  proof (rule ccontr)
    assume "\<not> i \<le> k"
    then have "k < length ps" "Suc k \<le> i" using i(1) len by auto
    moreover have "length (concat (map (frame P) (take i ps))) \<le> d"
      using holds_prefix [OF ps(1,3) i(3)] i(1) by (simp flip: ps(1)) (metis length_take min.cobounded2)
    ultimately show False
      using k(4) length_concat_take_mono [of "Suc k" i "frame P" ps] i(2) by linarith
  qed
  have h: "wal_holds P enc (take ?e bs) (take k log)"
    unfolding wal_holds_def e(1) using rec by blast
  show thesis by (rule that [OF _ k(3) e(2) r h]) (use k(1) len max in auto)
qed

text \<open>A whole log followed by padding: everything is read, from any record on.\<close>

lemma frame_step_zeros: "frame_step P (bs @ replicate z 0) (length bs) = None"
  by (auto simp: frame_step_def get_range_def subslice_def is_zero_header_def list_all_iff Let_def)

lemma read_all_padded:
  assumes "\<forall>p \<in> set payloads. payload_ok p" "i \<le> length payloads"
  shows "read_all (frame_step P) (concat (map (frame P) payloads) @ replicate z 0)
      (length (concat (map (frame P) (take i payloads)))) =
    (drop i payloads, length (concat (map (frame P) payloads)))"
proof -
  let ?pre = "concat (map (frame P) (take i payloads))" and ?post = "concat (map (frame P) (drop i payloads))"
  have split: "concat (map (frame P) payloads) = ?pre @ ?post"
    by (metis append_take_drop_id concat_append map_append)
  have "\<forall>p \<in> set (drop i payloads). payload_ok p" using assms(1) by (auto dest: in_set_dropD)
  from frames.read_all_stop [OF this, of P ?pre "replicate z 0"]
    frame_step_zeros [of P "?pre @ ?post" z]
  show ?thesis unfolding split by simp
qed

lemma scan_padded:
  assumes "wal_holds P enc bs log" "wal_holds P enc (take d bs) (take i log)" "i \<le> length log" "d \<le> length bs"
  shows "replay_loop P enc (bs @ replicate z 0) d =
      Ok (drop i log, length bs, padding_at (bs @ replicate z 0) (length bs)) \<and>
    scan_loop P enc (bs @ replicate z 0) d =
      Ok (drop i log, length bs, padding_at (bs @ replicate z 0) (length bs))"
proof -
  from assms(1) obtain ps where ps: "bs = concat (map (frame P) ps)" "list_all2 (record_of P enc) ps log"
    "\<forall>p \<in> set ps. payload_ok p" by (rule wal_holds_read_all)
  have i: "i \<le> length ps" using list_all2_lengthD [OF ps(2)] assms(3) by simp
  have "take d bs = concat (map (frame P) (take i ps))"
    using holds_prefix [OF ps(1,3) assms(2)] assms(3) by simp
  then have "d = length (concat (map (frame P) (take i ps)))"
    using assms(4) by (metis length_take min.absorb2)
  with read_all_padded [OF ps(3) i, of P z]
  have "read_all (frame_step P) (bs @ replicate z 0) d = (drop i ps, length bs)"
    by (simp flip: ps(1))
  from replay_loop_read_all [OF this list_all2_dropI [OF ps(2)]] show ?thesis .
qed

section \<open>Runs\<close>

inductive wal_run :: "prims \<Rightarrow> wal \<Rightarrow> wal_op list \<Rightarrow> bool" for P where
  created: "wal_run P (wal_open [] mode max_ops enc reserve now) []"
| append: "wal_run P w log \<Longrightarrow> op_ok op \<Longrightarrow> append_op P now op is_remote w = (Ok u, w') \<Longrightarrow>
    wal_run P w' (log @ [op])"
| batch: "wal_run P w log \<Longrightarrow> \<forall>op \<in> set ops. op_ok op \<Longrightarrow>
    append_batch P now ops is_remote w = (Ok u, w') \<Longrightarrow> wal_run P w' (log @ ops)"
| batch_fast: "wal_run P w log \<Longrightarrow> \<forall>op \<in> set ops. op_ok op \<Longrightarrow>
    append_batch_fast P now tx_id ops is_remote w = (Ok u, w') \<Longrightarrow>
    wal_run P w' (log @ BeginTx tx_id # ops @ [CommitTx tx_id])"
| flushed: "wal_run P w log \<Longrightarrow> wal_run P (flush now w) log"
| mode: "wal_run P w log \<Longrightarrow> wal_run P (set_durability_mode m w) log"
| interval: "wal_run P w log \<Longrightarrow> wal_run P (set_group_commit_interval ms w) log"
| reset: "wal_run P w log \<Longrightarrow> wal_run P (reset w) []"

lemma wal_inv_open: "wal_inv P (wal_open [] mode max_ops enc reserve now) []"
  by (simp add: wal_inv_def wal_open_def set_len_def wal_holds_Nil)

lemma wal_run_inv:
  assumes "aead_ok P"
  shows "wal_run P w log \<Longrightarrow> wal_inv P w log"
proof (induction rule: wal_run.induct)
  case (mode w log m)
  then show ?case by (simp add: set_durability_mode_def wal_inv_def)
next
  case (interval w log ms)
  then show ?case by (simp add: set_group_commit_interval_def Let_def wal_inv_def)
qed (use assms in \<open>blast intro: wal_inv_open wal_inv_append_op wal_inv_append_batch
    wal_inv_append_batch_fast wal_inv_flush wal_inv_reset\<close>)+

text \<open>C9. Refinement of the abstract log: after any sequence of appends, batches, flushes, mode and
  interval changes and resets, in any order and with any clock, the file up to the cursor followed
  by the buffer is exactly the framed sequence of the operations appended since the last reset, and
  the file holds only zero padding behind the cursor.\<close>

theorem wal_refines_log:
  assumes "aead_ok P" "wal_run P w log"
  shows "wal_inv P w log"
  by (rule wal_run_inv [OF assms])

section \<open>Recovery\<close>

lemma wal_open_plain:
  assumes "\<not> (reserves_for_mode mode \<and> 0 < reserve)"
  shows "wal_file (wal_open bs mode max_ops enc reserve now) = bs"
  using assms by (auto simp: wal_open_def)

lemma wal_open_padded:
  obtains z where "wal_file (wal_open bs mode max_ops enc reserve now) = bs @ replicate z 0"
proof (cases "reserves_for_mode mode \<and> 0 < reserve \<and> length bs < reserve")
  case True
  then show thesis using that [of "reserve - length bs"] by (simp add: wal_open_def set_len_def)
next
  case False
  then show thesis using that [of 0] by (auto simp: wal_open_def)
qed

lemma wal_inv_truncated:
  assumes "wal_holds P (wal_enc w) bs log" "write_buffer w = []"
  shows "wal_inv P (w\<lparr>wal_file := bs @ replicate z 0, wal_cursor := length bs, data_len := n\<rparr>) log"
  using assms by (simp add: wal_inv_def)

lemma replay_cut:
  assumes "wal_holds P enc bs log" "wal_file w = take n bs" "wal_enc w = enc" "write_buffer w = []"
  obtains k w' where "k \<le> length log" "replay P w = Ok (filter_committed_ops (take k log), w')"
    "wal_inv P w' (take k log)" "write_buffer w' = []" "data_len w' = wal_cursor w'"
    "\<And>i d. i \<le> length log \<Longrightarrow> d \<le> n \<Longrightarrow> wal_holds P enc (take d bs) (take i log) \<Longrightarrow> i \<le> k"
proof -
  from holds_cut [OF assms(1), of n] obtain k e where k: "k \<le> length log" "e \<le> n" "e \<le> length bs"
    "replay_loop P enc (take n bs) 0 = Ok (take k log, e, False)"
    "wal_holds P enc (take e bs) (take k log)"
    "\<And>i d. i \<le> length log \<Longrightarrow> d \<le> n \<Longrightarrow> wal_holds P enc (take d bs) (take i log) \<Longrightarrow> i \<le> k"
    by blast
  let ?w = "w\<lparr>wal_file := take e bs @ replicate 0 0, wal_cursor := length (take e bs), data_len := e\<rparr>"
  have "replay P w = Ok (filter_committed_ops (take k log), ?w)"
    using k(2-4) assms(2,3) by (auto simp: replay_def finish_replay_def set_len_def min_def)
  moreover have "wal_inv P ?w (take k log)"
    using k(5) assms(3,4) by (intro wal_inv_truncated) auto
  ultimately show thesis
    using that [of k ?w] k(1,3,6) assms(4) by (simp add: min_def)
qed

lemma units_before:
  assumes "length (concat (map unit_log (take i us))) \<le> k" "i \<le> length us"
    and "j < length us \<longrightarrow> k < length (concat (map unit_log (take (Suc j) us)))"
    and "j \<le> length us"
  shows "i \<le> j"
proof (rule ccontr)
  assume "\<not> i \<le> j"
  then have "j < length us" "Suc j \<le> i" using assms(2) by auto
  with length_concat_take_mono [of "Suc j" i unit_log us] assms(1,3) show False by linarith
qed

lemma concat_take_take: "\<exists>k. concat (map f (take i xs)) = take k (concat (map f xs)) \<and>
    k = length (concat (map f (take i xs)))"
  by (metis append_eq_conv_conj append_take_drop_id concat_append map_append)

text \<open>C2. Crash recovery. A log was built by any run of operations out of single operations and
  batches, and after a crash its file is cut at any byte up to the cursor. Reopened with the same
  key (in a mode that does not reserve space), replay succeeds: it returns exactly the data of the
  first \<open>j\<close> units, no part of a later one, with every unit whose records lie before the cut among
  them, and leaves a log that later operations can extend.\<close>

theorem crash_recovery:
  assumes "aead_ok P" "wal_run P w (concat (map unit_log us))" "\<forall>u \<in> set us. unit_ok u"
    and "n \<le> wal_cursor w" "\<not> (reserves_for_mode mode \<and> 0 < reserve)"
    and "map_option ctx_key enc = map_option ctx_key (wal_enc w)"
    and "i \<le> length us" "d \<le> n"
    and "wal_holds P enc (take d (wal_file w)) (concat (map unit_log (take i us)))"
  shows "\<exists>j w' k. i \<le> j \<and> j \<le> length us \<and>
    replay P (wal_open (take n (wal_file w)) mode max_ops enc reserve now) =
      Ok (concat (map unit_data (take j us)), w') \<and>
    wal_inv P w' (take k (concat (map unit_log us)))"
proof -
  let ?log = "concat (map unit_log us)" and ?bs = "take (wal_cursor w) (wal_file w) @ write_buffer w"
  let ?w = "wal_open (take n (wal_file w)) mode max_ops enc reserve now"
  have h: "wal_holds P enc ?bs ?log" and c: "wal_cursor w \<le> length (wal_file w)"
    using wal_run_inv [OF assms(1,2)] wal_holds_cong [OF assms(6)] by (auto simp: wal_inv_def)
  have cut: "take m (wal_file w) = take m ?bs" if "m \<le> n" for m
    using that assms(4) c by (simp add: min_def)
  from wal_open_plain [OF assms(5)] cut [of n] have f: "wal_file ?w = take n ?bs" by simp
  from concat_take_take [of unit_log i us] obtain l where
    l: "concat (map unit_log (take i us)) = take l ?log" "l = length (concat (map unit_log (take i us)))"
    by blast
  then have "l \<le> length ?log" by (metis length_take min.cobounded1)
  obtain k w' where k: "replay P ?w = Ok (filter_committed_ops (take k ?log), w')"
    "wal_inv P w' (take k ?log)" "l \<le> k"
    using replay_cut [OF h f] \<open>l \<le> length ?log\<close> assms(8,9) cut [OF assms(8)] l(1)
    by (metis (no_types, lifting) wal_open_def wal.select_convs(6,7))
  from filter_committed_cut [OF assms(3), of k] obtain j where j: "j \<le> length us"
    "filter_committed_ops (take k ?log) = concat (map unit_data (take j us))"
    "j < length us \<longrightarrow> k < length (concat (map unit_log (take (Suc j) us)))" by blast
  have "i \<le> j" using units_before [of i us k j] l(2) k(3) assms(7) j by simp
  with j k show ?thesis by metis
qed

definition sample_wal :: wal where
  "sample_wal = snd (append_batch_fast sample_prims 0 1 [Delete [107] 5] False (wal_open [] Always 1 None 0 0))"

lemma sample_append: "append_batch_fast sample_prims 0 1 [Delete [107] 5] False (wal_open [] Always 1 None 0 0) =
    (Ok (), sample_wal)"
  by (simp add: sample_wal_def append_batch_fast_def append_to_buffer_def push_record_def seal_op_def
      wal_open_def split_def)

lemma sample_wal_run: "wal_run sample_prims sample_wal (concat (map unit_log [Batch 1 [Delete [107] 5]]))"
  using wal_run.batch_fast [OF wal_run.created _ sample_append]
  by (simp add: wal_key_ok_def utf8_valid.simps)

lemma sample_wal_simps:
  "wal_enc sample_wal = None" "write_buffer sample_wal = []"
  "wal_cursor sample_wal = length (wal_file sample_wal)" "data_len sample_wal = wal_cursor sample_wal"
  by (simp_all add: sample_wal_def append_batch_fast_def append_to_buffer_def push_record_def seal_op_def
      wal_open_def maybe_sync_def should_flush_def flush_def write_all_def set_len_def Let_def)

theorem wal_refines_log_witness:
  "wal_inv sample_prims sample_wal [BeginTx 1, Delete [107] 5, CommitTx 1]"
  using wal_refines_log [OF sample_prims_ok sample_wal_run] by simp

theorem crash_recovery_witness:
  "\<exists>w'. replay sample_prims (wal_open (wal_file sample_wal) Manual 1 None 0 9) = Ok ([Delete [107] 5], w')"
proof -
  note w = sample_wal_simps
  have "unit_ok (Batch 1 [Delete [107] 5])"
    by (simp add: unit_ok_def wal_key_ok_def utf8_valid.simps)
  moreover have "wal_holds sample_prims None (wal_file sample_wal) (concat (map unit_log [Batch 1 [Delete [107] 5]]))"
    using wal_run_inv [OF sample_prims_ok sample_wal_run] w by (simp add: wal_inv_def)
  ultimately obtain j w' where "1 \<le> j" "j \<le> 1"
    "replay sample_prims (wal_open (take (length (wal_file sample_wal)) (wal_file sample_wal)) Manual 1 None 0 9) =
      Ok (concat (map unit_data (take j [Batch 1 [Delete [107] 5]])), w')"
    using crash_recovery [OF sample_prims_ok sample_wal_run, of "length (wal_file sample_wal)" Manual 0 None 1
      "length (wal_file sample_wal)" 1 9] w by auto
  then show ?thesis by auto
qed

lemma reopen_inv:
  assumes "wal_inv P w log" "map_option ctx_key enc = map_option ctx_key (wal_enc w)"
  shows "\<exists>w'. replay P (wal_open (wal_file (flush now w)) mode max_ops enc reserve now') =
      Ok (filter_committed_ops log, w') \<and> wal_inv P w' log"
proof -
  let ?f = "flush now w"
  let ?w = "wal_open (wal_file ?f) mode max_ops enc reserve now'"
  have inv: "wal_inv P ?f log" by (rule wal_inv_flush [OF assms(1)])
  have e: "write_buffer ?f = []" "wal_enc ?f = wal_enc w"
    by (simp_all add: flush_def Let_def write_all_def)
  let ?bs = "take (wal_cursor ?f) (wal_file ?f)"
  from inv e assms(2) have h: "wal_holds P enc ?bs log" and c: "wal_cursor ?f \<le> length (wal_file ?f)"
    using wal_holds_cong [OF assms(2)] by (auto simp: wal_inv_def)
  have "wal_file ?f = ?bs @ replicate (length (wal_file ?f) - wal_cursor ?f) 0"
    using inv by (metis append_take_drop_id wal_inv_def)
  then obtain z where z: "wal_file ?w = ?bs @ replicate z 0"
    using wal_open_padded [of "wal_file ?f" mode max_ops enc reserve now'] by (metis append.assoc replicate_add)
  let ?p = "padding_at (?bs @ replicate z 0) (length ?bs)"
  have "replay_loop P enc (?bs @ replicate z 0) 0 = Ok (log, length ?bs, ?p)"
    using scan_padded [OF h, of 0 0 z] by (simp add: wal_holds_Nil)
  then have "replay P ?w = Ok (filter_committed_ops log,
      ?w\<lparr>wal_file := ?bs @ replicate (if ?p then z else 0) 0, wal_cursor := length ?bs, data_len := length ?bs\<rparr>)"
    using z c by (simp add: replay_def finish_replay_def wal_open_def set_len_def)
  moreover have "wal_holds P (wal_enc ?w) ?bs log" "write_buffer ?w = []"
    using h by (simp_all add: wal_open_def)
  ultimately show ?thesis using wal_inv_truncated by blast
qed

text \<open>C10. A log that was flushed is recovered whole: reopening its file in any mode and with any
  reservation (so with any zero padding behind the records), replay returns the operations of all
  committed transactions of the log and the reopened log continues it.\<close>

theorem reopen_recovers:
  assumes "aead_ok P" "wal_run P w log" "map_option ctx_key enc = map_option ctx_key (wal_enc w)"
  shows "\<exists>w'. replay P (wal_open (wal_file (flush now w)) mode max_ops enc reserve now') =
      Ok (filter_committed_ops log, w') \<and> wal_inv P w' log"
  by (rule reopen_inv [OF wal_run_inv [OF assms(1,2)] assms(3)])

theorem reopen_recovers_witness:
  "\<exists>w'. replay sample_prims (wal_open (wal_file (flush 7 sample_wal)) Always 4 None 64 8) =
    Ok ([Delete [107] 5], w')"
  using reopen_recovers [OF sample_prims_ok sample_wal_run, of None 7 Always 4 64 8] sample_wal_simps(1)
  by (auto simp: filter_committed_ops_def)

text \<open>C21. Tailing resumes anywhere: with everything flushed, a reader that stands behind the first
  \<open>i\<close> records gets exactly the later operations and the position of the end of the records, however
  much padding follows; a reader that stands behind the end of the data starts over.\<close>

theorem tail_resumes:
  assumes "aead_ok P" "wal_run P w log" "write_buffer w = []" "data_len w = wal_cursor w"
    and "i \<le> length log" "wal_holds P (wal_enc w) (take d (wal_file w)) (take i log)"
    and "d \<le> wal_cursor w" "wal_cursor w < d'"
  shows "tail P d w = Ok (drop i log, wal_cursor w) \<and> tail P d' w = tail P 0 w"
proof -
  let ?bs = "take (wal_cursor w) (wal_file w)"
  from wal_run_inv [OF assms(1,2)] assms(3) have h: "wal_holds P (wal_enc w) ?bs log"
    and c: "wal_cursor w \<le> length (wal_file w)"
    and z: "wal_file w = ?bs @ replicate (length (wal_file w) - wal_cursor w) 0"
    by (auto simp: wal_inv_def) (metis append_take_drop_id)
  have "wal_holds P (wal_enc w) (take d ?bs) (take i log)" using assms(6,7) by (simp add: min_def)
  from scan_padded [OF h this assms(5)] assms(7) c
  have s: "scan_loop P (wal_enc w) (wal_file w) d = Ok (drop i log, wal_cursor w, padding_at (wal_file w) (wal_cursor w))"
    by (subst z, subst z) (simp add: min_def)
  have "tail P d w = Ok (drop i log, wal_cursor w)"
  proof (cases "length (wal_file w) \<le> d")
    case True
    with assms(7) c have d: "d = length (wal_file w)" "wal_cursor w = length (wal_file w)" by auto
    with s frames.step_end [of P "wal_file w"] have "drop i log = []"
      by (subst (asm) scan_loop.simps) simp
    with d show ?thesis using assms(4) by (simp add: tail_def)
  next
    case False
    with s show ?thesis using assms(4,7) by (simp add: tail_def)
  qed
  then show ?thesis using assms(4,8) by (simp add: tail_def)
qed

theorem tail_resumes_witness:
  "tail sample_prims 0 sample_wal =
    Ok ([BeginTx 1, Delete [107] 5, CommitTx 1], wal_cursor sample_wal)"
  using tail_resumes [OF sample_prims_ok sample_wal_run sample_wal_simps(2,4), of 0 0 "Suc (wal_cursor sample_wal)"]
  by (simp add: wal_holds_Nil)

section \<open>Durability modes\<close>

lemma flush_empties [simp]: "write_buffer (flush now w) = []" "wal_mode (flush now w) = wal_mode w"
  by (simp_all add: flush_def Let_def write_all_def)

lemma push_records_keeps:
  "push_records P ops w = (r, w') \<Longrightarrow> wal_mode w' = wal_mode w \<and> group_commit_max_ops w' = group_commit_max_ops w \<and>
    commit_interval w' = commit_interval w \<and> strict_interval w' = strict_interval w \<and> last_sync w' = last_sync w \<and>
    wal_file w' = wal_file w"
proof (induction ops arbitrary: w)
  case (Cons op ops)
  obtain r1 w1 where 1: "push_record P op w = (r1, w1)" by (cases "push_record P op w")
  then have "wal_mode w1 = wal_mode w \<and> group_commit_max_ops w1 = group_commit_max_ops w \<and>
    commit_interval w1 = commit_interval w \<and> strict_interval w1 = strict_interval w \<and> last_sync w1 = last_sync w \<and>
    wal_file w1 = wal_file w"
    by (auto simp: push_record_def split: prod.splits result.splits)
  with 1 Cons show ?case by (auto split: result.splits)
qed simp



section \<open>Deviations\<close>

text \<open>
  A failed encryption leaves eight zero bytes in the buffer. They read as padding, so every record
  appended behind them is out of reach of every later replay.
\<close>

lemma frame_step_zero_header: "frame_step P (bs @ replicate 8 0 @ rest) (length bs) = None"
proof -
  have "get_range (bs @ replicate 8 0 @ rest) (length bs) (length bs + 8) = Some (replicate 8 0)"
    by (rule get_range_mid) simp_all
  then show ?thesis by (simp add: frame_step_def is_zero_header_def list_all_iff)
qed

lemma failed_append_strands:
  assumes "wal_holds P enc bs log"
  shows "\<exists>p. replay_loop P enc (bs @ replicate 8 0 @ concat (map (frame P) payloads)) 0 = Ok (log, length bs, p)"
proof -
  from assms obtain ps where ps: "bs = concat (map (frame P) ps)" "list_all2 (record_of P enc) ps log"
    "\<forall>p \<in> set ps. payload_ok p" by (rule wal_holds_read_all)
  let ?rest = "replicate 8 0 @ concat (map (frame P) payloads)"
  have "read_all (frame_step P) (bs @ ?rest) 0 = (ps, length bs)"
    using frames.read_all_stop [OF ps(3), of P "[]" ?rest] frame_step_zero_header [of P bs]
    by (simp flip: ps(1))
  from replay_loop_read_all [OF this ps(2)] show ?thesis by blast
qed

text \<open>
  With a key configured, a record that passes its checksum and decrypts but does not decode makes
  \<open>replay\<close> cut the file there, with all that follows.
\<close>

lemma undecodable_record_truncates:
  assumes "payload_ok payload" "wal_enc w = Some c" "wal_file w = frame P payload @ rest"
    and "decrypt P c payload = Ok decoded" "decode_op decoded = Err e"
  shows "\<exists>w'. replay P w = Ok ([], w') \<and> wal_file w' = []"
proof -
  have "frame_step P (wal_file w) 0 = Some (payload, length (frame P payload))"
    using frame_step_frame [OF assms(1), of P "[]" rest] assms(3) by simp
  then have "replay_loop P (wal_enc w) (wal_file w) 0 = Ok ([], 0, False)"
    using assms by (subst replay_loop.simps) (simp add: payload_ok_def open_payload_def)
  then show ?thesis
    using assms(3) by (simp add: replay_def finish_replay_def set_len_def filter_committed_ops_def frame_def)
qed

text \<open>
  The records of a batch cut off by a crash stay in the file. An operation appended later outside a
  transaction is taken for a part of that batch, and the next replay drops it.
\<close>

lemma uncommitted_tail_swallows:
  assumes "data_op a" "data_op b"
  shows "filter_committed_ops [BeginTx t, a] = []" "filter_committed_ops ([BeginTx t, a] @ [b]) = []"
  using filter_committed_data [of "[a]" "[]" t "[]" "[]"] filter_committed_data [of "[a, b]" "[]" t "[]" "[]"] assms
  by (simp_all add: filter_committed_ops_def)

end
