(* ===== verification/Storage_Refinement.thy ===== *)
theory Storage_Refinement
  imports Storage_Engine Wal_Recovery
begin

text \<open>
  The storage engine refines a map from keys to bytes. The invariant \<open>store_ok\<close> says that every pointer
  into a segment addresses a whole record there, that the cache holds only values of records, and that
  the index is consistent; \<open>content\<close> is the abstract map. A batch of mutations refines the sequence of
  updates, and a read returns what the map holds.
\<close>

section \<open>Invariant and abstraction\<close>

definition same_key :: "enc_ctx option \<Rightarrow> enc_ctx option \<Rightarrow> bool" where
  "same_key a b \<longleftrightarrow> map_option ctx_key a = map_option ctx_key b"

definition meta_ok :: "storage \<Rightarrow> u64 \<Rightarrow> seg_meta \<Rightarrow> bool" where
  "meta_ok st sid m \<longleftrightarrow> sid < next_segment_id st \<and> seg_id (sm_segment m) = sid \<and>
    seg_map (sm_segment m) \<le> length (seg_file (sm_segment m)) \<and> same_key (seg_enc (sm_segment m)) (st_enc st)"

definition in_segment :: "prims \<Rightarrow> zstd option \<Rightarrow> storage \<Rightarrow> u64 \<Rightarrow> u64 \<Rightarrow> u32 \<Rightarrow> bytes \<Rightarrow> bool" where
  "in_segment P Z st sid off l v \<longleftrightarrow>
    (\<exists>m. segments st sid = Some m \<and> placed P Z (st_enc st) (seg_file (sm_segment m)) off l v)"

definition cached_ok :: "prims \<Rightarrow> zstd option \<Rightarrow> storage \<Rightarrow> block_key \<Rightarrow> bytes \<Rightarrow> bool" where
  "cached_ok P Z st b v \<longleftrightarrow> block_segment b < next_segment_id st \<and>
    (segments st (block_segment b) = None \<or> (\<exists>l. in_segment P Z st (block_segment b) (block_offset b) l v))"

definition store_ok :: "prims \<Rightarrow> zstd option \<Rightarrow> storage \<Rightarrow> bool" where
  "store_ok P Z st \<longleftrightarrow> index_ok st \<and> segments st (active_segment_id st) \<noteq> None \<and>
    (\<forall>sid m. segments st sid = Some m \<longrightarrow> meta_ok st sid m) \<and>
    (\<forall>k sid off l. index st k = Some (SegmentPtr sid off l) \<longrightarrow> (\<exists>v. in_segment P Z st sid off l v)) \<and>
    (\<forall>k off l. index st k = Some (BlobPtr off l) \<longrightarrow> st_blobs st \<noteq> None) \<and>
    pages.holds_only (cached_ok P Z st) (st_cache st) \<and> same_key (wal_enc (st_wal st)) (st_enc st)"

definition pointer_content :: "prims \<Rightarrow> zstd option \<Rightarrow> storage \<Rightarrow> pointer \<Rightarrow> bytes option" where
  "pointer_content P Z st p =
    (case p of
       SegmentPtr sid off l \<Rightarrow>
         (case segments st sid of
            None \<Rightarrow> None
          | Some m \<Rightarrow> (case read_payload P Z (sm_segment m) off l of Ok v \<Rightarrow> Some v | _ \<Rightarrow> None))
     | Inlined v \<Rightarrow> Some v
     | BlobPtr off l \<Rightarrow> map_option (\<lambda>bm. blob_read_at bm off l) (st_blobs st)
     | BlobPending d \<Rightarrow> Some (doc_encode d)
     | BlobPendingData v _ \<Rightarrow> Some v
     | Deleted _ \<Rightarrow> None)"

definition content :: "prims \<Rightarrow> zstd option \<Rightarrow> storage \<Rightarrow> (str \<rightharpoonup> bytes)" where
  "content P Z st k = Option.bind (index st k) (pointer_content P Z st)"

fun apply_mutation :: "(str \<rightharpoonup> bytes) \<Rightarrow> storage_mutation \<Rightarrow> (str \<rightharpoonup> bytes)" where
  "apply_mutation m (MPut k v) = m(k \<mapsto> v)"
| "apply_mutation m (MDelete k) = m(k := None)"

lemma pointer_content_cong:
  assumes "segments st' = segments st" "st_blobs st' = st_blobs st"
  shows "pointer_content P Z st' = pointer_content P Z st"
proof
  fix p
  show "pointer_content P Z st' p = pointer_content P Z st p"
    using assms by (cases p) (simp_all add: pointer_content_def)
qed

lemma same_key_simps [simp]: "same_key a a" "same_key a b \<Longrightarrow> same_key b a"
  by (simp_all add: same_key_def)

lemma same_key_trans: "same_key a b \<Longrightarrow> same_key b c \<Longrightarrow> same_key a c"
  by (simp add: same_key_def)

lemma placed_same_key: "same_key a b \<Longrightarrow> placed P Z a = placed P Z b"
  unfolding same_key_def by (rule placed_cong)

lemma in_segment_content:
  assumes "\<forall>sid m. segments st sid = Some m \<longrightarrow> meta_ok st sid m" "in_segment P Z st sid off l v"
  shows "\<exists>m. segments st sid = Some m \<and> read_payload P Z (sm_segment m) off l = Ok v"
proof -
  from assms(2) obtain m where m: "segments st sid = Some m" "placed P Z (st_enc st) (seg_file (sm_segment m)) off l v"
    by (auto simp: in_segment_def)
  with assms(1) have k: "same_key (st_enc st) (seg_enc (sm_segment m))"
    "seg_map (sm_segment m) \<le> length (seg_file (sm_segment m))" by (auto simp: meta_ok_def)
  with m have "placed P Z (seg_enc (sm_segment m)) (seg_file (sm_segment m)) off l v"
    using placed_same_key [OF k(1), of P Z] by simp
  with placed_read k(2) m(1) show ?thesis by blast
qed

lemma pointer_content_segment:
  assumes "\<forall>sid m. segments st sid = Some m \<longrightarrow> meta_ok st sid m" "in_segment P Z st sid off l v"
  shows "pointer_content P Z st (SegmentPtr sid off l) = Some v"
  using in_segment_content [OF assms] by (auto simp: pointer_content_def)

lemma store_okD:
  assumes "store_ok P Z st"
  shows "index_ok st" "\<forall>sid m. segments st sid = Some m \<longrightarrow> meta_ok st sid m"
    "\<And>k sid off l. index st k = Some (SegmentPtr sid off l) \<Longrightarrow> \<exists>v. in_segment P Z st sid off l v"
    "\<And>k off l. index st k = Some (BlobPtr off l) \<Longrightarrow> st_blobs st \<noteq> None"
    "pages.holds_only (cached_ok P Z st) (st_cache st)" "same_key (wal_enc (st_wal st)) (st_enc st)"
    "segments st (active_segment_id st) \<noteq> None"
  using assms unfolding store_ok_def by blast+

section \<open>Reading\<close>

lemma read_pointer_content:
  assumes ok: "store_ok P Z st" and "index st k = Some p"
    and cache: "pages.holds_only (cached_ok P Z st) cache"
  shows "fst (read_pointer_internal P Z st p use_cache cache) = Ok (content P Z st k)"
    "pages.holds_only (cached_ok P Z st) (snd (read_pointer_internal P Z st p use_cache cache))"
proof -
  have "fst (read_pointer_internal P Z st p use_cache cache) = Ok (content P Z st k) \<and>
    pages.holds_only (cached_ok P Z st) (snd (read_pointer_internal P Z st p use_cache cache))"
  proof (cases p)
    case (SegmentPtr sid off l)
    with store_okD(3) [OF ok] assms(2) obtain v where v: "in_segment P Z st sid off l v" by blast
    note metas = store_okD(2) [OF ok]
    from in_segment_content [OF this v] obtain m where m: "segments st sid = Some m"
      "read_payload P Z (sm_segment m) off l = Ok v" by blast
    with metas have sid: "seg_id (sm_segment m) = sid" "sid < next_segment_id st" by (auto simp: meta_ok_def)
    let ?k = "\<lparr>block_segment = sid, block_offset = off\<rparr>"
    have R: "cached_ok P Z st ?k v" using v sid by (auto simp: cached_ok_def)
    have hit: "x = v" if "fst (cache_get ?k cache) = Some x" for x
      using pages.holds_only_hit [OF cache that] m(1) v
      by (auto simp: cached_ok_def in_segment_def dest: placed_unique)
    note get = pages.holds_only_get [OF cache, of ?k]
    have c: "content P Z st k = Some v"
      using assms(2) SegmentPtr pointer_content_segment [OF metas v] by (simp add: content_def)
    show ?thesis
      using m sid(1) hit get cache pages.holds_only_put [OF get R] c
      by (cases "cache_get ?k cache"; cases "fst (cache_get ?k cache)"; cases use_cache)
        (auto simp: SegmentPtr read_pointer_internal_def segment_read_at_def Let_def)
  next
    case (BlobPtr off l)
    with store_okD(4) [OF ok] assms(2) obtain bm where "st_blobs st = Some bm" by blast
    with BlobPtr assms cache show ?thesis
      by (simp add: content_def pointer_content_def read_pointer_internal_def)
  qed (use assms cache in \<open>simp_all add: content_def pointer_content_def read_pointer_internal_def\<close>)
  then show "fst (read_pointer_internal P Z st p use_cache cache) = Ok (content P Z st k)"
    "pages.holds_only (cached_ok P Z st) (snd (read_pointer_internal P Z st p use_cache cache))" by auto
qed

lemma store_ok_cache:
  assumes "store_ok P Z st" "pages.holds_only (cached_ok P Z st) cache"
  shows "store_ok P Z (st\<lparr>st_cache := cache\<rparr>)" "content P Z (st\<lparr>st_cache := cache\<rparr>) = content P Z st"
proof -
  have "index_ok (st\<lparr>st_cache := cache\<rparr>) = index_ok st"
    by (simp add: index_ok_def stats_ok_def view_ok_def live_keys_def is_live_def split: option.splits)
  moreover have "in_segment P Z (st\<lparr>st_cache := cache\<rparr>) = in_segment P Z st"
    by (simp add: in_segment_def fun_eq_iff)
  moreover from this have "cached_ok P Z (st\<lparr>st_cache := cache\<rparr>) = cached_ok P Z st"
    by (simp add: cached_ok_def fun_eq_iff)
  ultimately show "store_ok P Z (st\<lparr>st_cache := cache\<rparr>)"
    using assms by (simp add: store_ok_def meta_ok_def)
  have "pointer_content P Z (st\<lparr>st_cache := cache\<rparr>) = pointer_content P Z st"
    by (rule pointer_content_cong) simp_all
  then show "content P Z (st\<lparr>st_cache := cache\<rparr>) = content P Z st"
    by (intro ext) (simp add: content_def)
qed

lemma storage_get_content:
  assumes "store_ok P Z st"
  shows "fst (storage_get P Z k st) = Ok (content P Z st k)" "store_ok P Z (snd (storage_get P Z k st))"
    "content P Z (snd (storage_get P Z k st)) = content P Z st"
proof -
  note cache = store_okD(5) [OF assms]
  have "fst (storage_get P Z k st) = Ok (content P Z st k) \<and> store_ok P Z (snd (storage_get P Z k st)) \<and>
    content P Z (snd (storage_get P Z k st)) = content P Z st"
  proof (cases "index st k")
    case None
    with assms show ?thesis by (simp add: storage_get_def content_def)
  next
    case (Some p)
    note r = read_pointer_content [OF assms Some cache, of True]
    note c = store_ok_cache [OF assms r(2)]
    from Some assms r c show ?thesis
      by (cases p) (simp_all add: storage_get_def split_beta Let_def content_def pointer_content_def)
  qed
  then show "fst (storage_get P Z k st) = Ok (content P Z st k)" "store_ok P Z (snd (storage_get P Z k st))"
    "content P Z (snd (storage_get P Z k st)) = content P Z st" by auto
qed

section \<open>Steps that keep every record\<close>

definition extends :: "prims \<Rightarrow> zstd option \<Rightarrow> storage \<Rightarrow> storage \<Rightarrow> bool" where
  "extends P Z st st' \<longleftrightarrow> (\<forall>sid off l v. in_segment P Z st sid off l v \<longrightarrow> in_segment P Z st' sid off l v) \<and>
    next_segment_id st \<le> next_segment_id st' \<and>
    (\<forall>sid < next_segment_id st. segments st sid = None \<longrightarrow> segments st' sid = None) \<and>
    st_blobs st' = st_blobs st \<and> same_key (st_enc st') (st_enc st)"

lemma extends_refl: "extends P Z st st"
  by (simp add: extends_def)

lemma extends_trans:
  assumes "extends P Z a b" "extends P Z b c"
  shows "extends P Z a c"
proof -
  have "segments c sid = None" if "sid < next_segment_id a" "segments a sid = None" for sid
    using assms that unfolding extends_def by (meson order_less_le_trans)
  moreover have "same_key (st_enc c) (st_enc a)" using assms same_key_trans unfolding extends_def by blast
  ultimately show ?thesis using assms unfolding extends_def by auto
qed

lemma extends_cached: "extends P Z st st' \<Longrightarrow> cached_ok P Z st b v \<Longrightarrow> cached_ok P Z st' b v"
  unfolding extends_def cached_ok_def by fastforce

lemma extends_pointer:
  assumes "store_ok P Z st" "extends P Z st st'" "\<forall>sid m. segments st' sid = Some m \<longrightarrow> meta_ok st' sid m"
    and "index st k = Some p"
  shows "pointer_content P Z st' p = pointer_content P Z st p"
proof (cases p)
  case (SegmentPtr sid off l)
  with store_okD(3) [OF assms(1)] assms(4) obtain v where v: "in_segment P Z st sid off l v" by blast
  then have "in_segment P Z st' sid off l v" using assms(2) by (simp add: extends_def)
  with v SegmentPtr show ?thesis
    using pointer_content_segment [OF store_okD(2) [OF assms(1)]] pointer_content_segment [OF assms(3)] by simp
qed (use assms(2) in \<open>simp_all add: pointer_content_def extends_def\<close>)

text \<open>A step that extends the segments keeps the invariant and the content, and may update the index
  with pointers to records and pointers that hold their value.\<close>

lemma store_ok_extend:
  assumes "store_ok P Z st" "extends P Z st st'" "\<forall>sid m. segments st' sid = Some m \<longrightarrow> meta_ok st' sid m"
    and "index_ok st'" "st_cache st' = st_cache st" "same_key (wal_enc (st_wal st')) (st_enc st')"
    and "segments st' (active_segment_id st') \<noteq> None"
    and "\<And>k. index st' k = index st k \<or> (case index st' k of
        Some (SegmentPtr sid off l) \<Rightarrow> \<exists>v. in_segment P Z st' sid off l v
      | Some (BlobPtr off l) \<Rightarrow> st_blobs st' \<noteq> None | _ \<Rightarrow> True)"
  shows "store_ok P Z st'"
proof -
  have "pages.holds_only (cached_ok P Z st') (st_cache st')"
    using store_okD(5) [OF assms(1)] extends_cached [OF assms(2)] unfolding assms(5)
    by (rule pages.holds_only_mono)
  moreover have "\<exists>v. in_segment P Z st' sid off l v" if "index st' k = Some (SegmentPtr sid off l)" for k sid off l
  proof (cases "index st' k = index st k")
    case True
    with store_okD(3) [OF assms(1), of k sid off l] that assms(2) show ?thesis
      unfolding extends_def by (metis (no_types))
  next
    case False
    with assms(8) [of k] that show ?thesis by simp
  qed
  moreover have "st_blobs st' \<noteq> None" if "index st' k = Some (BlobPtr off l)" for k off l
    using assms(8) [of k] that store_okD(4) [OF assms(1), of k off l] assms(2)
    by (cases "index st' k = index st k") (auto simp: extends_def)
  ultimately show ?thesis using assms(3,4,6,7) unfolding store_ok_def by blast
qed

lemma content_extend:
  assumes "store_ok P Z st" "extends P Z st st'" "\<forall>sid m. segments st' sid = Some m \<longrightarrow> meta_ok st' sid m"
    and "index st' = index st"
  shows "content P Z st' = content P Z st"
proof
  fix k
  show "content P Z st' k = content P Z st k"
    using extends_pointer [OF assms(1-3), of k] assms(4) by (cases "index st k") (simp_all add: content_def)
qed

lemma index_ok_cong:
  "index st' = index st \<Longrightarrow> sorted_keys st' = sorted_keys st \<Longrightarrow> collection_counts st' = collection_counts st \<Longrightarrow>
    inlined_bytes st' = inlined_bytes st \<Longrightarrow> logical_name st' = logical_name st \<Longrightarrow> index_ok st' = index_ok st"
  by (simp add: index_ok_def stats_ok_def view_ok_def live_keys_def is_live_def split: option.splits)

subsection \<open>Rotation\<close>

lemma u64_succ_less:
  assumes "(x :: u64) < 0xFFFFFFFFFFFFFFFF"
  shows "x < x + 1"
proof -
  have "unat x + 1 < 2 ^ 64" using assms by (simp add: word_less_nat_alt)
  then show ?thesis by (simp add: word_less_nat_alt unat_word_ariths)
qed

lemma rotate_ok:
  assumes "store_ok P Z st" "next_segment_id st < 0xFFFFFFFFFFFFFFFF"
  shows "store_ok P Z (rotate_segment st)" "content P Z (rotate_segment st) = content P Z st"
    "index (rotate_segment st) = index st" "st_enc (rotate_segment st) = st_enc st"
    "extends P Z st (rotate_segment st)"
proof -
  let ?st = "rotate_segment st"
  have nx: "next_segment_id st < next_segment_id st + 1" using assms(2) by (rule u64_succ_less)
  have fresh: "segments st (next_segment_id st) = None"
    using store_okD(2) [OF assms(1)] by (cases "segments st (next_segment_id st)") (auto simp: meta_ok_def)
  have metas: "\<forall>sid m. segments ?st sid = Some m \<longrightarrow> meta_ok ?st sid m"
  proof (intro allI impI)
    fix sid m assume "segments ?st sid = Some m"
    then show "meta_ok ?st sid m"
      using store_okD(2) [OF assms(1)] nx
      by (cases "sid = next_segment_id st")
        (auto simp: rotate_segment_def Let_def meta_ok_def segment_open_def intro: less_trans)
  qed
  have grow: "extends P Z st ?st"
    using nx fresh by (auto simp: extends_def in_segment_def rotate_segment_def Let_def)
  have idx: "index_ok ?st" using store_okD(1) [OF assms(1)] index_ok_cong [of ?st st]
    by (simp add: rotate_segment_def Let_def)
  show "store_ok P Z ?st"
    by (rule store_ok_extend [OF assms(1) grow metas idx])
      (use store_okD(6) [OF assms(1)] in \<open>simp_all add: rotate_segment_def Let_def\<close>)
  show "content P Z ?st = content P Z st"
    by (rule content_extend [OF assms(1) grow metas]) (simp add: rotate_segment_def Let_def)
  show "index ?st = index st" "st_enc ?st = st_enc st" by (simp_all add: rotate_segment_def Let_def)
  show "extends P Z st ?st" by (rule grow)
qed

lemma maybe_rotate_ok:
  assumes "store_ok P Z st" "next_segment_id st < 0xFFFFFFFFFFFFFFFF" "maybe_rotate_active_segment st = (r, st')"
  shows "r = Ok ()" "store_ok P Z st'" "content P Z st' = content P Z st" "index st' = index st"
    "blob_threshold st' = blob_threshold st" "logical_name st' = logical_name st" "extends P Z st st'"
    "st_cache st' = st_cache st"
    "active_segment_id st' = active_segment_id st \<or> active_segment_id st' = next_segment_id st"
proof -
  obtain m where "segments st (active_segment_id st) = Some m" using store_okD(7) [OF assms(1)] by auto
  with assms(3) have "r = Ok () \<and> (st' = st \<or> st' = rotate_segment st)"
    by (auto simp: maybe_rotate_active_segment_def split: if_splits)
  with assms(1) rotate_ok [OF assms(1,2)] show "r = Ok ()" "store_ok P Z st'" "content P Z st' = content P Z st"
    "index st' = index st" "blob_threshold st' = blob_threshold st" "logical_name st' = logical_name st"
    "extends P Z st st'" "st_cache st' = st_cache st"
    "active_segment_id st' = active_segment_id st \<or> active_segment_id st' = next_segment_id st"
    by (auto simp: rotate_segment_def Let_def extends_refl)
qed

subsection \<open>Appending to the active segment\<close>

lemma segment_append_batch_placed:
  assumes "aead_ok P" "segment_append_batch P vs s = (Ok results, s')"
    and "length (seg_file s') < 2 ^ 64" "\<forall>v \<in> set vs. length v < 2 ^ 30"
  shows "same_key (seg_enc s') (seg_enc s)" "seg_map s' = seg_map s" "seg_id s' = seg_id s"
    "\<exists>suf. seg_file s' = seg_file s @ suf"
    "list_all2 (\<lambda>v (off, l). placed P Z (seg_enc s) (seg_file s') off l v) vs results"
proof -
  have "same_key (seg_enc s') (seg_enc s) \<and> seg_map s' = seg_map s \<and> seg_id s' = seg_id s \<and>
    (\<exists>suf. seg_file s' = seg_file s @ suf) \<and>
    list_all2 (\<lambda>v (off, l). placed P Z (seg_enc s) (seg_file s') off l v) vs results"
  proof (cases "vs = []")
    case True
    with assms(2) show ?thesis by (auto simp: segment_append_batch_def)
  next
    case False
    with assms(2) obtain buf s1 where 1: "append_values P vs (length (seg_file s)) [] [] s = (Ok (buf, results), s1)"
      "s' = s1\<lparr>seg_file := seg_file s1 @ buf\<rparr>"
      by (auto simp: segment_append_batch_def split: prod.splits result.splits)
    have f: "seg_file s1 = seg_file s" using append_values_file [OF 1(1)] .
    from append_values_placed [OF assms(1) 1(1), of "seg_file s" Z] assms(3,4) 1(2) f show ?thesis
      by (auto simp: same_key_def)
  qed
  then show "same_key (seg_enc s') (seg_enc s)" "seg_map s' = seg_map s" "seg_id s' = seg_id s"
    "\<exists>suf. seg_file s' = seg_file s @ suf"
    "list_all2 (\<lambda>v (off, l). placed P Z (seg_enc s) (seg_file s') off l v) vs results" by auto
qed

definition capacity :: "storage \<Rightarrow> bool" where
  "capacity st \<longleftrightarrow> (\<forall>sid m. segments st sid = Some m \<longrightarrow> length (seg_file (sm_segment m)) < 2 ^ 64)"

lemma append_to_segment_ok:
  assumes "aead_ok P" "store_ok P Z st" "on_segment sid (segment_append_batch P vs) st = (Ok offsets, st')"
    and "capacity st'" "\<forall>v \<in> set vs. length v < 2 ^ 30"
  shows "store_ok P Z st'" "content P Z st' = content P Z st" "index st' = index st"
    "list_all2 (\<lambda>v (off, l). in_segment P Z st' sid off l v) vs offsets"
    "extends P Z st st'" "st_cache st' = st_cache st" "active_segment_id st' = active_segment_id st"
proof -
  from assms(3) obtain m s' where m: "segments st sid = Some m" and
    a: "segment_append_batch P vs ((sm_segment m)\<lparr>seg_enc := st_enc st\<rparr>) = (Ok offsets, s')" and
    st': "st' = st\<lparr>segments := (segments st)(sid \<mapsto> m\<lparr>sm_segment := s'\<rparr>), st_enc := seg_enc s'\<rparr>"
    by (auto simp: on_segment_def Let_def split: option.splits prod.splits)
  have cap: "length (seg_file s') < 2 ^ 64" 
    using assms(4) [unfolded capacity_def st', rule_format, of sid "m\<lparr>sm_segment := s'\<rparr>"] by simp
  note ap = segment_append_batch_placed [OF assms(1) a cap assms(5)]
  have key: "same_key (st_enc st') (st_enc st)" using ap(1) by (simp add: st')
  obtain suf where suf: "seg_file s' = seg_file (sm_segment m) @ suf" using ap(4) by auto
  have metas: "\<forall>sid m. segments st' sid = Some m \<longrightarrow> meta_ok st' sid m"
  proof (intro allI impI)
    fix j m' assume "segments st' j = Some m'"
    moreover have "meta_ok st sid m" using store_okD(2) [OF assms(2)] m by simp
    ultimately show "meta_ok st' j m'"
      using store_okD(2) [OF assms(2)] ap(1-3) suf
      by (cases "j = sid") (auto simp: st' meta_ok_def same_key_def)
  qed
  have grow: "extends P Z st st'"
    using key placed_same_key [OF key, of P Z] m suf
    by (auto simp: extends_def in_segment_def st' intro: placed_append)
  have idx: "index_ok st'" using store_okD(1) [OF assms(2)] index_ok_cong [of st' st] by (simp add: st')
  show "store_ok P Z st'"
    by (rule store_ok_extend [OF assms(2) grow metas idx])
      (use store_okD(6,7) [OF assms(2)] ap(1) in \<open>auto simp: st' same_key_def\<close>)
  show "content P Z st' = content P Z st"
    by (rule content_extend [OF assms(2) grow metas]) (simp add: st')
  show "index st' = index st" "st_cache st' = st_cache st" "active_segment_id st' = active_segment_id st"
    by (simp_all add: st')
  show "extends P Z st st'" by (rule grow)
  have "segments st' sid = Some (m\<lparr>sm_segment := s'\<rparr>)" by (simp add: st')
  with ap(5) [of Z] placed_same_key [OF key, of P Z]
  show "list_all2 (\<lambda>v (off, l). in_segment P Z st' sid off l v) vs offsets"
    by (simp add: in_segment_def)
qed

subsection \<open>The log\<close>

lemma push_record_key: "push_record P op w = (r, w') \<Longrightarrow> same_key (wal_enc w') (wal_enc w)"
  by (auto simp: push_record_def seal_op_def same_key_def encrypt_key split: prod.splits result.splits option.splits)

lemma push_records_key: "push_records P ops w = (r, w') \<Longrightarrow> same_key (wal_enc w') (wal_enc w)"
proof (induction ops arbitrary: w)
  case (Cons op ops)
  then show ?case
    by (auto split: prod.splits result.splits dest!: push_record_key intro: same_key_trans)
qed simp

lemma maybe_sync_enc [simp]: "wal_enc (maybe_sync now c r w) = wal_enc w"
  by (simp add: maybe_sync_def flush_def write_all_def Let_def)

lemma append_batch_key: "append_batch P clock ops rem w = (r, w') \<Longrightarrow> same_key (wal_enc w') (wal_enc w)"
  by (auto simp: append_batch_def split: prod.splits result.splits dest!: push_records_key)

lemma on_wal_ok:
  assumes "store_ok P Z st" "on_wal f st = (r, st')"
    and "\<And>w r w'. f w = (r, w') \<Longrightarrow> same_key (wal_enc w') (wal_enc w)"
  shows "store_ok P Z st'" "content P Z st' = content P Z st"
    "st' = st\<lparr>st_wal := st_wal st', st_enc := st_enc st'\<rparr>" "same_key (st_enc st') (st_enc st)"
    "extends P Z st st'"
proof -
  from assms(2) obtain w where w: "f ((st_wal st)\<lparr>wal_enc := st_enc st\<rparr>) = (r, w)"
    and st': "st' = st\<lparr>st_wal := w, st_enc := wal_enc w\<rparr>"
    by (auto simp: on_wal_def Let_def split: prod.splits)
  have key: "same_key (st_enc st') (st_enc st)" using assms(3) [OF w] by (simp add: st')
  then have metas: "\<forall>sid m. segments st' sid = Some m \<longrightarrow> meta_ok st' sid m"
    using store_okD(2) [OF assms(1)] by (auto simp: st' meta_ok_def same_key_def)
  have grow: "extends P Z st st'"
    using key placed_same_key [OF key, of P Z] by (auto simp: extends_def in_segment_def st')
  have idx: "index_ok st'" using store_okD(1) [OF assms(1)] index_ok_cong [of st' st] by (simp add: st')
  show "store_ok P Z st'"
    by (rule store_ok_extend [OF assms(1) grow metas idx])
      (use store_okD(7) [OF assms(1)] in \<open>auto simp: st'\<close>)
  show "content P Z st' = content P Z st"
    by (rule content_extend [OF assms(1) grow metas]) (simp add: st')
  show "st' = st\<lparr>st_wal := st_wal st', st_enc := st_enc st'\<rparr>" by (simp add: st')
  show "same_key (st_enc st') (st_enc st)" by (rule key)
  show "extends P Z st st'" by (rule grow)
qed

subsection \<open>The index\<close>

lemma apply_pointer_storage [simp]:
  "segments (apply_pointer k p st) = segments st" "st_enc (apply_pointer k p st) = st_enc st"
  "st_wal (apply_pointer k p st) = st_wal st" "st_cache (apply_pointer k p st) = st_cache st"
  "st_blobs (apply_pointer k p st) = st_blobs st" "next_segment_id (apply_pointer k p st) = next_segment_id st"
  "active_segment_id (apply_pointer k p st) = active_segment_id st"
  by (simp_all add: apply_pointer_def set_pointer_def adjust_count_def Let_def split: option.splits)

lemma deferred_storage:
  fixes st :: storage and updates :: "(str \<times> pointer option) list"
  defines "st' \<equiv> foldl (\<lambda>st (key, p). apply_pointer key p st) st updates"
  shows "segments st' = segments st" "st_enc st' = st_enc st" "st_wal st' = st_wal st" "st_cache st' = st_cache st"
    "st_blobs st' = st_blobs st" "next_segment_id st' = next_segment_id st" "active_segment_id st' = active_segment_id st"
  unfolding st'_def by (induction updates arbitrary: st) (simp_all add: split_beta)

lemma update_batch_storage [simp]:
  fixes st :: storage
  shows "segments (update_batch updates st) = segments st" "st_enc (update_batch updates st) = st_enc st"
    "st_wal (update_batch updates st) = st_wal st" "st_cache (update_batch updates st) = st_cache st"
    "st_blobs (update_batch updates st) = st_blobs st"
    "next_segment_id (update_batch updates st) = next_segment_id st"
    "active_segment_id (update_batch updates st) = active_segment_id st"
  using deferred_stats [of "(st, [])" updates] deferred_storage [of st updates]
  by (simp_all add: update_batch_def split_beta flush_pending_sorted_def)

lemma extends_update_batch: "extends P Z st (update_batch updates st)"
  by (simp add: extends_def in_segment_def)

text \<open>An update of the index that belongs to a mutation of the abstract map.\<close>

definition realises :: "prims \<Rightarrow> zstd option \<Rightarrow> storage \<Rightarrow> storage_mutation \<Rightarrow> str \<times> pointer option \<Rightarrow> bool" where
  "realises P Z st mu u \<longleftrightarrow> (case mu of
      MPut k v \<Rightarrow> fst u = k \<and> (snd u = Some (Inlined v) \<or>
        (\<exists>sid off l. snd u = Some (SegmentPtr sid off l) \<and> in_segment P Z st sid off l v))
    | MDelete k \<Rightarrow> fst u = k \<and> (\<exists>t. snd u = Some (Deleted t)))"

lemma realises_value:
  assumes "\<forall>sid m. segments st sid = Some m \<longrightarrow> meta_ok st sid m" "realises P Z st mu (k, p)"
  shows "(\<lambda>j. Option.bind ((idx(k := p)) j) (pointer_content P Z st)) =
    apply_mutation (\<lambda>j. Option.bind (idx j) (pointer_content P Z st)) mu"
  using assms(2) pointer_content_segment [OF assms(1)]
  by (cases mu) (auto simp: realises_def fun_eq_iff pointer_content_def)

lemma realises_fold:
  assumes "\<forall>sid m. segments st sid = Some m \<longrightarrow> meta_ok st sid m" "list_all2 (realises P Z st) muts updates"
  shows "(\<lambda>j. Option.bind (foldl (\<lambda>m (key, p). m(key := p)) idx updates j) (pointer_content P Z st)) =
    foldl apply_mutation (\<lambda>j. Option.bind (idx j) (pointer_content P Z st)) muts"
  using assms(2)
proof (induction muts updates arbitrary: idx rule: list_all2_induct)
  case (Cons mu muts u updates)
  obtain k p where u: "u = (k, p)" by (cases u)
  show ?case
    using Cons.IH [of "idx(k := p)"] realises_value [OF assms(1) Cons.hyps(1) [unfolded u], of idx] by (simp add: u)
qed simp

lemma updates_fold:
  "foldl (\<lambda>m (key, p). m(key := p)) idx updates k = idx k \<or>
    (k, foldl (\<lambda>m (key, p). m(key := p)) idx updates k) \<in> set updates"
  by (induction updates rule: rev_induct) (auto split: prod.splits)

lemma update_batch_ok:
  assumes "store_ok P Z st" "list_all2 (realises P Z st) muts updates"
  shows "store_ok P Z (update_batch updates st)"
    "content P Z (update_batch updates st) = foldl apply_mutation (content P Z st) muts"
proof -
  let ?st = "update_batch updates st"
  note metas = store_okD(2) [OF assms(1)]
  have metas': "\<forall>sid m. segments ?st sid = Some m \<longrightarrow> meta_ok ?st sid m" using metas by (simp add: meta_ok_def)
  have same: "in_segment P Z ?st = in_segment P Z st" by (simp add: in_segment_def fun_eq_iff)
  have grow: "extends P Z st ?st" by (simp add: extends_def same)
  have "index ?st k = index st k \<or> (case index ?st k of
        Some (SegmentPtr sid off l) \<Rightarrow> \<exists>v. in_segment P Z ?st sid off l v
      | Some (BlobPtr off l) \<Rightarrow> st_blobs ?st \<noteq> None | _ \<Rightarrow> True)" for k
  proof (cases "index ?st k = index st k")
    case False
    then have "(k, index ?st k) \<in> set updates" using updates_fold [of "index st" updates k] by (simp add: index_batch)
    then obtain mu where "realises P Z st mu (k, index ?st k)"
      using assms(2) by (metis in_set_conv_nth list_all2_conv_all_nth)
    then show ?thesis by (cases mu) (auto simp: realises_def same)
  qed simp
  then show "store_ok P Z ?st"
    using store_okD(6,7) [OF assms(1)] index_ok_batch [OF store_okD(1) [OF assms(1)]]
    by (intro store_ok_extend [OF assms(1) grow metas']) simp_all
  have "pointer_content P Z ?st = pointer_content P Z st" by (rule pointer_content_cong) simp_all
  then have "content P Z ?st = (\<lambda>j. Option.bind (foldl (\<lambda>m (key, p). m(key := p)) (index st) updates j) (pointer_content P Z st))"
    by (intro ext) (simp add: content_def index_batch)
  moreover have "content P Z st = (\<lambda>j. Option.bind (index st j) (pointer_content P Z st))"
    by (intro ext) (simp add: content_def)
  ultimately show "content P Z ?st = foldl apply_mutation (content P Z st) muts"
    using realises_fold [OF metas assms(2)] by simp
qed

section \<open>Batches refine the abstract map\<close>

fun to_segment :: "nat \<Rightarrow> storage_mutation \<Rightarrow> bool" where
  "to_segment threshold (MPut k v) = (4096 \<le> length v \<and> length v \<le> threshold)"
| "to_segment threshold (MDelete k) = False"

fun mutation_key :: "storage_mutation \<Rightarrow> str" where
  "mutation_key (MPut k v) = k"
| "mutation_key (MDelete k) = k"

fun mutation_size :: "storage_mutation \<Rightarrow> nat" where
  "mutation_size (MPut k v) = length v"
| "mutation_size (MDelete k) = 0"

lemma plan_batch_parts:
  "list_all2 (realises P Z st) (filter (\<lambda>mu. \<not> to_segment threshold mu) muts)
      (bp_updates (plan_batch threshold collection now tx_id muts)) \<and>
    map (\<lambda>(k, v). MPut k v) (bp_segment (plan_batch threshold collection now tx_id muts)) =
      filter (to_segment threshold) muts"
proof (induction muts rule: rev_induct)
  case Nil
  show ?case by (simp add: plan_batch_def)
next
  case (snoc mu muts)
  then show ?case
    by (cases mu) (auto simp: plan_batch_def realises_def intro!: list_all2_appendI)
qed

lemma plan_updates_inline:
  "(k, Some p) \<in> set (bp_updates (plan_batch threshold collection now tx_id muts)) \<Longrightarrow>
    p = Deleted now \<or> (\<exists>v. p = Inlined v)"
proof (induction muts rule: rev_induct)
  case (snoc mu muts)
  then show ?case by (cases mu) (auto simp: plan_batch_def split: if_splits)
qed (simp add: plan_batch_def)

lemma segment_updates_realise:
  assumes "list_all2 (\<lambda>v (off, l). in_segment P Z st sid off l v) (map snd puts) offsets"
  shows "list_all2 (realises P Z st) (map (\<lambda>(k, v). MPut k v) puts) (segment_updates sid puts offsets)"
  using assms
proof (induction puts arbitrary: offsets)
  case Nil
  then show ?case by (simp add: segment_updates_def)
next
  case (Cons kv puts)
  then obtain off l rest where "offsets = (off, l) # rest" by (auto simp: list_all2_Cons1)
  with Cons show ?case by (cases kv) (auto simp: segment_updates_def realises_def)
qed

lemma realises_extends: "extends P Z st st' \<Longrightarrow> realises P Z st mu u \<Longrightarrow> realises P Z st' mu u"
  unfolding extends_def realises_def by (cases mu) (simp_all, blast)

lemma apply_mutation_commute:
  "mutation_key a \<noteq> mutation_key b \<Longrightarrow> apply_mutation (apply_mutation m a) b = apply_mutation (apply_mutation m b) a"
  by (cases a; cases b) (auto simp: fun_upd_twist)

lemma apply_mutation_past:
  "mutation_key mu \<notin> mutation_key ` set xs \<Longrightarrow>
    foldl apply_mutation (apply_mutation m mu) xs = apply_mutation (foldl apply_mutation m xs) mu"
  by (induction xs arbitrary: m) (auto simp: apply_mutation_commute)

lemma apply_mutations_reorder:
  "distinct (map mutation_key xs) \<Longrightarrow>
    foldl apply_mutation m (filter (\<lambda>x. \<not> Q x) xs @ filter Q xs) = foldl apply_mutation m xs"
proof (induction xs arbitrary: m)
  case (Cons x xs)
  then have "mutation_key x \<notin> mutation_key ` set (filter (\<lambda>x. \<not> Q x) xs)" by auto
  with Cons show ?case by (auto simp: apply_mutation_past [symmetric])
qed simp

lemma next_tx_ok:
  assumes "store_ok P Z st"
  shows "store_ok P Z (st\<lparr>next_tx_id := t\<rparr>)" "content P Z (st\<lparr>next_tx_id := t\<rparr>) = content P Z st"
    "extends P Z st (st\<lparr>next_tx_id := t\<rparr>)"
proof -
  let ?st = "st\<lparr>next_tx_id := t\<rparr>"
  have grow: "extends P Z st ?st" by (simp add: extends_def in_segment_def)
  have metas: "\<forall>sid m. segments ?st sid = Some m \<longrightarrow> meta_ok ?st sid m"
    using store_okD(2) [OF assms] by (simp add: meta_ok_def)
  show "store_ok P Z ?st"
    using store_okD [OF assms] index_ok_cong [of ?st st]
    by (intro store_ok_extend [OF assms grow metas]) simp_all
  show "content P Z ?st = content P Z st" by (rule content_extend [OF assms grow metas]) simp
  show "extends P Z st ?st" by (rule grow)
qed

text \<open>The stages of a batch that succeeds.\<close>

lemma apply_batch_stages:
  assumes "apply_batch P now clock muts is_remote st = (Ok r, st')" "muts \<noteq> []"
  obtains st1 st2 st3 plan offsets u where
    "maybe_rotate_active_segment (st\<lparr>next_tx_id := next_tx_id st + 1\<rparr>) = (Ok (), st1)"
    "plan = plan_batch (blob_threshold st1) (logical_name st1) now (next_tx_id st) muts"
    "(if bp_segment plan = [] then (Ok [], st1)
      else on_segment (active_segment_id st1) (segment_append_batch P (map snd (bp_segment plan))) st1) = (Ok offsets, st2)"
    "on_wal (append_batch P clock (bp_ops plan @ segment_ops (active_segment_id st1) (bp_segment plan) offsets @
      [CommitTx (next_tx_id st)]) is_remote) st2 = (Ok u, st3)"
    "r = (bp_blobs plan, bp_ops plan @ segment_ops (active_segment_id st1) (bp_segment plan) offsets @ [CommitTx (next_tx_id st)])"
    "st' = update_batch (bp_updates plan @ segment_updates (active_segment_id st1) (bp_segment plan) offsets) st3"
  using assms by (auto simp: apply_batch_def Let_def split: prod.splits result.splits)

lemma plan_sizes:
  assumes "\<forall>mu \<in> set muts. mutation_size mu < n"
  shows "\<forall>v \<in> set (map snd (bp_segment (plan_batch threshold collection now tx_id muts))). length v < n"
proof
  let ?puts = "bp_segment (plan_batch threshold collection now tx_id muts)"
  fix v assume "v \<in> set (map snd ?puts)"
  then obtain k where "(k, v) \<in> set ?puts" by auto
  then have "MPut k v \<in> set (map (\<lambda>(k, v). MPut k v) ?puts)" by (force simp: image_iff)
  then have "MPut k v \<in> set (filter (to_segment threshold) muts)"
    using conjunct2 [OF plan_batch_parts] by metis
  then show "length v < n" using assms by fastforce
qed

lemma apply_batch_content:
  assumes "aead_ok P" "store_ok P Z st" "apply_batch P now clock muts is_remote st = (Ok r, st')"
    and "next_segment_id st < 0xFFFFFFFFFFFFFFFF" "capacity st'" "\<forall>mu \<in> set muts. mutation_size mu < 2 ^ 30"
  shows "store_ok P Z st' \<and>
    content P Z st' = foldl apply_mutation (content P Z st)
      (filter (\<lambda>mu. \<not> to_segment (blob_threshold st) mu) muts @ filter (to_segment (blob_threshold st)) muts) \<and>
    (distinct (map mutation_key muts) \<longrightarrow> content P Z st' = foldl apply_mutation (content P Z st) muts) \<and>
    extends P Z st st' \<and> st_cache st' = st_cache st \<and>
    (active_segment_id st' = active_segment_id st \<or> active_segment_id st' = next_segment_id st) \<and>
    (\<forall>k sid off l. index st' k = Some (SegmentPtr sid off l) \<longrightarrow> index st' k = index st k \<or> sid = active_segment_id st')"
proof (cases "muts = []")
  case True
  with assms(2,3) show ?thesis by (simp add: apply_batch_def extends_refl)
next
  case False
  from assms(3) False obtain st1 st2 st3 plan offsets u where
    1: "maybe_rotate_active_segment (st\<lparr>next_tx_id := next_tx_id st + 1\<rparr>) = (Ok (), st1)" and
    plan: "plan = plan_batch (blob_threshold st1) (logical_name st1) now (next_tx_id st) muts" and
    2: "(if bp_segment plan = [] then (Ok [], st1) else on_segment (active_segment_id st1)
      (segment_append_batch P (map snd (bp_segment plan))) st1) = (Ok offsets, st2)" and
    3: "on_wal (append_batch P clock (bp_ops plan @ segment_ops (active_segment_id st1) (bp_segment plan) offsets @
      [CommitTx (next_tx_id st)]) is_remote) st2 = (Ok u, st3)" and
    st': "st' = update_batch (bp_updates plan @ segment_updates (active_segment_id st1) (bp_segment plan) offsets) st3"
    by (rule apply_batch_stages)
  note tx = next_tx_ok [OF assms(2), of "next_tx_id st + 1"]
  have "next_segment_id (st\<lparr>next_tx_id := next_tx_id st + 1\<rparr>) < 0xFFFFFFFFFFFFFFFF" using assms(4) by simp
  note rot = maybe_rotate_ok [OF tx(1) this 1]
  have seg: "segments st3 = segments st2" "st_cache st3 = st_cache st2" "active_segment_id st3 = active_segment_id st2"
    "index st3 = index st2" using 3 by (auto simp: on_wal_def Let_def split: prod.splits)
  have cap: "capacity st2" using assms(5) seg by (simp add: capacity_def st')
  have sizes: "\<forall>v \<in> set (map snd (bp_segment plan)). length v < 2 ^ 30"
    unfolding plan by (rule plan_sizes [OF assms(6)])
  have s2: "store_ok P Z st2" "content P Z st2 = content P Z st" "extends P Z st1 st2" "st_cache st2 = st_cache st1"
    "active_segment_id st2 = active_segment_id st1" "index st2 = index st1"
    "list_all2 (\<lambda>v (off, l). in_segment P Z st2 (active_segment_id st1) off l v) (map snd (bp_segment plan)) offsets"
    using 2 rot(2,3) tx(2) append_to_segment_ok [OF assms(1) rot(2) _ cap sizes, of "active_segment_id st1" offsets]
    by (auto simp: extends_refl split: if_splits)
  note wal = on_wal_ok [OF s2(1) 3 append_batch_key]
  have "list_all2 (realises P Z st2) (filter (\<lambda>mu. \<not> to_segment (blob_threshold st) mu) muts @ filter (to_segment (blob_threshold st)) muts)
      (bp_updates plan @ segment_updates (active_segment_id st1) (bp_segment plan) offsets)"
    using plan_batch_parts [of P Z st2 "blob_threshold st1" muts "logical_name st1" now "next_tx_id st"]
      segment_updates_realise [OF s2(7)] rot(5) unfolding plan [symmetric] by (intro list_all2_appendI) simp_all
  then have "list_all2 (realises P Z st3) (filter (\<lambda>mu. \<not> to_segment (blob_threshold st) mu) muts @ filter (to_segment (blob_threshold st)) muts)
      (bp_updates plan @ segment_updates (active_segment_id st1) (bp_segment plan) offsets)"
    by (rule list_all2_mono) (rule realises_extends [OF wal(5)])
  note ub = update_batch_ok [OF wal(1) this, folded st']
  have grow: "extends P Z st st'"
    unfolding st' by (rule extends_trans [OF tx(3) extends_trans [OF rot(7) extends_trans [OF s2(3)
      extends_trans [OF wal(5) extends_update_batch]]]])
  have keep: "st_cache st' = st_cache st" "active_segment_id st' = active_segment_id st1"
    using rot(8) s2(4,5) seg by (simp_all add: st')
  have idx: "index st3 = index st" using rot(4) s2(6) seg by simp
  have "index st' k = index st k \<or> sid = active_segment_id st1" if "index st' k = Some (SegmentPtr sid off l)" for k sid off l
    using updates_fold [of "index st" "bp_updates plan @ segment_updates (active_segment_id st1) (bp_segment plan) offsets" k]
      plan_updates_inline [of k "SegmentPtr sid off l" "blob_threshold st1" "logical_name st1" now "next_tx_id st" muts] that
    by (auto simp: st' index_batch idx plan segment_updates_def dest!: set_zip_leftD)
  then show ?thesis using ub wal(2) s2(2) apply_mutations_reorder [of muts] grow keep rot(9) by auto
qed

text \<open>Nothing fails when no key is configured or the cipher never fails.\<close>

definition seals :: "prims \<Rightarrow> enc_ctx option \<Rightarrow> bool" where
  "seals P enc \<longleftrightarrow> enc = None \<or> (\<forall>key nonce pt. aead_seal P key nonce pt \<noteq> None)"

lemma encrypt_seals: "seals P (Some c) \<Longrightarrow> \<exists>ct c'. encrypt P c pt = (Ok ct, c')"
  by (auto simp: seals_def encrypt_def Let_def split: option.splits)

lemma seal_seals:
  assumes "seals P enc"
  shows "\<exists>payload enc'. seal_op P enc op = (Ok payload, enc') \<and> seals P enc'"
    "\<exists>payload enc'. seal_value P enc v = (Ok payload, enc') \<and> seals P enc'"
proof -
  have "\<exists>payload enc'. (case enc of None \<Rightarrow> (Ok pt, None) | Some c \<Rightarrow> (let (r, c') = encrypt P c pt in (r, Some c'))) =
      (Ok payload, enc') \<and> seals P enc'" for pt
  proof (cases enc)
    case (Some c)
    with assms encrypt_seals [of P c pt] obtain ct c' where "encrypt P c pt = (Ok ct, c')" by blast
    with Some assms show ?thesis by (simp add: seals_def)
  qed (simp add: seals_def)
  then show "\<exists>payload enc'. seal_op P enc op = (Ok payload, enc') \<and> seals P enc'"
    "\<exists>payload enc'. seal_value P enc v = (Ok payload, enc') \<and> seals P enc'"
    by (simp_all add: seal_op_def seal_value_def)
qed

lemma push_record_seals:
  assumes "seals P (wal_enc w)"
  shows "\<exists>w'. push_record P op w = (Ok (), w') \<and> seals P (wal_enc w')"
proof -
  from seal_seals(1) [OF assms, of op] obtain payload enc' where
    "seal_op P (wal_enc w) op = (Ok payload, enc')" "seals P enc'" by blast
  then show ?thesis by (simp add: push_record_def)
qed

lemma push_records_seals: "seals P (wal_enc w) \<Longrightarrow> \<exists>w'. push_records P ops w = (Ok (), w')"
proof (induction ops arbitrary: w)
  case (Cons op ops)
  from push_record_seals [OF Cons.prems, of op] obtain w' where
    "push_record P op w = (Ok (), w')" "seals P (wal_enc w')" by blast
  with Cons.IH [of w'] show ?case by simp
qed simp

lemma append_values_seals:
  "seals P (seg_enc s) \<Longrightarrow> \<exists>r s'. append_values P vs off buf results s = (Ok r, s') \<and> seals P (seg_enc s')"
proof (induction vs arbitrary: off buf results s)
  case (Cons v vs)
  from seal_seals(2) [OF Cons.prems, of v] obtain payload enc' where
    sv: "seal_value P (seg_enc s) v = (Ok payload, enc')" "seals P enc'" by blast
  let ?s = "s\<lparr>seg_enc := enc', current_size := current_size s + (4 + length payload)\<rparr>"
  from Cons.IH [of ?s] sv show ?case by simp
qed simp

lemma segment_append_seals:
  assumes "seals P (seg_enc s)"
  shows "\<exists>r s'. segment_append_batch P vs s = (Ok r, s') \<and> seals P (seg_enc s')"
proof -
  from append_values_seals [OF assms, of vs "length (seg_file s)" "[]" "[]"] obtain buf results s' where
    "append_values P vs (length (seg_file s)) [] [] s = (Ok (buf, results), s')" "seals P (seg_enc s')" by fastforce
  with assms show ?thesis by (simp add: segment_append_batch_def)
qed

lemma apply_batch_total:
  assumes "segments st (active_segment_id st) \<noteq> None" "seals P (st_enc st)"
  shows "\<exists>r st'. apply_batch P now clock muts is_remote st = (Ok r, st')"
proof -
  let ?st0 = "st\<lparr>next_tx_id := next_tx_id st + 1\<rparr>"
  obtain st1 where 1: "maybe_rotate_active_segment ?st0 = (Ok (), st1)" "segments st1 (active_segment_id st1) \<noteq> None"
    "st_enc st1 = st_enc st"
  proof -
    obtain m where m: "segments st (active_segment_id st) = Some m" using assms(1) by blast
    show ?thesis
    proof (cases "current_size (sm_segment m) < max (compaction_threshold st) (1024 * 1024)")
      case True
      with m that [of ?st0] show ?thesis by (simp add: maybe_rotate_active_segment_def)
    next
      case False
      with m that [of "rotate_segment ?st0"] show ?thesis
        by (simp add: maybe_rotate_active_segment_def rotate_segment_def Let_def)
    qed
  qed
  define plan where "plan = plan_batch (blob_threshold st1) (logical_name st1) now (next_tx_id st) muts"
  obtain offsets st2 where 2: "(if bp_segment plan = [] then (Ok [], st1) else on_segment (active_segment_id st1)
      (segment_append_batch P (map snd (bp_segment plan))) st1) = (Ok offsets, st2)" "seals P (st_enc st2)"
  proof (cases "bp_segment plan = []")
    case True
    with that 1(3) assms(2) show ?thesis by simp
  next
    case False
    obtain m where m: "segments st1 (active_segment_id st1) = Some m" using 1(2) by blast
    have "seals P (seg_enc ((sm_segment m)\<lparr>seg_enc := st_enc st1\<rparr>))" using assms(2) 1(3) by simp
    from segment_append_seals [OF this, of "map snd (bp_segment plan)"] obtain offs s' where
      "segment_append_batch P (map snd (bp_segment plan)) ((sm_segment m)\<lparr>seg_enc := st_enc st1\<rparr>) = (Ok offs, s')"
      "seals P (seg_enc s')" by blast
    with that False m show ?thesis by (simp add: on_segment_def)
  qed
  have wal: "\<exists>st3. on_wal (append_batch P clock ops is_remote) st2 = (Ok (), st3)" for ops
  proof -
    have "seals P (wal_enc ((st_wal st2)\<lparr>wal_enc := st_enc st2\<rparr>))" using 2(2) by simp
    from push_records_seals [OF this, of ops] obtain w' where
      "push_records P ops ((st_wal st2)\<lparr>wal_enc := st_enc st2\<rparr>) = (Ok (), w')" by blast
    then show ?thesis by (simp add: on_wal_def append_batch_def)
  qed
  obtain st3 where "on_wal (append_batch P clock (bp_ops plan @ segment_ops (active_segment_id st1) (bp_segment plan) offsets @
      [CommitTx (next_tx_id st)]) is_remote) st2 = (Ok (), st3)" using wal by blast
  with 1(1) 2(1) show ?thesis
    unfolding plan_def
    by (cases "muts = []"; cases "bp_segment (plan_batch (blob_threshold st1) (logical_name st1) now (next_tx_id st) muts) = []")
      (auto simp: apply_batch_def Let_def)
qed


text \<open>C8. A read returns what the abstract map holds, through the page cache as without it, and with the
  shared and the owned variant; and it changes neither the map nor the invariant.\<close>

theorem storage_reads_refine:
  assumes "store_ok P Z st"
  shows "fst (storage_get P Z k st) = Ok (content P Z st k) \<and>
    fst (storage_get_shared P Z k st) = Ok (content P Z st k) \<and>
    read_pointer_uncached_by_key P Z k st = Ok (content P Z st k) \<and>
    store_ok P Z (snd (storage_get P Z k st)) \<and> content P Z (snd (storage_get P Z k st)) = content P Z st"
proof -
  have "storage_get_shared P Z k st = storage_get P Z k st"
    by (auto simp: storage_get_shared_def storage_get_def read_pointer_shared_def read_pointer_internal_def
        split: option.splits pointer.splits)
  moreover have "read_pointer_uncached_by_key P Z k st = Ok (content P Z st k)"
    using read_pointer_content(1) [OF assms _ store_okD(5) [OF assms]]
    by (auto simp: read_pointer_uncached_by_key_def content_def split: option.splits)
  ultimately show ?thesis using storage_get_content [OF assms] by simp
qed

text \<open>C20. A batch never gets stuck: when no key is configured or the cipher does not fail, and the active
  segment is there, every batch succeeds.\<close>

theorem apply_batch_succeeds:
  assumes "segments st (active_segment_id st) \<noteq> None" "seals P (st_enc st)"
  shows "\<exists>r st'. apply_batch P now clock muts is_remote st = (Ok r, st')"
  by (rule apply_batch_total [OF assms])

text \<open>The order of a batch is lost across the size classes: a value for the segment survives its deletion
  later in the same batch.\<close>

lemma batch_order_lost:
  assumes "aead_ok P" "store_ok P Z st" "apply_batch P now clock [MPut k v, MDelete k] is_remote st = (Ok r, st')"
    and "next_segment_id st < 0xFFFFFFFFFFFFFFFF" "capacity st'" "4096 \<le> length v" "length v \<le> blob_threshold st"
    and "length v < 2 ^ 30"
  shows "content P Z st' k = Some v"
  using apply_batch_content [OF assms(1-5)] assms(6-8) by simp

section \<open>Sample\<close>

definition sample_store :: storage where
  "sample_store =
    \<lparr>index = [[97] \<mapsto> SegmentPtr 0 0 2], sorted_keys = [[97]], collection_counts = [[120] \<mapsto> 1],
     inlined_bytes = 0, logical_name = [120],
     segments = [0 \<mapsto> \<lparr>sm_level = 0, sm_segment = segment_open (u32_le 2 @ [8, 9]) 0 None\<rparr>],
     active_segment_id = 0, next_segment_id = 1, st_wal = wal_open [] Always 1 None 0 0, next_tx_id = 1,
     compaction_threshold = 0, st_enc = None, max_inlined_bytes = 100, blob_threshold = 16384,
     use_compression = False, st_cache = cache_new 64, st_blobs = None, blob_flush_queue = []\<rparr>"

lemma sample_store_fields [simp]:
  "segments sample_store = [0 \<mapsto> \<lparr>sm_level = 0, sm_segment = segment_open (u32_le 2 @ [8, 9]) 0 None\<rparr>]"
  "active_segment_id sample_store = 0" "next_segment_id sample_store = 1" "st_enc sample_store = None"
  "index sample_store = [[97] \<mapsto> SegmentPtr 0 0 2]" "blob_threshold sample_store = 16384"
  "wal_enc (st_wal sample_store) = None" "st_cache sample_store = cache_new 64"
  "compaction_threshold sample_store = 0"
  by (simp_all add: sample_store_def wal_open_def)

lemma sample_placed: "in_segment sample_prims Z sample_store 0 0 2 [8, 9]"
proof -
  have "placed sample_prims Z None ([] @ u32_le 2 @ [8, 9] @ []) (of_nat (length ([] :: bytes))) 2 [8, 9]"
    using stored_small [of 2] by (intro placed_at) (simp_all add: open_record_def)
  then show ?thesis by (simp add: in_segment_def segment_open_def)
qed

lemma sample_store_ok: "store_ok sample_prims Z sample_store"
proof -
  have live: "live_keys sample_store = {[97]}"
    by (auto simp: live_keys_def is_live_def live_pointer_def is_tombstone_def split: if_splits)
  have "bytes_total (index sample_store) = 0" by (simp add: bytes_total_def pointer_bytes_def)
  then have "index_ok sample_store"
    using live by (simp add: index_ok_def stats_ok_def view_ok_def) (simp add: sample_store_def)
  moreover have "pages.holds_only R (cache_new 64)" for R by (simp add: pages.holds_only_def cache_new_def)
  ultimately show ?thesis
    using sample_placed [of Z]
    by (auto simp: store_ok_def meta_ok_def segment_open_def)
qed

theorem storage_reads_refine_witness:
  "fst (storage_get sample_prims None [97] sample_store) = Ok (Some [8, 9])"
proof -
  have "content sample_prims None sample_store [97] = Some [8, 9]"
    using pointer_content_segment [OF store_okD(2) [OF sample_store_ok] sample_placed]
    by (simp add: content_def)
  with storage_reads_refine [OF sample_store_ok, of None "[97]"] show ?thesis by simp
qed

theorem apply_batch_succeeds_witness:
  "\<exists>r st'. apply_batch sample_prims 7 0 [MPut [98] [1, 2], MDelete [97]] False sample_store = (Ok r, st')"
  by (rule apply_batch_succeeds) (simp_all add: seals_def)

lemma sample_batch_segments:
  assumes "apply_batch sample_prims 7 0 [MPut [98] [1, 2], MDelete [97]] False sample_store = (Ok r, st')"
  shows "segments st' = segments sample_store"
  using assms
  by (auto simp: apply_batch_def maybe_rotate_active_segment_def plan_batch_def segment_open_def on_wal_def Let_def
      split: prod.splits result.splits)


end
