(* ===== verification/Storage_Maintenance.thy ===== *)
theory Storage_Maintenance
  imports Storage_Refinement
begin

text \<open>
  The maintenance of the storage engine (\<open>src/storage/engine.rs\<close>): spilling inlined values into a
  segment, full compaction with cooperative cancellation, the three phases of tier compaction, draining
  the blob queue, the background tick, and opening a directory. The answer of the cancellation flag at
  the \<open>i\<close>-th check of a call is \<open>cancel i\<close>; without a token it is always \<open>False\<close>.
\<close>

section \<open>Spilling inlined values\<close>

definition inlined_entries :: "visit \<Rightarrow> storage \<Rightarrow> (str \<times> bytes) list" where
  "inlined_entries visit st =
    List.map_filter (\<lambda>k. case index st k of Some (Inlined d) \<Rightarrow> Some (k, d) | _ \<Rightarrow> None) (visit (index st))"

text \<open>Opening the target segment under the next identifier and writing the entries to it.\<close>

definition write_target :: "prims \<Rightarrow> zstd option \<Rightarrow> (str \<times> bytes) list \<Rightarrow> storage \<Rightarrow>
    unit result \<times> (str \<rightharpoonup> pointer) \<times> segment \<times> u64 \<times> storage" where
  "write_target P Z entries st =
    (let target_id = next_segment_id st;
         st1 = st\<lparr>next_segment_id := target_id + 1\<rparr>;
         (r, ptrs, target) = compact_segment P Z entries target_id (use_compression st1) (segment_open [] target_id (st_enc st1))
     in (r, ptrs, target, target_id, st1\<lparr>st_enc := seg_enc target\<rparr>))"

definition checkpoint_inlined_data :: "prims \<Rightarrow> zstd option \<Rightarrow> visit \<Rightarrow> nat \<Rightarrow> storage \<Rightarrow> bool result \<times> storage" where
  "checkpoint_inlined_data P Z visit clock st =
    (if inlined_bytes st < max_inlined_bytes st then (Ok False, st)
     else let to_flush = inlined_entries visit st in
       if to_flush = [] then (Ok False, st)
       else let (r, ptrs, target, target_id, st1) = write_target P Z to_flush st in
         (case r of
            Err e \<Rightarrow> (Err e, st1)
          | Panic \<Rightarrow> (Panic, st1)
          | Ok _ \<Rightarrow>
              let st2 = foldl (\<lambda>st k. update_index_entry k (ptrs k) st) st1 (visit ptrs);
                  st3 = st2\<lparr>segments := (segments st2)(target_id \<mapsto> \<lparr>sm_level = 0, sm_segment = target\<rparr>)\<rparr>
              in (case rewrite_wal_snapshot P visit clock st3 of
                    (Ok _, st4) \<Rightarrow> (Ok True, st4)
                  | (Err e, st4) \<Rightarrow> (Err e, st4)
                  | (Panic, st4) \<Rightarrow> (Panic, st4))))"

section \<open>Full compaction\<close>

text \<open>The values behind the pointers into the chosen segments, in the order the keys are visited.\<close>

fun collect_entries :: "prims \<Rightarrow> zstd option \<Rightarrow> (nat \<Rightarrow> bool) \<Rightarrow> (u64 \<Rightarrow> bool) \<Rightarrow> storage \<Rightarrow> str list \<Rightarrow> nat \<Rightarrow> page_cache \<Rightarrow>
    (str \<times> bytes) list result \<times> page_cache" where
  "collect_entries P Z cancel chosen st [] i cache = (Ok [], cache)"
| "collect_entries P Z cancel chosen st (k # ks) i cache =
    (if cancel i then (Err Cancelled, cache)
     else case index st k of
         Some (SegmentPtr sid off len) \<Rightarrow>
           if chosen sid then
             (case read_pointer_internal P Z st (SegmentPtr sid off len) True cache of
                (Ok v, cache') \<Rightarrow>
                  let (r, cache'') = collect_entries P Z cancel chosen st ks (Suc i) cache'
                  in (and_then r (\<lambda>es. Ok (case v of None \<Rightarrow> es | Some bs \<Rightarrow> (k, bs) # es)), cache'')
              | (Err e, cache') \<Rightarrow> (Err e, cache')
              | (Panic, cache') \<Rightarrow> (Panic, cache'))
           else collect_entries P Z cancel chosen st ks (Suc i) cache
       | _ \<Rightarrow> collect_entries P Z cancel chosen st ks (Suc i) cache)"

definition immutable_ids :: "seg_visit \<Rightarrow> storage \<Rightarrow> u64 list" where
  "immutable_ids seg_visit st = filter (\<lambda>sid. sid \<noteq> active_segment_id st) (seg_visit (segments st))"

definition remove_segments :: "u64 list \<Rightarrow> (u64 \<rightharpoonup> seg_meta) \<Rightarrow> (u64 \<rightharpoonup> seg_meta)" where
  "remove_segments ids m = fold (\<lambda>sid m. m(sid := None)) ids m"

definition forced_rotation :: "storage \<Rightarrow> storage" where
  "forced_rotation st =
    (case segments st (active_segment_id st) of
       Some m \<Rightarrow> if 0 < current_size (sm_segment m) then rotate_segment st else st
     | None \<Rightarrow> st)"

text \<open>The swap at the end: the old segments go, the merged one and its pointers come in.\<close>

definition swap_in :: "u32 \<Rightarrow> u64 list \<Rightarrow> u64 \<Rightarrow> segment \<Rightarrow> (str \<rightharpoonup> pointer) \<Rightarrow> storage \<Rightarrow> storage" where
  "swap_in level old target_id target ptrs st =
    st\<lparr>segments := (remove_segments old (segments st))(target_id \<mapsto> \<lparr>sm_level = level, sm_segment = target\<rparr>),
       index := index st ++ ptrs\<rparr>"

definition compact_with_cancel ::
  "prims \<Rightarrow> zstd option \<Rightarrow> visit \<Rightarrow> seg_visit \<Rightarrow> (nat \<Rightarrow> bool) \<Rightarrow> nat \<Rightarrow> storage \<Rightarrow> unit result \<times> storage" where
  "compact_with_cancel P Z visit seg_visit cancel clock st =
    (if cancel 0 then (Err Cancelled, st)
     else let st1 = forced_rotation st in
       if cancel 1 then (Err Cancelled, st1)
       else let ids = immutable_ids seg_visit st1 in
         if ids = [] then
           (if wal_snapshot_worthwhile st1 then rewrite_wal_snapshot P visit clock st1 else (Ok (), st1))
         else let keys = visit (index st1);
                  (r, cache) = collect_entries P Z cancel (\<lambda>sid. sid \<in> set ids) st1 keys 2 (st_cache st1);
                  st2 = st1\<lparr>st_cache := cache\<rparr>
              in (case r of
                    Err e \<Rightarrow> (Err e, st2)
                  | Panic \<Rightarrow> (Panic, st2)
                  | Ok entries \<Rightarrow>
                      if cancel (2 + length keys) then (Err Cancelled, st2)
                      else let (r', ptrs, target, target_id, st3) = write_target P Z entries st2 in
                        (case r' of
                           Err e \<Rightarrow> (Err e, st3)
                         | Panic \<Rightarrow> (Panic, st3)
                         | Ok _ \<Rightarrow>
                             if cancel (3 + length keys) then (Err Cancelled, st3)
                             else rewrite_wal_snapshot P visit clock (swap_in 1 ids target_id target ptrs st3))))"

section \<open>Tier compaction\<close>

text \<open>The phases run under separate locks. \<open>levels\<close> is the order in which the table of levels is visited.\<close>

record tier_prep =
  tp_level :: u32
  tp_s1 :: u64
  tp_s2 :: u64
  tp_target :: u64

definition tier_candidate :: "seg_visit \<Rightarrow> u32 list \<Rightarrow> storage \<Rightarrow> (u32 \<times> u64 \<times> u64) option" where
  "tier_candidate seg_visit levels st =
    (let by_level = (\<lambda>level. filter (\<lambda>sid. map_option sm_level (segments st sid) = Some level) (immutable_ids seg_visit st))
     in map_option (\<lambda>level. (level, by_level level ! 0, by_level level ! 1))
          (find (\<lambda>level. 2 \<le> length (by_level level)) levels))"

definition tiers_prepare :: "seg_visit \<Rightarrow> u32 list \<Rightarrow> storage \<Rightarrow> tier_prep option \<times> storage" where
  "tiers_prepare seg_visit levels st =
    (case tier_candidate seg_visit levels st of
       None \<Rightarrow> (None, st)
     | Some (level, s1, s2) \<Rightarrow>
         (Some \<lparr>tp_level = level, tp_s1 = s1, tp_s2 = s2, tp_target = next_segment_id st\<rparr>,
          st\<lparr>next_segment_id := next_segment_id st + 1\<rparr>))"

definition tiers_collect :: "prims \<Rightarrow> zstd option \<Rightarrow> visit \<Rightarrow> tier_prep \<Rightarrow> storage \<Rightarrow>
    (str \<times> bytes) list result \<times> storage" where
  "tiers_collect P Z visit prep st =
    (let (r, cache) = collect_entries P Z (\<lambda>_. False) (\<lambda>sid. sid = tp_s1 prep \<or> sid = tp_s2 prep) st
                        (visit (index st)) 0 (st_cache st)
     in (r, st\<lparr>st_cache := cache\<rparr>))"

definition tiers_merge :: "prims \<Rightarrow> zstd option \<Rightarrow> tier_prep \<Rightarrow> (str \<times> bytes) list \<Rightarrow> storage \<Rightarrow>
    unit result \<times> (str \<rightharpoonup> pointer) \<times> segment \<times> storage" where
  "tiers_merge P Z prep entries st =
    (let (r, ptrs, target) = compact_segment P Z entries (tp_target prep) (use_compression st)
                               (segment_open [] (tp_target prep) (st_enc st))
     in (r, ptrs, target, st\<lparr>st_enc := seg_enc target\<rparr>))"

text \<open>Only entries whose live pointer still addresses a merged segment are swapped.\<close>

definition still_merged :: "tier_prep \<Rightarrow> storage \<Rightarrow> str \<Rightarrow> bool" where
  "still_merged prep st k =
    (case index st k of
       Some (SegmentPtr sid _ _) \<Rightarrow> sid = tp_s1 prep \<or> sid = tp_s2 prep
     | _ \<Rightarrow> False)"

definition sources_ok :: "tier_prep \<Rightarrow> storage \<Rightarrow> bool" where
  "sources_ok prep st \<longleftrightarrow>
    list_all (\<lambda>sid. map_option sm_level (segments st sid) = Some (tp_level prep)) [tp_s1 prep, tp_s2 prep]"

definition tiers_commit :: "prims \<Rightarrow> visit \<Rightarrow> nat \<Rightarrow> tier_prep \<Rightarrow> (str \<rightharpoonup> pointer) \<Rightarrow> segment \<Rightarrow> storage \<Rightarrow>
    bool result \<times> storage" where
  "tiers_commit P visit clock prep ptrs target st =
    (if \<not> sources_ok prep st then (Ok False, st)
     else let swapped = (\<lambda>k. if still_merged prep st k then ptrs k else None);
              st1 = swap_in (tp_level prep + 1) [tp_s1 prep, tp_s2 prep] (tp_target prep) target swapped st
          in (case rewrite_wal_snapshot P visit clock st1 of
                (Ok _, st2) \<Rightarrow> (Ok True, st2\<lparr>st_wal := flush clock (st_wal st2)\<rparr>)
              | (Err e, st2) \<Rightarrow> (Err e, st2)
              | (Panic, st2) \<Rightarrow> (Panic, st2)))"

text \<open>The whole pass when nothing runs between the phases.\<close>

definition try_compact_tiers :: "prims \<Rightarrow> zstd option \<Rightarrow> visit \<Rightarrow> seg_visit \<Rightarrow> u32 list \<Rightarrow> nat \<Rightarrow> storage \<Rightarrow> bool result \<times> storage" where
  "try_compact_tiers P Z visit seg_visit levels clock st =
    (case tiers_prepare seg_visit levels st of
       (None, st1) \<Rightarrow> (Ok False, st1)
     | (Some prep, st1) \<Rightarrow>
         (case tiers_collect P Z visit prep st1 of
            (Err e, st2) \<Rightarrow> (Err e, st2)
          | (Panic, st2) \<Rightarrow> (Panic, st2)
          | (Ok entries, st2) \<Rightarrow>
              let (r, ptrs, target, st3) = tiers_merge P Z prep entries st2
              in (case r of
                    Err e \<Rightarrow> (Err e, st3)
                  | Panic \<Rightarrow> (Panic, st3)
                  | Ok _ \<Rightarrow> tiers_commit P visit clock prep ptrs target st3)))"

section \<open>Blob queue and background tick\<close>

text \<open>A work item writes its bytes; the last one of a document then swaps the pending document for its
  skeleton, unless the document has changed since.\<close>

definition drain_work :: "blob_work \<Rightarrow> storage \<Rightarrow> storage" where
  "drain_work work st =
    (case work of
       PutWork _ _ _ \<Rightarrow> st
     | PutRaw w \<Rightarrow>
         let st1 = st\<lparr>st_blobs := map_option (blob_write_at (pr_data w) (pr_offset w)) (st_blobs st)\<rparr> in
         if pr_skeleton w \<noteq> [] then
           (case index st1 (pr_key w) of
              Some (BlobPending d) \<Rightarrow>
                if doc_time d = pr_timestamp w
                then update_index_entry (pr_key w) (Some (Inlined (pr_skeleton w))) st1 else st1
            | _ \<Rightarrow> st1)
         else st1)"

definition drain_blob_queue :: "storage \<Rightarrow> storage" where
  "drain_blob_queue st =
    (case st_blobs st of
       None \<Rightarrow> st
     | Some _ \<Rightarrow> foldl (\<lambda>st work. drain_work work st) (st\<lparr>blob_flush_queue := []\<rparr>) (blob_flush_queue st))"

definition flush_all :: "nat \<Rightarrow> storage \<Rightarrow> storage" where
  "flush_all clock st = (let st' = drain_blob_queue st in st'\<lparr>st_wal := flush clock (st_wal st')\<rparr>)"

definition run_background_maintenance :: "prims \<Rightarrow> zstd option \<Rightarrow> visit \<Rightarrow> nat \<Rightarrow> bool \<Rightarrow> storage \<Rightarrow> unit result \<times> storage" where
  "run_background_maintenance P Z visit clock defer_heavy st =
    (let st1 = (if should_tick_flush clock (st_wal st) then st\<lparr>st_wal := flush clock (st_wal st)\<rparr> else st) in
     case maybe_rotate_active_segment st1 of
       (Ok _, st2) \<Rightarrow>
         if defer_heavy then (Ok (), st2)
         else (case checkpoint_inlined_data P Z visit clock st2 of
                 (Ok _, st3) \<Rightarrow> (Ok (), st3)
               | (Err e, st3) \<Rightarrow> (Err e, st3)
               | (Panic, st3) \<Rightarrow> (Panic, st3))
     | (Err e, st2) \<Rightarrow> (Err e, st2)
     | (Panic, st2) \<Rightarrow> (Panic, st2))"

end
