(* ===== verification/Storage_Compaction.thy ===== *)
theory Storage_Compaction
  imports Storage_Maintenance
begin

text \<open>
  Maintenance changes no value. Collecting the entries of the chosen segments, rewriting them into a new
  segment and swapping it in leaves the abstract map of the storage engine as it was, for full
  compaction with cancellation at any check, for the spill of inlined values, and for a tier compaction
  whose phases are interleaved with other batches.
\<close>

section \<open>Collecting\<close>

definition collected :: "prims \<Rightarrow> zstd option \<Rightarrow> (u64 \<Rightarrow> bool) \<Rightarrow> storage \<Rightarrow> str \<Rightarrow> bytes \<Rightarrow> bool" where
  "collected P Z chosen st k v \<longleftrightarrow>
    (\<exists>sid off l. index st k = Some (SegmentPtr sid off l) \<and> chosen sid \<and> in_segment P Z st sid off l v)"

lemma collected_content:
  assumes "store_ok P Z st" "collected P Z chosen st k v"
  shows "content P Z st k = Some v"
  using assms(2) pointer_content_segment [OF store_okD(2) [OF assms(1)]]
  by (auto simp: collected_def content_def)

lemma collect_entries_spec:
  assumes "store_ok P Z st" "pages.holds_only (cached_ok P Z st) cache"
    and "collect_entries P Z cancel chosen st ks i cache = (r, cache')"
  shows "pages.holds_only (cached_ok P Z st) cache' \<and>
    (case r of
       Ok es \<Rightarrow> (\<forall>k v. (k, v) \<in> set es \<longleftrightarrow> k \<in> set ks \<and> collected P Z chosen st k v) \<and>
         (distinct ks \<longrightarrow> distinct (map fst es))
     | Err e \<Rightarrow> e = Cancelled \<and> (\<exists>j. cancel j)
     | Panic \<Rightarrow> False)"
  using assms(2,3)
proof (induction ks arbitrary: i cache r cache')
  case Nil
  then show ?case by auto
next
  case (Cons k ks)
  show ?case
  proof (cases "cancel i")
    case True
    with Cons.prems show ?thesis by auto
  next
    case go: False
    show ?thesis
    proof (cases "\<exists>sid off l. index st k = Some (SegmentPtr sid off l) \<and> chosen sid")
      case False
      then have "collect_entries P Z cancel chosen st (k # ks) i cache = collect_entries P Z cancel chosen st ks (Suc i) cache"
        using go by (auto split: option.splits pointer.splits)
      then have "collect_entries P Z cancel chosen st ks (Suc i) cache = (r, cache')" using Cons.prems(2) by simp
      note ih = Cons.IH [OF Cons.prems(1) this]
      have "\<not> collected P Z chosen st k v" for v using False by (auto simp: collected_def)
      with ih show ?thesis by (cases r) auto
    next
      case True
      then obtain sid off l where p: "index st k = Some (SegmentPtr sid off l)" "chosen sid" by blast
      note rd = read_pointer_content [OF assms(1) p(1) Cons.prems(1), of True]
      from store_okD(3) [OF assms(1) p(1)] obtain v where v: "in_segment P Z st sid off l v" by blast
      have c: "content P Z st k = Some v"
        using pointer_content_segment [OF store_okD(2) [OF assms(1)] v] p(1) by (simp add: content_def)
      obtain cache1 where 1: "read_pointer_internal P Z st (SegmentPtr sid off l) True cache = (Ok (Some v), cache1)"
        using rd(1) c by (metis prod.collapse)
      obtain r2 cache2 where 2: "collect_entries P Z cancel chosen st ks (Suc i) cache1 = (r2, cache2)" by fastforce
      have "pages.holds_only (cached_ok P Z st) cache1" using rd(2) 1 by simp
      note ih = Cons.IH [OF this 2]
      have eq: "r = and_then r2 (\<lambda>es. Ok ((k, v) # es))" "cache' = cache2"
        using Cons.prems(2) go p 1 2 by auto
      have u: "collected P Z chosen st k w \<longleftrightarrow> w = v" for w
        using v p placed_unique by (auto simp: collected_def in_segment_def)
      show ?thesis using ih eq u by (cases r2) force+
    qed
  qed
qed

section \<open>Writing the target\<close>

lemma compact_segment_key:
  "compact_segment P Z entries sid c s = (r, ptrs, s') \<Longrightarrow> same_key (seg_enc s') (seg_enc s)"
proof -
  have "compact_entries P Z sid c entries idx s = (r, ptrs, s') \<Longrightarrow> same_key (seg_enc s') (seg_enc s)" for idx s
  proof (induction entries arbitrary: idx s)
    case (Cons kv entries)
    obtain k raw where [simp]: "kv = (k, raw)" by (cases kv)
    obtain packed flag where c: "compress_value Z c raw = (packed, flag)" by fastforce
    obtain r1 enc' where s: "seal_value P (seg_enc s) packed = (r1, enc')" by fastforce
    have "same_key enc' (seg_enc s)"
      using s by (auto simp: seal_value_def same_key_def encrypt_key split: option.splits prod.splits)
    then show ?case
      using Cons c s by (cases r1) (fastforce simp: append_raw_with_len_def Let_def intro: same_key_trans)+
  qed simp
  then show "compact_segment P Z entries sid c s = (r, ptrs, s') \<Longrightarrow> same_key (seg_enc s') (seg_enc s)"
    by (fastforce simp: compact_segment_def segment_truncate_def)
qed

definition target_ok :: "prims \<Rightarrow> zstd option \<Rightarrow> (str \<times> bytes) list \<Rightarrow> u64 \<Rightarrow> segment \<Rightarrow> (str \<rightharpoonup> pointer) \<Rightarrow> storage \<Rightarrow> bool" where
  "target_ok P Z entries tid target ptrs st \<longleftrightarrow>
    seg_id target = tid \<and> seg_map target \<le> length (seg_file target) \<and> same_key (seg_enc target) (st_enc st) \<and>
    (\<forall>k. map_of entries k = None \<longrightarrow> ptrs k = None) \<and>
    (\<forall>k v. map_of entries k = Some v \<longrightarrow>
      (\<exists>off l. ptrs k = Some (SegmentPtr tid off l) \<and> placed P Z (st_enc st) (seg_file target) off l v))"

lemma compact_segment_target:
  assumes "aead_ok P" "\<forall>z. Z = Some z \<longrightarrow> zstd_ok z" "distinct (map fst entries)"
    and "compact_segment P Z entries tid c (segment_open [] tid enc) = (Ok (), ptrs, target)"
    and "length (seg_file target) < 2 ^ 64" "\<forall>(k, v) \<in> set entries. length v < 2 ^ 30" "same_key enc (st_enc st)"
  shows "target_ok P Z entries tid target ptrs st"
proof -
  let ?s = "segment_open [] tid enc"
  note a = compact_entries_addressed [OF assms(1,2) assms(4) [unfolded compact_segment_def] assms(5,6)]
  have k: "same_key (seg_enc target) (st_enc st)"
    using compact_segment_key [OF assms(4)] assms(7) by (auto simp: segment_open_def intro: same_key_trans)
  have m: "map_of (rev entries) = map_of entries" 
    using assms(3) by (subst map_of_inject_set) (simp_all add: rev_map [symmetric])
  have "seg_id target = tid" "seg_map target \<le> length (seg_file target)"
    using a by (auto simp: segment_truncate_def segment_open_def)
  moreover have "ptrs j = None" if "map_of entries j = None" for j using a that by (simp add: m)
  moreover have "\<exists>off l. ptrs j = Some (SegmentPtr tid off l) \<and> placed P Z (st_enc st) (seg_file target) off l v"
    if "map_of entries j = Some v" for j v
    using a that placed_same_key [OF k, of P Z] by (simp add: m addressed_def)
  ultimately show ?thesis using k by (simp add: target_ok_def)
qed

section \<open>Swapping\<close>

definition unseen :: "u64 \<Rightarrow> storage \<Rightarrow> bool" where
  "unseen tid st \<longleftrightarrow> segments st tid = None \<and> tid < next_segment_id st \<and>
    (\<forall>b. cache_blocks (st_cache st) b \<noteq> None \<longrightarrow> block_segment b \<noteq> tid)"

definition swap_ready :: "prims \<Rightarrow> zstd option \<Rightarrow> u64 list \<Rightarrow> u64 \<Rightarrow> segment \<Rightarrow> (str \<rightharpoonup> pointer) \<Rightarrow> storage \<Rightarrow> bool" where
  "swap_ready P Z old tid target ptrs st \<longleftrightarrow> unseen tid st \<and> active_segment_id st \<notin> set old \<and>
    seg_id target = tid \<and> seg_map target \<le> length (seg_file target) \<and> same_key (seg_enc target) (st_enc st) \<and>
    (\<forall>k p. ptrs k = Some p \<longrightarrow>
      (\<exists>sid off l off' l' v. index st k = Some (SegmentPtr sid off l) \<and> in_segment P Z st sid off l v \<and>
        p = SegmentPtr tid off' l' \<and> placed P Z (st_enc st) (seg_file target) off' l' v)) \<and>
    (\<forall>k sid off l. ptrs k = None \<longrightarrow> index st k = Some (SegmentPtr sid off l) \<longrightarrow> sid \<notin> set old)"

text \<open>What the swap itself needs: a new pointer reads the value its key had.\<close>

definition swap_fits :: "prims \<Rightarrow> zstd option \<Rightarrow> u64 list \<Rightarrow> u64 \<Rightarrow> segment \<Rightarrow> (str \<rightharpoonup> pointer) \<Rightarrow> storage \<Rightarrow> bool" where
  "swap_fits P Z old tid target ptrs st \<longleftrightarrow> unseen tid st \<and> active_segment_id st \<notin> set old \<and>
    seg_id target = tid \<and> seg_map target \<le> length (seg_file target) \<and> same_key (seg_enc target) (st_enc st) \<and>
    (\<forall>k p. ptrs k = Some p \<longrightarrow>
      (\<exists>off l v. content P Z st k = Some v \<and> p = SegmentPtr tid off l \<and> placed P Z (st_enc st) (seg_file target) off l v)) \<and>
    (\<forall>k sid off l. ptrs k = None \<longrightarrow> index st k = Some (SegmentPtr sid off l) \<longrightarrow> sid \<notin> set old)"

lemma swap_ready_fits:
  assumes "store_ok P Z st" "swap_ready P Z old tid target ptrs st"
  shows "swap_fits P Z old tid target ptrs st"
proof -
  have "\<exists>off' l' v. content P Z st k = Some v \<and> p = SegmentPtr tid off' l' \<and> placed P Z (st_enc st) (seg_file target) off' l' v"
    if "ptrs k = Some p" for k p
  proof -
    from assms(2) that obtain sid off l off' l' v where "index st k = Some (SegmentPtr sid off l)" "in_segment P Z st sid off l v"
      "p = SegmentPtr tid off' l'" "placed P Z (st_enc st) (seg_file target) off' l' v"
      unfolding swap_ready_def by blast
    with pointer_content_segment [OF store_okD(2) [OF assms(1)]] show ?thesis by (simp add: content_def)
  qed
  with assms(2) show ?thesis unfolding swap_ready_def swap_fits_def by blast
qed

lemma remove_segments_apply: "remove_segments old m sid = (if sid \<in> set old then None else m sid)"
  unfolding remove_segments_def by (induction old arbitrary: m) auto

lemma index_ok_swap:
  assumes "index_ok st" "\<forall>k p. ptrs k = Some p \<longrightarrow> (\<exists>sid off l sid' off' l'.
      index st k = Some (SegmentPtr sid off l) \<and> p = SegmentPtr sid' off' l')"
  shows "index_ok (swap_in level old tid target ptrs st)"
proof -
  let ?st = "swap_in level old tid target ptrs st"
  have idx: "index ?st = index st ++ ptrs" by (simp add: swap_in_def)
  have live: "live_pointer (index ?st k) = live_pointer (index st k)" "pointer_bytes (index ?st k) = pointer_bytes (index st k)"
    "(index ?st k = None) = (index st k = None)" for k
    using assms(2) by (cases "ptrs k"; force simp: idx map_add_def live_pointer_def is_tombstone_def pointer_bytes_def)+
  have "dom (index ?st) = dom (index st)" using live(3) by (auto simp: dom_def)
  moreover have "live_keys ?st = live_keys st" using live(1) by (simp add: live_keys_def is_live_def)
  ultimately show ?thesis
    using assms(1) live(2)
    by (simp add: index_ok_def stats_ok_def view_ok_def bytes_total_def) (simp add: swap_in_def split: option.splits)
qed

lemma swap_state_ok:
  assumes "store_ok P Z st" "swap_fits P Z old tid target ptrs st" "index_ok st'"
    and sel [simp]: "st_enc st' = st_enc st" "next_segment_id st' = next_segment_id st" "st_cache st' = st_cache st"
    "st_blobs st' = st_blobs st" "active_segment_id st' = active_segment_id st" "st_wal st' = st_wal st"
    "index st' = index st ++ ptrs"
    and reg: "segments st' = segments (swap_in level old tid target ptrs st)"
  shows "store_ok P Z st'" "content P Z st' = content P Z st"
proof -
  note ok = store_okD [OF assms(1)]
  have un: "segments st tid = None" "tid < next_segment_id st"
    "\<forall>b. cache_blocks (st_cache st) b \<noteq> None \<longrightarrow> block_segment b \<noteq> tid" and act: "active_segment_id st \<notin> set old"
    and tg: "seg_id target = tid" "seg_map target \<le> length (seg_file target)" "same_key (seg_enc target) (st_enc st)"
    using assms(2) by (auto simp: swap_fits_def unseen_def)
  have segs: "segments st' sid = (if sid = tid then Some \<lparr>sm_level = level, sm_segment = target\<rparr>
      else if sid \<in> set old then None else segments st sid)" for sid
    by (simp add: reg swap_in_def remove_segments_apply)
  have metas: "\<forall>sid m. segments st' sid = Some m \<longrightarrow> meta_ok st' sid m"
    using ok(2) un(2) tg by (auto simp: segs meta_ok_def split: if_splits)
  have kept: "in_segment P Z st' sid off l v" if "in_segment P Z st sid off l v" "sid \<notin> set old" for sid off l v
    using that un(1) by (auto simp: in_segment_def segs)
  have ptr: "\<exists>off l v. content P Z st k = Some v \<and> p = SegmentPtr tid off l \<and> in_segment P Z st' tid off l v"
    if "ptrs k = Some p" for k p
    using assms(2) that unfolding swap_fits_def in_segment_def by (simp add: segs)
  have out: "sid \<notin> set old" if "ptrs k = None" "index st k = Some (SegmentPtr sid off l)" for k sid off l
    using assms(2) that unfolding swap_fits_def by blast
  have cached: "cached_ok P Z st' b v" if "cache_blocks (st_cache st) b = Some v" "cached_ok P Z st b v" for b v
  proof (cases "block_segment b \<in> set old \<or> segments st (block_segment b) = None")
    case True
    with that un(3) show ?thesis by (auto simp: cached_ok_def segs)
  next
    case False
    with that(2) kept show ?thesis unfolding cached_ok_def by (metis sel(2))
  qed
  have "pages.holds_only (cached_ok P Z st') (st_cache st')"
    using ok(5) cached by (simp add: pages.holds_only_def)
  moreover have "\<exists>v. in_segment P Z st' sid off l v" if "index st' k = Some (SegmentPtr sid off l)" for k sid off l
  proof (cases "ptrs k")
    case None
    with that ok(3) kept out show ?thesis by (simp add: map_add_def) blast
  next
    case (Some p)
    with ptr [OF Some] that show ?thesis by (auto simp: map_add_def)
  qed
  moreover have "st_blobs st' \<noteq> None" if "index st' k = Some (BlobPtr off l)" for k off l
    using that ok(4) [of k off l] ptr [of k] by (cases "ptrs k") (auto simp: map_add_def)
  moreover have "segments st' (active_segment_id st') \<noteq> None" using ok(7) act by (simp add: segs)
  ultimately show "store_ok P Z st'" using ok(6) metas assms(3) unfolding store_ok_def by simp
  show "content P Z st' = content P Z st"
  proof
    fix k
    show "content P Z st' k = content P Z st k"
    proof (cases "ptrs k")
      case (Some p)
      from ptr [OF Some] obtain off l v where
        "content P Z st k = Some v" "p = SegmentPtr tid off l" "in_segment P Z st' tid off l v" by blast
      with Some pointer_content_segment [OF metas] show ?thesis by (simp add: content_def [of P Z st'] map_add_def)
    next
      case None
      have "pointer_content P Z st' q = pointer_content P Z st q" if q: "index st k = Some q" for q
      proof (cases "\<exists>sid off l. q = SegmentPtr sid off l")
        case True
        then obtain sid off l where i: "q = SegmentPtr sid off l" by blast
        with q ok(3) obtain v where "in_segment P Z st sid off l v" by blast
        with q i None out kept pointer_content_segment [OF ok(2)] pointer_content_segment [OF metas] show ?thesis by simp
      next
        case False
        then show ?thesis by (cases q) (auto simp: pointer_content_def)
      qed
      with None show ?thesis by (cases "index st k") (simp_all add: content_def map_add_def)
    qed
  qed
qed

lemma swap_ok:
  assumes "store_ok P Z st" "swap_ready P Z old tid target ptrs st"
  shows "store_ok P Z (swap_in level old tid target ptrs st)"
    "content P Z (swap_in level old tid target ptrs st) = content P Z st"
proof -
  have "index_ok (swap_in level old tid target ptrs st)"
    using assms(2) store_okD(1) [OF assms(1)] unfolding swap_ready_def by (intro index_ok_swap) blast+
  note sw = swap_state_ok [OF assms(1) swap_ready_fits [OF assms] this, of level]
  show "store_ok P Z (swap_in level old tid target ptrs st)"
    "content P Z (swap_in level old tid target ptrs st) = content P Z st"
    by (rule sw; simp add: swap_in_def)+
qed

section \<open>Full compaction\<close>

lemma target_swap_ready:
  assumes "store_ok P Z st" "unseen tid st" "target_ok P Z entries tid target ptrs st" "active_segment_id st \<notin> set old"
    and "\<And>k v. map_of entries k = Some v \<Longrightarrow> \<exists>sid off l. index st k = Some (SegmentPtr sid off l) \<and> in_segment P Z st sid off l v"
    and "\<And>k sid off l. map_of entries k = None \<Longrightarrow> index st k = Some (SegmentPtr sid off l) \<Longrightarrow> sid \<notin> set old"
  shows "swap_ready P Z old tid target ptrs st"
proof -
  have "\<exists>sid off l off' l' v. index st k = Some (SegmentPtr sid off l) \<and> in_segment P Z st sid off l v \<and>
      p = SegmentPtr tid off' l' \<and> placed P Z (st_enc st) (seg_file target) off' l' v" if "ptrs k = Some p" for k p
  proof (cases "map_of entries k")
    case None
    with assms(3) that show ?thesis by (simp add: target_ok_def)
  next
    case (Some v)
    with assms(3) have "\<exists>off' l'. ptrs k = Some (SegmentPtr tid off' l') \<and> placed P Z (st_enc st) (seg_file target) off' l' v"
      unfolding target_ok_def by blast
    with that obtain off' l' where "p = SegmentPtr tid off' l'" "placed P Z (st_enc st) (seg_file target) off' l' v" by auto
    with assms(5) [OF Some] show ?thesis by blast
  qed
  moreover have "map_of entries k = None" if "ptrs k = None" for k
    using assms(3) that unfolding target_ok_def by (cases "map_of entries k") fastforce+
  ultimately show ?thesis
    using assms(2-4,6) unfolding swap_ready_def target_ok_def by blast
qed

lemma st_enc_ok:
  assumes "store_ok P Z st" "same_key enc (st_enc st)" "next_segment_id st \<le> n"
  shows "store_ok P Z (st\<lparr>next_segment_id := n, st_enc := enc\<rparr>)"
    "content P Z (st\<lparr>next_segment_id := n, st_enc := enc\<rparr>) = content P Z st"
    "in_segment P Z (st\<lparr>next_segment_id := n, st_enc := enc\<rparr>) = in_segment P Z st"
proof -
  let ?st = "st\<lparr>next_segment_id := n, st_enc := enc\<rparr>"
  show same: "in_segment P Z ?st = in_segment P Z st"
    using placed_same_key [OF assms(2), of P Z] by (simp add: in_segment_def fun_eq_iff)
  have grow: "extends P Z st ?st" using assms(2,3) by (simp add: extends_def same)
  have metas: "\<forall>sid m. segments ?st sid = Some m \<longrightarrow> meta_ok ?st sid m"
    using store_okD(2) [OF assms(1)] assms(2,3) by (auto simp: meta_ok_def same_key_def intro: order_less_le_trans)
  show "store_ok P Z ?st"
    using store_okD [OF assms(1)] index_ok_cong [of ?st st] assms(2)
    by (intro store_ok_extend [OF assms(1) grow metas]) (simp_all add: same_key_def)
  show "content P Z ?st = content P Z st" by (rule content_extend [OF assms(1) grow metas]) simp
qed

lemma rewrite_fields:
  assumes "rewrite_wal_snapshot P visit clock st = (r, st')"
  shows "segments st' = segments st" "index st' = index st" "st_cache st' = st_cache st"
    "active_segment_id st' = active_segment_id st" "next_segment_id st' = next_segment_id st"
    "same_key (st_enc st') (st_enc st)"
  using assms append_batch_key
  by (fastforce simp: rewrite_wal_snapshot_def on_wal_def Let_def reset_def split: prod.splits)+

lemma wal_update_ok:
  assumes "store_ok P Z st" "wal_enc w = wal_enc (st_wal st)"
  shows "store_ok P Z (st\<lparr>st_wal := w\<rparr>)" "content P Z (st\<lparr>st_wal := w\<rparr>) = content P Z st"
    "extends P Z st (st\<lparr>st_wal := w\<rparr>)"
proof -
  let ?st = "st\<lparr>st_wal := w\<rparr>"
  show grow: "extends P Z st ?st" by (simp add: extends_def in_segment_def)
  have metas: "\<forall>sid m. segments ?st sid = Some m \<longrightarrow> meta_ok ?st sid m"
    using store_okD(2) [OF assms(1)] by (simp add: meta_ok_def)
  show "store_ok P Z ?st"
    using store_okD [OF assms(1)] index_ok_cong [of ?st st] assms(2)
    by (intro store_ok_extend [OF assms(1) grow metas]) simp_all
  show "content P Z ?st = content P Z st" by (rule content_extend [OF assms(1) grow metas]) simp
qed

lemma rewrite_ok:
  assumes "store_ok P Z st" "rewrite_wal_snapshot P visit clock st = (r, st')"
  shows "store_ok P Z st'" "content P Z st' = content P Z st" "extends P Z st st'"
proof -
  note u = wal_update_ok [OF assms(1), of "reset (st_wal st)"]
  have enc: "wal_enc (reset (st_wal st)) = wal_enc (st_wal st)" by (simp add: reset_def)
  note w = on_wal_ok [OF u(1) [OF enc] assms(2) [unfolded rewrite_wal_snapshot_def] append_batch_key]
  show "store_ok P Z st'" "content P Z st' = content P Z st" using w(1,2) u(2) [OF enc] by simp_all
  show "extends P Z st st'" using extends_trans [OF u(3) [OF enc] w(5)] .
qed

lemma unseen_next:
  assumes "store_ok P Z st" "next_segment_id st < n"
  shows "unseen (next_segment_id st) (st\<lparr>next_segment_id := n, st_enc := enc\<rparr>)"
proof -
  have "block_segment b < next_segment_id st" if "cache_blocks (st_cache st) b \<noteq> None" for b
    using store_okD(5) [OF assms(1)] that unfolding pages.holds_only_def cached_ok_def by blast
  then show ?thesis
    using store_okD(2) [OF assms(1)] assms(2)
    by (cases "segments st (next_segment_id st)") (fastforce simp: unseen_def meta_ok_def)+
qed

lemma forced_rotation_ok:
  assumes "store_ok P Z st" "next_segment_id st < 0xFFFFFFFFFFFFFFFF"
  shows "store_ok P Z (forced_rotation st)" "content P Z (forced_rotation st) = content P Z st"
    "next_segment_id (forced_rotation st) \<le> next_segment_id st + 1"
proof -
  have "forced_rotation st = st \<or> forced_rotation st = rotate_segment st"
    by (auto simp: forced_rotation_def split: option.splits)
  moreover have "next_segment_id st \<le> next_segment_id st + 1" using u64_succ_less [OF assms(2)] by simp
  ultimately show "store_ok P Z (forced_rotation st)" "content P Z (forced_rotation st) = content P Z st"
    "next_segment_id (forced_rotation st) \<le> next_segment_id st + 1"
    using assms(1) rotate_ok [OF assms] by (auto simp: rotate_segment_def Let_def)
qed

text \<open>Everything up to the swap.\<close>

lemma write_target_ok:
  assumes "aead_ok P" "\<forall>z. Z = Some z \<longrightarrow> zstd_ok z" "store_ok P Z st" "next_segment_id st < 0xFFFFFFFFFFFFFFFF"
    and "write_target P Z entries st = (r, ptrs, target, tid, st')"
  shows "store_ok P Z st'" "content P Z st' = content P Z st" "in_segment P Z st' = in_segment P Z st"
    "index st' = index st" "active_segment_id st' = active_segment_id st" "unseen tid st'"
    "extends P Z st st'" "st_cache st' = st_cache st" "segments st' = segments st" "tid = next_segment_id st"
    "next_segment_id st' = tid + 1"
    "r = Ok () \<Longrightarrow> distinct (map fst entries) \<Longrightarrow> length (seg_file target) < 2 ^ 64 \<Longrightarrow>
      \<forall>(k, v) \<in> set entries. length v < 2 ^ 30 \<Longrightarrow> target_ok P Z entries tid target ptrs st'"
proof -
  obtain r0 ptrs0 target0 where c: "compact_segment P Z entries (next_segment_id st) (use_compression st)
      (segment_open [] (next_segment_id st) (st_enc st)) = (r0, ptrs0, target0)" by (rule prod_cases3)
  with assms(5) have w: "compact_segment P Z entries (next_segment_id st) (use_compression st)
      (segment_open [] (next_segment_id st) (st_enc st)) = (r, ptrs, target)" "tid = next_segment_id st"
    and st': "st' = st\<lparr>next_segment_id := next_segment_id st + 1, st_enc := seg_enc target\<rparr>"
    by (auto simp: write_target_def Let_def)
  have key: "same_key (seg_enc target) (st_enc st)"
    using compact_segment_key [OF w(1)] by (simp add: segment_open_def)
  have nx: "next_segment_id st < next_segment_id st + 1" using assms(4) by (rule u64_succ_less)
  note e = st_enc_ok [OF assms(3) key less_imp_le [OF nx], folded st']
  show "store_ok P Z st'" by (rule e(1))
  show "content P Z st' = content P Z st" by (rule e(2))
  show "in_segment P Z st' = in_segment P Z st" by (rule e(3))
  show "index st' = index st" "active_segment_id st' = active_segment_id st" by (simp_all add: st')
  show "unseen tid st'" unfolding w(2) st' by (rule unseen_next [OF assms(3) nx])
  show "extends P Z st st'" using e(3) nx key by (simp add: extends_def st')
  show "st_cache st' = st_cache st" "segments st' = segments st" "tid = next_segment_id st" "next_segment_id st' = tid + 1"
    by (simp_all add: st' w(2))
  show "target_ok P Z entries tid target ptrs st'"
    if "r = Ok ()" "distinct (map fst entries)" "length (seg_file target) < 2 ^ 64" "\<forall>(k, v) \<in> set entries. length v < 2 ^ 30"
  proof -
    have "same_key (st_enc st) (st_enc st')" using key by (simp add: st')
    with compact_segment_target [OF assms(1,2) that(2) w(1) [unfolded that(1)] that(3,4)] show ?thesis
      unfolding w(2) by blast
  qed
qed

lemma compact_stages:
  assumes "store_ok P Z st" "visits visit" "collect_entries P Z cancel chosen st (visit (index st)) i (st_cache st) = (Ok entries, cache)"
  shows "distinct (map fst entries)"
    "\<And>k v. map_of entries k = Some v \<Longrightarrow> \<exists>sid off l. index st k = Some (SegmentPtr sid off l) \<and> in_segment P Z st sid off l v"
    "\<And>k sid off l. map_of entries k = None \<Longrightarrow> index st k = Some (SegmentPtr sid off l) \<Longrightarrow> \<not> chosen sid"
    "\<And>k v. (k, v) \<in> set entries \<Longrightarrow> content P Z st k = Some v"
proof -
  have v: "distinct (visit (index st))" "set (visit (index st)) = dom (index st)"
    using assms(2) store_okD(1) [OF assms(1)] by (auto simp: visits_def index_ok_def stats_ok_def)
  note c = collect_entries_spec [OF assms(1) store_okD(5) [OF assms(1)] assms(3)]
  then have mem: "(k, v) \<in> set entries \<longleftrightarrow> k \<in> dom (index st) \<and> collected P Z chosen st k v" for k v using v(2) by auto
  show "distinct (map fst entries)" using c v(1) by simp
  show "\<exists>sid off l. index st k = Some (SegmentPtr sid off l) \<and> in_segment P Z st sid off l v"
    if "map_of entries k = Some v" for k v
    using map_of_SomeD [OF that] mem by (auto simp: collected_def)
  show "\<not> chosen sid" if "map_of entries k = None" "index st k = Some (SegmentPtr sid off l)" for k sid off l
  proof
    assume "chosen sid"
    with store_okD(3) [OF assms(1) that(2)] that(2) obtain v where "collected P Z chosen st k v" by (auto simp: collected_def)
    with mem that(2) have "(k, v) \<in> set entries" by blast
    with that(1) show False by (simp add: map_of_eq_None_iff image_iff) (metis fst_conv)
  qed
  show "content P Z st k = Some v" if "(k, v) \<in> set entries" for k v
    using that mem collected_content [OF assms(1)] by blast
qed

text \<open>The end of a compaction: write the target, check the flag once more, swap and rewrite the log.\<close>

lemma compact_finish:
  assumes "aead_ok P" "\<forall>z. Z = Some z \<longrightarrow> zstd_ok z" "store_ok P Z st" "visits visit"
    and "next_segment_id st < 0xFFFFFFFFFFFFFFFF" "active_segment_id st \<notin> set ids"
    and "collect_entries P Z cancel (\<lambda>sid. sid \<in> set ids) st (visit (index st)) i (st_cache st) = (Ok entries, cache)"
    and "write_target P Z entries (st\<lparr>st_cache := cache\<rparr>) = (Ok (), ptrs, target, tid, st3)"
    and "rewrite_wal_snapshot P visit clock (swap_in 1 ids tid target ptrs st3) = (r, st')" "capacity st'"
    and "\<forall>k v. content P Z st k = Some v \<longrightarrow> length v < 2 ^ 30"
  shows "store_ok P Z st'" "content P Z st' = content P Z st"
proof -
  note cs = compact_stages [OF assms(3,4,7)]
  have cache: "pages.holds_only (cached_ok P Z st) cache"
    using collect_entries_spec [OF assms(3) store_okD(5) [OF assms(3)] assms(7)] by simp
  let ?st2 = "st\<lparr>st_cache := cache\<rparr>"
  note c2 = store_ok_cache [OF assms(3) cache]
  have same: "in_segment P Z ?st2 = in_segment P Z st" by (simp add: in_segment_def fun_eq_iff)
  have "next_segment_id ?st2 < 0xFFFFFFFFFFFFFFFF" using assms(5) by simp
  note w = write_target_ok [OF assms(1,2) c2(1) this assms(8)]
  note rw = rewrite_ok [OF _ assms(9)]
  have "segments st' tid = Some \<lparr>sm_level = 1, sm_segment = target\<rparr>" by (simp add: rewrite_fields(1) [OF assms(9)] swap_in_def)
  then have len: "length (seg_file target) < 2 ^ 64" using assms(10) by (fastforce simp: capacity_def)
  have "\<forall>(k, v) \<in> set entries. length v < 2 ^ 30" using cs(4) assms(11) by auto
  note t = w(12) [OF refl cs(1) len this]
  have "swap_ready P Z ids tid target ptrs st3"
    using cs(2,3) assms(6) w(3-5) same by (intro target_swap_ready [OF w(1,6) t]) auto
  note sw = swap_ok [OF w(1) this, of 1]
  show "store_ok P Z st'" "content P Z st' = content P Z st"
    using rw [OF sw(1)] sw(2) w(2) c2(2) by simp_all
qed

text \<open>The ways a compaction ends.\<close>

lemma compact_with_cancel_cases:
  assumes "compact_with_cancel P Z visit seg_visit cancel clock st = (r, st')"
    and "st1 = forced_rotation st" "ids = immutable_ids seg_visit st1"
  obtains "st' = st" | "st' = st1" | "rewrite_wal_snapshot P visit clock st1 = (r, st')"
  | r1 cache where "collect_entries P Z cancel (\<lambda>sid. sid \<in> set ids) st1 (visit (index st1)) 2 (st_cache st1) = (r1, cache)"
      "st' = st1\<lparr>st_cache := cache\<rparr>"
  | entries cache r2 ptrs target tid st3
    where "collect_entries P Z cancel (\<lambda>sid. sid \<in> set ids) st1 (visit (index st1)) 2 (st_cache st1) = (Ok entries, cache)"
      "write_target P Z entries (st1\<lparr>st_cache := cache\<rparr>) = (r2, ptrs, target, tid, st3)"
      "st' = st3 \<or> (r2 = Ok () \<and> rewrite_wal_snapshot P visit clock (swap_in 1 ids tid target ptrs st3) = (r, st'))"
proof -
  obtain r1 cache where c: "collect_entries P Z cancel (\<lambda>sid. sid \<in> set ids) st1 (visit (index st1)) 2 (st_cache st1) = (r1, cache)"
    by fastforce
  let ?st2 = "st1\<lparr>st_cache := cache\<rparr>" and ?n = "length (visit (index st1))"
  note def = assms(1) [unfolded compact_with_cancel_def Let_def, folded assms(2), folded assms(3)]
  show thesis
  proof (cases "cancel 0 \<or> cancel 1 \<or> ids = []")
    case True
    with def that(1-3) show thesis by (auto split: if_splits)
  next
    case go: False
    show thesis
    proof (cases "\<exists>entries. r1 = Ok entries \<and> \<not> cancel (2 + ?n)")
      case False
      with def go c have "st' = ?st2" by (auto split: result.splits)
      with c that(4) show thesis by blast
    next
      case True
      then obtain entries where e: "r1 = Ok entries" "\<not> cancel (2 + ?n)" by blast
      obtain r2 ptrs target tid st3 where w: "write_target P Z entries ?st2 = (r2, ptrs, target, tid, st3)"
        by (metis prod_cases5)
      have "st' = st3 \<or> (r2 = Ok () \<and> rewrite_wal_snapshot P visit clock (swap_in 1 ids tid target ptrs st3) = (r, st'))"
        using def go c e w by (cases r2) (auto split: if_splits)
      with c [unfolded e(1)] w that(5) show thesis by blast
    qed
  qed
qed

lemma compact_with_cancel_ok:
  assumes "aead_ok P" "\<forall>z. Z = Some z \<longrightarrow> zstd_ok z" "store_ok P Z st" "visits visit"
    and "next_segment_id st < 0xFFFFFFFFFFFFFFFE" "\<forall>k v. content P Z st k = Some v \<longrightarrow> length v < 2 ^ 30"
    and "compact_with_cancel P Z visit seg_visit cancel clock st = (r, st')" "capacity st'"
  shows "store_ok P Z st'" "content P Z st' = content P Z st"
proof -
  define st1 where "st1 = forced_rotation st"
  define ids where "ids = immutable_ids seg_visit st1"
  have "next_segment_id st < 0xFFFFFFFFFFFFFFFF" using assms(5) by (simp add: word_less_nat_alt)
  note fr = forced_rotation_ok [OF assms(3) this, folded st1_def]
  have nx1: "next_segment_id st1 < 0xFFFFFFFFFFFFFFFF"
    using fr(3) assms(5) by (simp add: word_less_nat_alt word_le_nat_alt unat_word_ariths)
  have act: "active_segment_id st1 \<notin> set ids" by (simp add: ids_def immutable_ids_def)
  note col = conjunct1 [OF collect_entries_spec [OF fr(1) store_okD(5) [OF fr(1)]]]
  have "store_ok P Z st' \<and> content P Z st' = content P Z st"
    using assms(7) st1_def ids_def
  proof (cases rule: compact_with_cancel_cases)
    case 3
    with rewrite_ok [OF fr(1)] fr(2) show ?thesis by metis
  next
    case (4 r1 cache)
    with store_ok_cache [OF fr(1) col] fr(2) show ?thesis by metis
  next
    case (5 entries cache r2 ptrs target tid st3)
    note cache = store_ok_cache [OF fr(1) col [OF 5(1)]]
    have "next_segment_id (st1\<lparr>st_cache := cache\<rparr>) < 0xFFFFFFFFFFFFFFFF" using nx1 by simp
    note wt = write_target_ok [OF assms(1,2) cache(1) this 5(2)]
    from 5(3) show ?thesis
    proof
      assume "st' = st3"
      with wt(1,2) cache(2) fr(2) show ?thesis by simp
    next
      assume 6: "r2 = Ok () \<and> rewrite_wal_snapshot P visit clock (swap_in 1 ids tid target ptrs st3) = (r, st')"
      then have "write_target P Z entries (st1\<lparr>st_cache := cache\<rparr>) = (Ok (), ptrs, target, tid, st3)" using 5(2) by simp
      from compact_finish [OF assms(1,2) fr(1) assms(4) nx1 act 5(1) this conjunct2 [OF 6] assms(8)] assms(6) fr(2)
      show ?thesis by simp
    qed
  qed (use assms(3) fr in simp_all)
  then show "store_ok P Z st'" "content P Z st' = content P Z st" by blast+
qed

text \<open>C5. Compaction loses nothing. Whatever the result of a full compaction, completed, failed or
  cancelled at any of its checks, the abstract map from keys to values is unchanged, and the invariant of
  the storage engine holds, so every key is still read as before.\<close>

theorem compaction_preserves:
  assumes "aead_ok P" "\<forall>z. Z = Some z \<longrightarrow> zstd_ok z" "store_ok P Z st" "visits visit"
    and "next_segment_id st < 0xFFFFFFFFFFFFFFFE" "\<forall>k v. content P Z st k = Some v \<longrightarrow> length v < 2 ^ 30"
    and "compact_with_cancel P Z visit seg_visit cancel clock st = (r, st')" "capacity st'"
  shows "store_ok P Z st' \<and> content P Z st' = content P Z st"
  using compact_with_cancel_ok [OF assms] by blast

section \<open>Sample\<close>

definition sample_seg_visit :: seg_visit where
  "sample_seg_visit m = filter (\<lambda>sid. m sid \<noteq> None) [0, 1, 2]"

lemma sample_visit_single: "sample_visit [k \<mapsto> p] = [k]"
  by (simp add: sample_visit_def)

lemma sample_content: "content sample_prims Z sample_store = [[97] \<mapsto> [8, 9]]"
  using pointer_content_segment [OF store_okD(2) [OF sample_store_ok] sample_placed]
  by (auto simp: content_def fun_eq_iff)

lemma sample_plain: "\<not> use_compression sample_store" by (simp add: sample_store_def)

lemma sample_rotated:
  "forced_rotation sample_store = sample_store\<lparr>next_segment_id := 2,
     segments := (segments sample_store)(1 \<mapsto> \<lparr>sm_level = 0, sm_segment = segment_open [] 1 None\<rparr>), active_segment_id := 1\<rparr>"
  by (simp add: forced_rotation_def segment_open_def rotate_segment_def)

lemma sample_compaction:
  assumes "compact_with_cancel sample_prims None sample_visit sample_seg_visit (\<lambda>_. False) 0 sample_store = (r, st')"
  shows "segments st' = [1 \<mapsto> \<lparr>sm_level = 0, sm_segment = segment_open [] 1 None\<rparr>,
    2 \<mapsto> \<lparr>sm_level = 1, sm_segment = (segment_open [] 2 None)\<lparr>seg_file := u32_le 2 @ [8, 9]\<rparr>\<rparr>]"
proof -
  let ?st1 = "forced_rotation sample_store"
  note fr = forced_rotation_ok [OF sample_store_ok [of None], simplified]
  obtain cache where "read_pointer_internal sample_prims None ?st1 (SegmentPtr 0 0 2) True (cache_new 64) = (Ok (Some [8, 9]), cache)"
    using read_pointer_content(1) [OF fr(1), of "[97]" "SegmentPtr 0 0 2" "cache_new 64" True] store_okD(5) [OF fr(1)] fr(2)
    by (cases "read_pointer_internal sample_prims None ?st1 (SegmentPtr 0 0 2) True (cache_new 64)")
      (simp add: sample_rotated sample_content)
  then have c: "collect_entries sample_prims None (\<lambda>_. False) (\<lambda>sid. sid \<in> set [0]) ?st1 [[97]] 2 (cache_new 64) = (Ok [([97], [8, 9])], cache)"
    by (simp add: sample_rotated)
  let ?t = "(segment_open [] 2 None)\<lparr>seg_file := u32_le 2 @ [8, 9]\<rparr>"
  have w: "write_target sample_prims None [([97], [8, 9])] (?st1\<lparr>st_cache := cache\<rparr>) =
      (Ok (), [[97] \<mapsto> SegmentPtr 2 0 2], ?t, 2, ?st1\<lparr>st_cache := cache, next_segment_id := 3, st_enc := None\<rparr>)"
    by (simp add: write_target_def compact_segment_def sample_rotated segment_open_def segment_truncate_def
        compress_value_def seal_value_def append_raw_with_len_def sample_plain Let_def)
  have v: "immutable_ids sample_seg_visit ?st1 = [0]" "sample_visit (index ?st1) = [[97]]" "st_cache ?st1 = cache_new 64"
    by (simp_all add: sample_rotated immutable_ids_def sample_seg_visit_def sample_visit_single)
  have "rewrite_wal_snapshot sample_prims sample_visit 0 (swap_in 1 [0] 2 ?t [[97] \<mapsto> SegmentPtr 2 0 2]
      (?st1\<lparr>st_cache := cache, next_segment_id := 3, st_enc := None\<rparr>)) = (r, st')"
    using assms c w v by (simp add: compact_with_cancel_def Let_def)
  then have "segments st' = (remove_segments [0] (segments ?st1))(2 \<mapsto> \<lparr>sm_level = 1, sm_segment = ?t\<rparr>)"
    by (simp add: rewrite_fields(1) swap_in_def)
  then show ?thesis by (simp add: sample_rotated remove_segments_def fun_upd_twist)
qed

theorem compaction_preserves_witness:
  "\<exists>r st'. compact_with_cancel sample_prims None sample_visit sample_seg_visit (\<lambda>_. False) 0 sample_store = (r, st') \<and>
    content sample_prims None st' = [[97] \<mapsto> [8, 9]] \<and> segments st' 0 = None"
proof -
  obtain r st' where c: "compact_with_cancel sample_prims None sample_visit sample_seg_visit (\<lambda>_. False) 0 sample_store = (r, st')"
    by fastforce
  note seg = sample_compaction [OF c]
  have "capacity st'" by (simp add: capacity_def seg segment_open_def)
  then have "content sample_prims None st' = [[97] \<mapsto> [8, 9]]"
    using compaction_preserves [OF sample_prims_ok _ sample_store_ok sample_visits _ _ c] by (simp add: sample_content)
  with c seg show ?thesis by simp
qed

end
