(* ===== verification/Storage_Tiers.thy ===== *)
theory Storage_Tiers
  imports Storage_Compaction
begin

text \<open>
  Tier compaction races with everything else. \<open>try_compact_tiers\<close> (\<open>src/storage/engine.rs\<close>) takes the
  lock of the shard three times, to reserve, to collect and to commit; in between other threads read,
  write batches, compact the whole shard and cancel such compactions. Here these steps are a relation
  between states, an invariant of the pending merge holds across every one of them, and the commit is
  shown to leave the abstract map as it finds it.
\<close>

section \<open>Steps between the phases\<close>

text \<open>Values are below \<open>2 ^ 30\<close> bytes, segment files below \<open>2 ^ 64\<close>, and identifiers do not run out.\<close>

definition roomy :: "prims \<Rightarrow> zstd option \<Rightarrow> storage \<Rightarrow> bool" where
  "roomy P Z st \<longleftrightarrow> capacity st \<and> next_segment_id st < 0xFFFFFFFFFFFFFFFE \<and>
    (\<forall>k v. content P Z st k = Some v \<longrightarrow> length v < 2 ^ 30)"

inductive shard_step :: "prims \<Rightarrow> zstd option \<Rightarrow> visit \<Rightarrow> seg_visit \<Rightarrow> storage \<Rightarrow> storage \<Rightarrow> bool"
  for P Z visit seg_visit where
  batch: "roomy P Z st \<Longrightarrow> apply_batch P now clock muts is_remote st = (Ok r, st') \<Longrightarrow> roomy P Z st' \<Longrightarrow>
    \<forall>mu \<in> set muts. mutation_size mu < 2 ^ 30 \<Longrightarrow> shard_step P Z visit seg_visit st st'"
| read: "shard_step P Z visit seg_visit st (snd (storage_get P Z k st))"
| compact: "roomy P Z st \<Longrightarrow> compact_with_cancel P Z visit seg_visit cancel clock st = (r, st') \<Longrightarrow> roomy P Z st' \<Longrightarrow>
    shard_step P Z visit seg_visit st st'"

definition seg_visits :: "seg_visit \<Rightarrow> bool" where
  "seg_visits seg_visit \<longleftrightarrow> (\<forall>m. set (seg_visit m) = dom m \<and> distinct (seg_visit m))"

section \<open>The cache never holds a block of an unused identifier\<close>

abbreviation avoids :: "u64 \<Rightarrow> page_cache \<Rightarrow> bool" where
  "avoids tid cache \<equiv> pages.holds_only (\<lambda>b v. block_segment b \<noteq> tid) cache"

lemma unseen_avoids:
  "unseen tid st \<longleftrightarrow> segments st tid = None \<and> tid < next_segment_id st \<and> avoids tid (st_cache st)"
  unfolding unseen_def pages.holds_only_def by blast

lemma read_pointer_avoids:
  assumes "store_ok P Z st" "segments st tid = None" "avoids tid cache"
  shows "avoids tid (snd (read_pointer_internal P Z st p use_cache cache))"
proof (cases "\<exists>sid off l m. p = SegmentPtr sid off l \<and> segments st sid = Some m")
  case True
  then obtain sid off l m where p: "p = SegmentPtr sid off l" "segments st sid = Some m" by blast
  with store_okD(2) [OF assms(1)] have "seg_id (sm_segment m) = sid" by (simp add: meta_ok_def)
  moreover have "sid \<noteq> tid" using p assms(2) by auto
  ultimately have "avoids tid (snd (segment_read_at P Z (sm_segment m) off l use_cache cache))"
    using assms(3) pages.holds_only_get [OF assms(3)]
    by (auto simp: segment_read_at_def Let_def split: prod.splits option.splits result.splits
        intro!: pages.holds_only_put) (metis snd_conv)+
  with p show ?thesis by (auto simp: read_pointer_internal_def split: prod.splits)
next
  case False
  with assms(3) show ?thesis
    by (auto simp: read_pointer_internal_def split: pointer.splits option.splits)
qed

lemma collect_avoids:
  assumes "store_ok P Z st" "segments st tid = None"
  shows "avoids tid cache \<Longrightarrow> avoids tid (snd (collect_entries P Z cancel chosen st ks i cache))"
proof (induction ks arbitrary: i cache)
  case (Cons k ks)
  have "avoids tid cache'" if "read_pointer_internal P Z st p True cache = (r, cache')" for p r cache'
    using read_pointer_avoids [OF assms Cons.prems, of p True] that by simp
  with Cons show ?case
    by (auto simp: Let_def split: prod.splits option.splits pointer.splits result.splits) (metis snd_conv)+
qed simp

section \<open>Invariant of a pending merge\<close>

text \<open>Either a source is gone, or the sources are sealed and every key that still points into them has the
  value \<open>Q\<close> asks for.\<close>

definition gone :: "tier_prep \<Rightarrow> storage \<Rightarrow> bool" where
  "gone prep st \<longleftrightarrow> segments st (tp_s1 prep) = None \<or> segments st (tp_s2 prep) = None"

definition sealed :: "prims \<Rightarrow> zstd option \<Rightarrow> tier_prep \<Rightarrow> (str \<Rightarrow> bytes \<Rightarrow> bool) \<Rightarrow> storage \<Rightarrow> bool" where
  "sealed P Z prep Q st \<longleftrightarrow> active_segment_id st \<notin> {tp_s1 prep, tp_s2 prep} \<and>
    (\<forall>k sid off l. index st k = Some (SegmentPtr sid off l) \<longrightarrow> sid \<in> {tp_s1 prep, tp_s2 prep} \<longrightarrow>
      (\<exists>v. in_segment P Z st sid off l v \<and> Q k v))"

definition pending :: "prims \<Rightarrow> zstd option \<Rightarrow> enc_ctx option \<Rightarrow> tier_prep \<Rightarrow> (str \<Rightarrow> bytes \<Rightarrow> bool) \<Rightarrow> storage \<Rightarrow> bool" where
  "pending P Z enc prep Q st \<longleftrightarrow> store_ok P Z st \<and> same_key enc (st_enc st) \<and> unseen (tp_target prep) st \<and>
    tp_s1 prep < next_segment_id st \<and> tp_s2 prep < next_segment_id st \<and> (gone prep st \<or> sealed P Z prep Q st)"

text \<open>Steps that only add: everything that was readable stays, and pointers change to the active segment at most.\<close>

definition adds :: "prims \<Rightarrow> zstd option \<Rightarrow> storage \<Rightarrow> storage \<Rightarrow> bool" where
  "adds P Z st st' \<longleftrightarrow> store_ok P Z st' \<and> extends P Z st st' \<and>
    (active_segment_id st' = active_segment_id st \<or> next_segment_id st \<le> active_segment_id st') \<and>
    (\<forall>k sid off l. index st' k = Some (SegmentPtr sid off l) \<longrightarrow>
      index st' k = index st k \<or> sid = active_segment_id st \<or> next_segment_id st \<le> sid) \<and>
    (\<forall>tid. unseen tid st \<longrightarrow> avoids tid (st_cache st'))"

lemma unseen_extends:
  assumes "extends P Z st st'" "unseen tid st" "avoids tid (st_cache st')"
  shows "unseen tid st'"
  using assms unfolding unseen_avoids extends_def by (meson order_less_le_trans)

lemma gone_extends:
  assumes "extends P Z st st'" "tp_s1 prep < next_segment_id st" "tp_s2 prep < next_segment_id st" "gone prep st"
  shows "gone prep st'"
  using assms by (auto simp: gone_def extends_def)

lemma pending_adds:
  assumes "pending P Z enc prep Q st" "adds P Z st st'"
  shows "pending P Z enc prep Q st'"
proof -
  have s: "tp_s1 prep < next_segment_id st" "tp_s2 prep < next_segment_id st" "unseen (tp_target prep) st"
    using assms(1) by (auto simp: pending_def)
  have grow: "extends P Z st st'" "next_segment_id st \<le> next_segment_id st'" using assms(2) by (auto simp: adds_def extends_def)
  have "unseen (tp_target prep) st'" using assms(2) s(3) unseen_extends [OF grow(1)] by (simp add: adds_def)
  moreover have "sealed P Z prep Q st'" if q: "sealed P Z prep Q st"
  proof -
    have act: "active_segment_id st' \<notin> {tp_s1 prep, tp_s2 prep}"
      using q assms(2) s(1,2) by (auto simp: sealed_def adds_def)
    have "\<exists>v. in_segment P Z st' sid off l v \<and> Q k v"
      if "index st' k = Some (SegmentPtr sid off l)" "sid \<in> {tp_s1 prep, tp_s2 prep}" for k sid off l
    proof -
      have "sid \<noteq> active_segment_id st" "\<not> next_segment_id st \<le> sid" using q that(2) s(1,2) by (auto simp: sealed_def)
      with that assms(2) have "index st k = Some (SegmentPtr sid off l)" unfolding adds_def by metis
      with q that(2) obtain v where "in_segment P Z st sid off l v" "Q k v" unfolding sealed_def by blast
      with grow(1) show ?thesis unfolding extends_def by blast
    qed
    with act show ?thesis by (simp add: sealed_def)
  qed
  moreover have "same_key enc (st_enc st')"
    using assms(1) grow(1) same_key_trans unfolding pending_def extends_def by (metis same_key_simps(2))
  ultimately show ?thesis
    using assms s grow gone_extends [OF grow(1) s(1,2)] unfolding pending_def adds_def by (meson order_less_le_trans)
qed

section \<open>Every step keeps it\<close>

lemma adds_batch:
  assumes "aead_ok P" "store_ok P Z st" "apply_batch P now clock muts is_remote st = (Ok r, st')"
    and "next_segment_id st < 0xFFFFFFFFFFFFFFFF" "capacity st'" "\<forall>mu \<in> set muts. mutation_size mu < 2 ^ 30"
  shows "adds P Z st st'"
proof -
  note b = apply_batch_content [OF assms]
  then have "index st' k = index st k \<or> sid = active_segment_id st \<or> next_segment_id st \<le> sid"
    if "index st' k = Some (SegmentPtr sid off l)" for k sid off l
    using that by (metis order_refl)
  with b show ?thesis by (auto simp: adds_def unseen_avoids)
qed

lemma adds_trans:
  assumes "adds P Z a b" "adds P Z b c"
  shows "adds P Z a c"
proof -
  have n: "extends P Z a c" "next_segment_id a \<le> next_segment_id b"
    using assms extends_trans [of P Z a b c] by (auto simp: adds_def extends_def)
  have "index c k = index a k \<or> sid = active_segment_id a \<or> next_segment_id a \<le> sid"
    if "index c k = Some (SegmentPtr sid off l)" for k sid off l
    using assms that n(2) unfolding adds_def by (metis order_trans)
  moreover have "active_segment_id c = active_segment_id a \<or> next_segment_id a \<le> active_segment_id c"
    using assms n(2) unfolding adds_def by (metis order_trans)
  moreover have "avoids tid (st_cache c)" if "unseen tid a" for tid
    using that assms unseen_extends [of P Z a b tid] by (simp add: adds_def)
  ultimately show ?thesis using n(1) assms(2) by (simp add: adds_def)
qed

lemma adds_cache:
  assumes "store_ok P Z (st\<lparr>st_cache := cache\<rparr>)" "\<And>tid. segments st tid = None \<Longrightarrow> avoids tid (st_cache st) \<Longrightarrow> avoids tid cache"
  shows "adds P Z st (st\<lparr>st_cache := cache\<rparr>)"
  using assms by (auto simp: adds_def extends_def in_segment_def unseen_avoids)

lemma adds_read:
  assumes "store_ok P Z st"
  shows "adds P Z st (snd (storage_get P Z k st))"
proof -
  have ok: "store_ok P Z (snd (storage_get P Z k st))" using storage_get_content [OF assms] by simp
  have "snd (storage_get P Z k st) = st \<or>
      (\<exists>p. snd (storage_get P Z k st) = st\<lparr>st_cache := snd (read_pointer_internal P Z st p True (st_cache st))\<rparr>)"
    by (auto simp: storage_get_def Let_def split: option.splits pointer.splits prod.splits) (metis snd_conv)+
  then show ?thesis
  proof
    assume "snd (storage_get P Z k st) = st"
    with assms show ?thesis by (simp add: adds_def extends_refl unseen_avoids)
  qed (use ok read_pointer_avoids [OF assms] in \<open>auto intro!: adds_cache\<close>)
qed

lemma adds_rotation:
  assumes "store_ok P Z st" "next_segment_id st < 0xFFFFFFFFFFFFFFFF"
  shows "adds P Z st (forced_rotation st)"
proof -
  have "forced_rotation st = st \<or> forced_rotation st = rotate_segment st"
    by (auto simp: forced_rotation_def split: option.splits)
  moreover have "adds P Z st (rotate_segment st)"
    using rotate_ok [OF assms] by (auto simp: adds_def unseen_avoids) (simp_all add: rotate_segment_def Let_def)
  moreover have "adds P Z st st" using assms(1) by (simp add: adds_def extends_refl unseen_avoids)
  ultimately show ?thesis by metis
qed

lemma adds_rewrite:
  assumes "store_ok P Z st" "rewrite_wal_snapshot P visit clock st = (r, st')"
  shows "adds P Z st st'"
  using rewrite_ok [OF assms] rewrite_fields [OF assms(2)] by (simp add: adds_def unseen_avoids)

lemma adds_write_target:
  assumes "aead_ok P" "\<forall>z. Z = Some z \<longrightarrow> zstd_ok z" "store_ok P Z st" "next_segment_id st < 0xFFFFFFFFFFFFFFFF"
    and "write_target P Z entries st = (r, ptrs, target, tid, st')"
  shows "adds P Z st st'"
  using write_target_ok(1,4,5,7,8) [OF assms] by (simp add: adds_def unseen_avoids)

lemma adds_collect:
  assumes "store_ok P Z st" "collect_entries P Z cancel chosen st ks i (st_cache st) = (r, cache)"
  shows "adds P Z st (st\<lparr>st_cache := cache\<rparr>)"
  using store_ok_cache(1) [OF assms(1) conjunct1 [OF collect_entries_spec [OF assms(1) store_okD(5) [OF assms(1)] assms(2)]]]
    collect_avoids [OF assms(1), of _ "st_cache st" cancel chosen ks i] assms(2)
  by (intro adds_cache) simp_all

text \<open>A completed full compaction takes every sealed segment with it.\<close>

lemma pending_swapped:
  assumes "pending P Z enc prep Q st" "seg_visits seg_visit" "store_ok P Z st'"
    and "next_segment_id st' = next_segment_id st" "st_cache st' = st_cache st" "same_key (st_enc st') (st_enc st)"
    and "segments st' = segments (swap_in level (immutable_ids seg_visit st) tid target ptrs st)"
    and "tp_s1 prep < tid" "tp_s2 prep < tid" "tp_target prep < tid"
  shows "pending P Z enc prep Q st'"
proof -
  have seg: "segments st' sid = (if sid = active_segment_id st then segments st sid else None)" if "sid < tid" for sid
    using assms(2) that
    by (auto simp: assms(7) swap_in_def remove_segments_apply immutable_ids_def seg_visits_def)
  have "gone prep st'"
    using assms(1) seg [OF assms(8)] seg [OF assms(9)] by (auto simp: pending_def gone_def sealed_def)
  moreover have "unseen (tp_target prep) st'"
    using assms(1,4,5) seg [OF assms(10)] by (auto simp: pending_def unseen_avoids)
  moreover have "same_key enc (st_enc st')" using assms(1,6) same_key_trans unfolding pending_def by (metis same_key_simps(2))
  ultimately show ?thesis using assms(1,3,4) by (simp add: pending_def)
qed

lemma pending_compact:
  assumes "aead_ok P" "\<forall>z. Z = Some z \<longrightarrow> zstd_ok z" "visits visit" "seg_visits seg_visit"
    and "roomy P Z st" "pending P Z enc prep Q st" "compact_with_cancel P Z visit seg_visit cancel clock st = (r, st')" "roomy P Z st'"
  shows "pending P Z enc prep Q st'"
proof -
  define st1 where "st1 = forced_rotation st"
  define ids where "ids = immutable_ids seg_visit st1"
  have ok: "store_ok P Z st" using assms(6) by (simp add: pending_def)
  have nx: "next_segment_id st < 0xFFFFFFFFFFFFFFFE" "next_segment_id st < 0xFFFFFFFFFFFFFFFF" 
    using assms(5) by (simp_all add: roomy_def word_less_nat_alt)
  note fr = forced_rotation_ok [OF ok nx(2), folded st1_def]
  have nx1: "next_segment_id st1 < 0xFFFFFFFFFFFFFFFF"
    using fr(3) nx(1) by (simp add: word_less_nat_alt word_le_nat_alt unat_word_ariths)
  have a1: "adds P Z st st1" unfolding st1_def by (rule adds_rotation [OF ok nx(2)])
  have done': "store_ok P Z st'"
    using compact_with_cancel_ok(1) [OF assms(1,2) ok assms(3) nx(1) _ assms(7)] assms(5,8) by (simp add: roomy_def)
  from assms(7) st1_def ids_def show ?thesis
  proof (cases rule: compact_with_cancel_cases)
    case 3
    show ?thesis by (rule pending_adds [OF assms(6) adds_trans [OF a1 adds_rewrite [OF fr(1) 3]]])
  next
    case (4 r1 cache)
    show ?thesis unfolding 4(2) by (rule pending_adds [OF assms(6) adds_trans [OF a1 adds_collect [OF fr(1) 4(1)]]])
  next
    case (5 entries cache r2 ptrs target tid st3)
    note a2 = adds_trans [OF a1 adds_collect [OF fr(1) 5(1)]]
    have "store_ok P Z (st1\<lparr>st_cache := cache\<rparr>)" using a2 by (simp add: adds_def)
    moreover have "next_segment_id (st1\<lparr>st_cache := cache\<rparr>) < 0xFFFFFFFFFFFFFFFF" using nx1 by simp
    ultimately have "adds P Z (st1\<lparr>st_cache := cache\<rparr>) st3"
      and wf: "active_segment_id st3 = active_segment_id st1" "segments st3 = segments st1" "tid = next_segment_id st1"
      using adds_write_target [OF assms(1,2) _ _ 5(2)] write_target_ok(5,9,10) [OF assms(1,2) _ _ 5(2)] by simp_all
    then have p3: "pending P Z enc prep Q st3" by (intro pending_adds [OF assms(6) adds_trans [OF a2]])
    from 5(3) show ?thesis
    proof
      assume 6: "r2 = Ok () \<and> rewrite_wal_snapshot P visit clock (swap_in 1 ids tid target ptrs st3) = (r, st')"
      have "next_segment_id st \<le> tid"
        using a1 wf(3) by (simp add: adds_def extends_def)
      moreover have "tp_s1 prep < next_segment_id st" "tp_s2 prep < next_segment_id st" "tp_target prep < next_segment_id st"
        using assms(6) by (auto simp: pending_def unseen_def)
      moreover have "ids = immutable_ids seg_visit st3" using wf(1,2) by (simp add: ids_def immutable_ids_def)
      ultimately show ?thesis
        using rewrite_fields [OF conjunct2 [OF 6]]
        by (intro pending_swapped [OF p3 assms(4) done', where tid = tid and level = 1 and target = target and ptrs = ptrs])
          (simp_all add: swap_in_def)
    qed (use p3 in simp)
  qed (use assms(6) pending_adds [OF assms(6) a1] in simp_all)
qed

lemma pending_step:
  assumes "aead_ok P" "\<forall>z. Z = Some z \<longrightarrow> zstd_ok z" "visits visit" "seg_visits seg_visit"
    and "shard_step P Z visit seg_visit st st'" "pending P Z enc prep Q st"
  shows "pending P Z enc prep Q st'"
  using assms(5,6)
proof cases
  case (batch now clock muts is_remote r)
  have "store_ok P Z st" "next_segment_id st < 0xFFFFFFFFFFFFFFFF" "capacity st'"
    using batch(1,3) assms(6) by (simp_all add: pending_def roomy_def word_less_nat_alt)
  with batch(2,4) show ?thesis by (intro pending_adds [OF assms(6) adds_batch [OF assms(1)]])
next
  case (read k)
  have "store_ok P Z st" using assms(6) by (simp add: pending_def)
  then show ?thesis unfolding read by (rule pending_adds [OF assms(6) adds_read])
next
  case (compact cancel clock r)
  with assms show ?thesis by (intro pending_compact [OF assms(1-4) compact(1) assms(6) compact(2,3)])
qed

lemma pending_steps:
  assumes "aead_ok P" "\<forall>z. Z = Some z \<longrightarrow> zstd_ok z" "visits visit" "seg_visits seg_visit"
    and "(shard_step P Z visit seg_visit)\<^sup>*\<^sup>* st st'" "pending P Z enc prep Q st"
  shows "pending P Z enc prep Q st'"
  using assms(5,6) by (induction rule: rtranclp_induct) (auto intro: pending_step [OF assms(1-4)])

section \<open>The phases\<close>

lemma prepare_pending:
  assumes "store_ok P Z st" "seg_visits seg_visit" "next_segment_id st < 0xFFFFFFFFFFFFFFFF"
    and "tiers_prepare seg_visit levels st = (Some prep, st')"
  shows "pending P Z (st_enc st) prep (\<lambda>k v. True) st'"
proof -
  from assms(4) obtain level where prep: "tier_candidate seg_visit levels st = Some (level, tp_s1 prep, tp_s2 prep)"
    "tp_target prep = next_segment_id st" and st': "st' = st\<lparr>next_segment_id := next_segment_id st + 1\<rparr>"
    by (auto simp: tiers_prepare_def split: option.splits)
  define ids where "ids = filter (\<lambda>sid. map_option sm_level (segments st sid) = Some level) (immutable_ids seg_visit st)"
  have "2 \<le> length ids" "tp_s1 prep = ids ! 0" "tp_s2 prep = ids ! 1"
    using prep(1) by (auto simp: tier_candidate_def ids_def find_Some_iff)
  then have "tp_s1 prep \<in> set ids" "tp_s2 prep \<in> set ids" by (auto intro!: nth_mem)
  then have src: "tp_s1 prep \<noteq> active_segment_id st" "tp_s2 prep \<noteq> active_segment_id st"
    "segments st (tp_s1 prep) \<noteq> None" "segments st (tp_s2 prep) \<noteq> None"
    by (auto simp: ids_def immutable_ids_def)
  have less: "next_segment_id st < next_segment_id st'" using u64_succ_less [OF assms(3)] by (simp add: st')
  have "tp_s1 prep < next_segment_id st" "tp_s2 prep < next_segment_id st"
    using src(3,4) store_okD(2) [OF assms(1)] by (auto simp: meta_ok_def)
  then have n: "tp_s1 prep < next_segment_id st'" "tp_s2 prep < next_segment_id st'" using less by auto
  have same: "st' = st\<lparr>next_segment_id := next_segment_id st', st_enc := st_enc st\<rparr>" by (simp add: st')
  have ok: "store_ok P Z st'"
    by (subst same) (rule st_enc_ok(1) [OF assms(1)], use less in simp_all)
  have un: "unseen (tp_target prep) st'"
    unfolding prep(2) by (subst same) (rule unseen_next [OF assms(1) less])
  have "sealed P Z prep (\<lambda>k v. True) st'"
    using src(1,2) store_okD(3) [OF ok] by (simp add: sealed_def) (simp add: st')
  with ok un n show ?thesis by (simp add: pending_def) (simp add: st')
qed

lemma collect_pending:
  assumes "visits visit" "pending P Z enc prep (\<lambda>k v. True) st" "tiers_collect P Z visit prep st = (Ok entries, st')"
  shows "pending P Z enc prep (\<lambda>k v. map_of entries k = Some v) st'" "distinct (map fst entries)"
    "\<And>k v. (k, v) \<in> set entries \<Longrightarrow> content P Z st k = Some v"
proof -
  have ok: "store_ok P Z st" using assms(2) by (simp add: pending_def)
  from assms(3) obtain cache where c: "collect_entries P Z (\<lambda>_. False) (\<lambda>sid. sid = tp_s1 prep \<or> sid = tp_s2 prep) st
      (visit (index st)) 0 (st_cache st) = (Ok entries, cache)" "st' = st\<lparr>st_cache := cache\<rparr>"
    by (auto simp: tiers_collect_def Let_def split: prod.splits)
  note cs = compact_stages [OF ok assms(1) c(1)]
  have same: "in_segment P Z st' = in_segment P Z st" by (simp add: c(2) in_segment_def fun_eq_iff)
  have "pending P Z enc prep (\<lambda>k v. True) st'"
    unfolding c(2) by (rule pending_adds [OF assms(2) adds_collect [OF ok c(1)]])
  moreover have "sealed P Z prep (\<lambda>k v. map_of entries k = Some v) st'" if "sealed P Z prep (\<lambda>k v. True) st'"
  proof -
    have "\<exists>v. in_segment P Z st' sid off l v \<and> map_of entries k = Some v"
      if i: "index st' k = Some (SegmentPtr sid off l)" "sid \<in> {tp_s1 prep, tp_s2 prep}" for k sid off l
    proof (cases "map_of entries k")
      case None
      with cs(3) [OF None, of sid off l] i show ?thesis by (simp add: c(2))
    next
      case (Some v)
      from cs(2) [OF Some] i show ?thesis by (auto simp: Some same) (simp_all add: c(2))
    qed
    with that show ?thesis by (simp add: sealed_def)
  qed
  ultimately show "pending P Z enc prep (\<lambda>k v. map_of entries k = Some v) st'" by (auto simp: pending_def)
  show "distinct (map fst entries)" by (rule cs(1))
  show "\<And>k v. (k, v) \<in> set entries \<Longrightarrow> content P Z st k = Some v" by (rule cs(4))
qed

lemma merge_pending:
  assumes "aead_ok P" "\<forall>z. Z = Some z \<longrightarrow> zstd_ok z" "pending P Z enc prep Q st"
    and "tiers_merge P Z prep entries st = (Ok (), ptrs, target, st')" "distinct (map fst entries)"
    and "length (seg_file target) < 2 ^ 64" "\<forall>(k, v) \<in> set entries. length v < 2 ^ 30"
  shows "pending P Z enc prep Q st'" "\<And>st. same_key enc (st_enc st) \<Longrightarrow> target_ok P Z entries (tp_target prep) target ptrs st"
proof -
  have ok: "store_ok P Z st" "same_key enc (st_enc st)" using assms(3) by (simp_all add: pending_def)
  from assms(4) have m: "compact_segment P Z entries (tp_target prep) (use_compression st)
      (segment_open [] (tp_target prep) (st_enc st)) = (Ok (), ptrs, target)"
    and st': "st' = st\<lparr>st_enc := seg_enc target\<rparr>"
    by (auto simp: tiers_merge_def Let_def split: prod.splits)
  have key: "same_key (seg_enc target) (st_enc st)"
    using compact_segment_key [OF m] by (simp add: segment_open_def)
  have same: "st' = st\<lparr>next_segment_id := next_segment_id st, st_enc := seg_enc target\<rparr>" by (simp add: st')
  note e = st_enc_ok [OF ok(1) key order_refl, folded same]
  have "adds P Z st st'" using e(1) by (simp add: adds_def extends_def e(3)) (simp add: st' key unseen_avoids)
  then show "pending P Z enc prep Q st'" by (rule pending_adds [OF assms(3)])
  show "target_ok P Z entries (tp_target prep) target ptrs st0" if "same_key enc (st_enc st0)" for st0
    using compact_segment_target [OF assms(1,2,5) m assms(6,7)] ok(2) that same_key_trans by (metis same_key_simps(2))
qed

text \<open>Only the keys that still point into a source are taken over from the merged segment.\<close>

lemma commit_ready:
  assumes "pending P Z enc prep (\<lambda>k v. map_of entries k = Some v) st" "\<not> gone prep st"
    and "target_ok P Z entries (tp_target prep) target ptrs st"
  shows "swap_ready P Z [tp_s1 prep, tp_s2 prep] (tp_target prep) target
    (\<lambda>k. if still_merged prep st k then ptrs k else None) st"
proof -
  have seal: "sealed P Z prep (\<lambda>k v. map_of entries k = Some v) st" and un: "unseen (tp_target prep) st"
    using assms(1,2) by (auto simp: pending_def)
  have still: "still_merged prep st k \<longleftrightarrow> (\<exists>sid off l. index st k = Some (SegmentPtr sid off l) \<and> sid \<in> {tp_s1 prep, tp_s2 prep})" for k
    by (auto simp: still_merged_def split: option.splits pointer.splits)
  have val: "\<exists>sid off l off' l' v. index st k = Some (SegmentPtr sid off l) \<and> in_segment P Z st sid off l v \<and>
      ptrs k = Some (SegmentPtr (tp_target prep) off' l') \<and> placed P Z (st_enc st) (seg_file target) off' l' v"
    if "still_merged prep st k" for k
  proof -
    from that still obtain sid off l where i: "index st k = Some (SegmentPtr sid off l)" "sid \<in> {tp_s1 prep, tp_s2 prep}" by blast
    with seal obtain v where "in_segment P Z st sid off l v" "map_of entries k = Some v" unfolding sealed_def by blast
    with i assms(3) show ?thesis unfolding target_ok_def by blast
  qed
  show ?thesis
    unfolding swap_ready_def
  proof (intro conjI allI impI)
    show "unseen (tp_target prep) st" by (rule un)
    show "active_segment_id st \<notin> set [tp_s1 prep, tp_s2 prep]" using seal by (simp add: sealed_def)
    show "seg_id target = tp_target prep" "seg_map target \<le> length (seg_file target)" "same_key (seg_enc target) (st_enc st)"
      using assms(3) by (simp_all add: target_ok_def)
    show "\<exists>sid off l off' l' v. index st k = Some (SegmentPtr sid off l) \<and> in_segment P Z st sid off l v \<and>
        p = SegmentPtr (tp_target prep) off' l' \<and> placed P Z (st_enc st) (seg_file target) off' l' v"
      if "(if still_merged prep st k then ptrs k else None) = Some p" for k p
      using that val [of k] by (auto split: if_splits)
    show "sid \<notin> set [tp_s1 prep, tp_s2 prep]"
      if "(if still_merged prep st k then ptrs k else None) = None" "index st k = Some (SegmentPtr sid off l)" for k sid off l
      using that val [of k] still [of k] by (auto split: if_splits)
  qed
qed

lemma commit_ok:
  assumes "pending P Z enc prep (\<lambda>k v. map_of entries k = Some v) st"
    and "target_ok P Z entries (tp_target prep) target ptrs st"
    and "tiers_commit P visit clock prep ptrs target st = (r, st')"
  shows "store_ok P Z st'" "content P Z st' = content P Z st"
proof -
  have ok: "store_ok P Z st" using assms(1) by (simp add: pending_def)
  have "store_ok P Z st' \<and> content P Z st' = content P Z st"
  proof (cases "sources_ok prep st")
    case False
    with ok assms(3) show ?thesis by (simp add: tiers_commit_def)
  next
    case True
    then have "\<not> gone prep st" by (auto simp: gone_def sources_ok_def)
    note sw = swap_ok [OF ok commit_ready [OF assms(1) this assms(2)], of "tp_level prep + 1"]
    obtain r1 st2 where rw: "rewrite_wal_snapshot P visit clock (swap_in (tp_level prep + 1) [tp_s1 prep, tp_s2 prep] (tp_target prep)
        target (\<lambda>k. if still_merged prep st k then ptrs k else None) st) = (r1, st2)" by fastforce
    note rk = rewrite_ok [OF sw(1) rw]
    have "st' = st2 \<or> st' = st2\<lparr>st_wal := flush clock (st_wal st2)\<rparr>"
      using assms(3) True rw by (auto simp: tiers_commit_def Let_def split: result.splits)
    moreover have "wal_enc (flush clock (st_wal st2)) = wal_enc (st_wal st2)"
      by (simp add: flush_def write_all_def Let_def)
    ultimately show ?thesis using rk sw(2) wal_update_ok [OF rk(1)] by auto
  qed
  then show "store_ok P Z st'" "content P Z st' = content P Z st" by blast+
qed

text \<open>C4. Tier compaction is invisible whatever happens between its phases. Other threads may read, write
  batches, delete, and run, fail or cancel full compactions between the reservation, the collection, the
  merge and the commit; the commit then leaves the abstract map exactly as it found it, so no write or
  deletion that landed during the merge is lost or undone, and it keeps the invariant. When a source has
  vanished the merge is dropped.\<close>

theorem tier_compaction_race:
  assumes "aead_ok P" "\<forall>z. Z = Some z \<longrightarrow> zstd_ok z" "visits visit" "seg_visits seg_visit"
    and "store_ok P Z st" "next_segment_id st < 0xFFFFFFFFFFFFFFFF"
    and "tiers_prepare seg_visit levels st = (Some prep, st1)"
    and "(shard_step P Z visit seg_visit)\<^sup>*\<^sup>* st1 st2"
    and "tiers_collect P Z visit prep st2 = (Ok entries, st3)" "\<forall>k v. content P Z st2 k = Some v \<longrightarrow> length v < 2 ^ 30"
    and "(shard_step P Z visit seg_visit)\<^sup>*\<^sup>* st3 st4"
    and "tiers_merge P Z prep entries st4 = (Ok (), ptrs, target, st5)" "length (seg_file target) < 2 ^ 64"
    and "(shard_step P Z visit seg_visit)\<^sup>*\<^sup>* st5 st6"
    and "tiers_commit P visit clock prep ptrs target st6 = (r, st7)"
  shows "store_ok P Z st7 \<and> content P Z st7 = content P Z st6"
proof -
  note steps = pending_steps [OF assms(1-4)]
  note 2 = steps [OF assms(8) prepare_pending [OF assms(5,4,6,7)]]
  note 3 = collect_pending [OF assms(3) 2 assms(9)]
  have sizes: "\<forall>(k, v) \<in> set entries. length v < 2 ^ 30" using 3(3) assms(10) by auto
  note 5 = merge_pending [OF assms(1,2) steps [OF assms(11) 3(1)] assms(12) 3(2) assms(13) sizes]
  note 6 = steps [OF assms(14) 5(1)]
  then have "target_ok P Z entries (tp_target prep) target ptrs st6" by (intro 5(2)) (simp add: pending_def)
  from commit_ok [OF 6 this assms(15)] show ?thesis by blast
qed

section \<open>Sample\<close>

definition sample_tiers :: storage where
  "sample_tiers = rotate_segment (rotate_segment sample_store)"

definition all_segments :: seg_visit where
  "all_segments m = sorted_list_of_set (dom m)"

lemma all_segments_visits: "seg_visits all_segments"
  by (simp add: seg_visits_def all_segments_def)

lemma sample_tiers_ok: "store_ok sample_prims Z sample_tiers" "content sample_prims Z sample_tiers = [[97] \<mapsto> [8, 9]]"
proof -
  note a = rotate_ok [OF sample_store_ok [of Z]]
  have n: "next_segment_id (rotate_segment sample_store) = 2" by (simp add: rotate_segment_def)
  note b = rotate_ok [OF a(1)]
  show "store_ok sample_prims Z sample_tiers" "content sample_prims Z sample_tiers = [[97] \<mapsto> [8, 9]]"
    using a b n by (simp_all add: sample_tiers_def sample_content)
qed

lemma sample_tiers_fields:
  "segments sample_tiers = [0 \<mapsto> \<lparr>sm_level = 0, sm_segment = segment_open (u32_le 2 @ [8, 9]) 0 None\<rparr>,
     1 \<mapsto> \<lparr>sm_level = 0, sm_segment = segment_open [] 1 None\<rparr>, 2 \<mapsto> \<lparr>sm_level = 0, sm_segment = segment_open [] 2 None\<rparr>]"
  "active_segment_id sample_tiers = 2" "next_segment_id sample_tiers = 3" "index sample_tiers = [[97] \<mapsto> SegmentPtr 0 0 2]"
  "st_enc sample_tiers = None" "\<not> use_compression sample_tiers" "st_cache sample_tiers = cache_new 64"
  "compaction_threshold sample_tiers = 0"
  by (simp_all add: sample_tiers_def rotate_segment_def sample_plain)

lemma sample_prepare:
  "tiers_prepare all_segments [0] sample_tiers =
    (Some \<lparr>tp_level = 0, tp_s1 = 0, tp_s2 = 1, tp_target = 3\<rparr>, sample_tiers\<lparr>next_segment_id := 4\<rparr>)"
proof -
  have "dom (segments sample_tiers) = {0, 1, 2}" by (auto simp: sample_tiers_fields)
  then have "all_segments (segments sample_tiers) = [0, 1, 2]" by (simp add: all_segments_def)
  then show ?thesis by (simp add: tiers_prepare_def tier_candidate_def immutable_ids_def sample_tiers_fields)
qed

definition sample_prep :: tier_prep where
  "sample_prep = \<lparr>tp_level = 0, tp_s1 = 0, tp_s2 = 1, tp_target = 3\<rparr>"

lemma sample_collect:
  obtains cache where "tiers_collect sample_prims None sample_visit sample_prep (sample_tiers\<lparr>next_segment_id := 4\<rparr>) =
    (Ok [([97], [8, 9])], sample_tiers\<lparr>next_segment_id := 4, st_cache := cache\<rparr>)"
    "store_ok sample_prims None (sample_tiers\<lparr>next_segment_id := 4, st_cache := cache\<rparr>)"
    "content sample_prims None (sample_tiers\<lparr>next_segment_id := 4, st_cache := cache\<rparr>) = [[97] \<mapsto> [8, 9]]"
proof -
  let ?st = "sample_tiers\<lparr>next_segment_id := 4, st_enc := st_enc sample_tiers\<rparr>"
  have same: "?st = sample_tiers\<lparr>next_segment_id := 4\<rparr>" by simp
  have "next_segment_id sample_tiers \<le> 4" by (simp add: sample_tiers_fields)
  note ok = st_enc_ok [OF sample_tiers_ok(1) [of None] _ this, of "st_enc sample_tiers", simplified same, simplified]
  let ?st = "sample_tiers\<lparr>next_segment_id := 4\<rparr>"
  obtain cache where r: "read_pointer_internal sample_prims None ?st (SegmentPtr 0 0 2) True (st_cache ?st) = (Ok (Some [8, 9]), cache)"
    using read_pointer_content(1) [OF ok(1), of "[97]" "SegmentPtr 0 0 2" "st_cache ?st" True] store_okD(5) [OF ok(1)] ok(2)
    by (cases "read_pointer_internal sample_prims None ?st (SegmentPtr 0 0 2) True (st_cache ?st)")
      (simp add: sample_tiers_fields sample_tiers_ok)
  then have "pages.holds_only (cached_ok sample_prims None ?st) cache"
    using read_pointer_content(2) [OF ok(1), of "[97]" "SegmentPtr 0 0 2" "st_cache ?st" True] store_okD(5) [OF ok(1)]
    by (simp add: sample_tiers_fields)
  note c = store_ok_cache [OF ok(1) this]
  have "tiers_collect sample_prims None sample_visit sample_prep ?st = (Ok [([97], [8, 9])], ?st\<lparr>st_cache := cache\<rparr>)"
    using r by (simp add: tiers_collect_def sample_tiers_fields sample_visit_single sample_prep_def)
  with c ok(2) that show thesis by (simp add: sample_tiers_ok)
qed

lemma sample_delete:
  assumes "apply_batch sample_prims 7 0 [MDelete [97]] False (sample_tiers\<lparr>next_segment_id := 4, st_cache := cache\<rparr>) = (Ok r, st')"
  shows "segments st' = segments sample_tiers" "next_segment_id st' = 4"
  using assms
  by (auto simp: apply_batch_def maybe_rotate_active_segment_def plan_batch_def segment_open_def on_wal_def Let_def sample_tiers_fields
      split: prod.splits result.splits)

text \<open>A deletion between the collection and the merge survives the commit.\<close>

theorem tier_compaction_race_witness:
  "\<exists>prep st1 entries st3 st4 ptrs target st5 r st7.
    tiers_prepare all_segments [0] sample_tiers = (Some prep, st1) \<and>
    tiers_collect sample_prims None sample_visit prep st1 = (Ok entries, st3) \<and>
    shard_step sample_prims None sample_visit all_segments st3 st4 \<and> entries = [([97], [8, 9])] \<and>
    tiers_merge sample_prims None prep entries st4 = (Ok (), ptrs, target, st5) \<and>
    tiers_commit sample_prims sample_visit 0 prep ptrs target st5 = (r, st7) \<and>
    content sample_prims None st7 = Map.empty"
proof -
  note prep = sample_prepare [folded sample_prep_def]
  obtain cache where c: "tiers_collect sample_prims None sample_visit sample_prep (sample_tiers\<lparr>next_segment_id := 4\<rparr>) =
      (Ok [([97], [8, 9])], sample_tiers\<lparr>next_segment_id := 4, st_cache := cache\<rparr>)"
    "store_ok sample_prims None (sample_tiers\<lparr>next_segment_id := 4, st_cache := cache\<rparr>)"
    "content sample_prims None (sample_tiers\<lparr>next_segment_id := 4, st_cache := cache\<rparr>) = [[97] \<mapsto> [8, 9]]"
    by (rule sample_collect)
  let ?st3 = "sample_tiers\<lparr>next_segment_id := 4, st_cache := cache\<rparr>"
  obtain r4 st4 where b: "apply_batch sample_prims 7 0 [MDelete [97]] False ?st3 = (Ok r4, st4)"
    using apply_batch_total [of ?st3 sample_prims 7 0 "[MDelete [97]]" False] by (auto simp: seals_def sample_tiers_fields)
  have cap: "capacity ?st3" "capacity st4"
    using sample_delete [OF b] by (auto simp: capacity_def sample_tiers_fields segment_open_def split: if_splits)
  note bc = apply_batch_content [OF sample_prims_ok c(2) b _ cap(2)]
  have c4: "content sample_prims None st4 = Map.empty" using bc c(3) by (simp add: fun_eq_iff)
  have enc4: "st_enc st4 = None" using bc by (simp add: extends_def same_key_def sample_tiers_fields)
  have step: "shard_step sample_prims None sample_visit all_segments ?st3 st4"
    using b cap c(3) c4 sample_delete [OF b] by (intro shard_step.batch) (auto simp: roomy_def)
  let ?t = "(segment_open [] 3 None)\<lparr>seg_file := u32_le 2 @ [8, 9]\<rparr>"
  have m: "tiers_merge sample_prims None sample_prep [([97], [8, 9])] st4 = (Ok (), [[97] \<mapsto> SegmentPtr 3 0 2], ?t, st4\<lparr>st_enc := None\<rparr>)"
    by (simp add: tiers_merge_def compact_segment_def segment_open_def segment_truncate_def sample_prep_def enc4
        compress_value_def seal_value_def append_raw_with_len_def Let_def)
  obtain r st7 where k: "tiers_commit sample_prims sample_visit 0 sample_prep [[97] \<mapsto> SegmentPtr 3 0 2] ?t (st4\<lparr>st_enc := None\<rparr>) = (r, st7)"
    by fastforce
  have "content sample_prims None (sample_tiers\<lparr>next_segment_id := 4\<rparr>) = [[97] \<mapsto> [8, 9]]"
    using c(3) pointer_content_cong [of ?st3 "sample_tiers\<lparr>next_segment_id := 4\<rparr>"] by (simp add: content_def fun_eq_iff)
  then have "content sample_prims None st7 = content sample_prims None (st4\<lparr>st_enc := None\<rparr>)"
    using tier_compaction_race [OF sample_prims_ok _ sample_visits all_segments_visits sample_tiers_ok(1) _ prep rtranclp.rtrancl_refl
      c(1) _ r_into_rtranclp [of "shard_step sample_prims None sample_visit all_segments", OF step] m _ rtranclp.rtrancl_refl k]
    by (simp add: sample_tiers_fields split: if_splits)
  also have "st4\<lparr>st_enc := None\<rparr> = st4" by (simp add: enc4 [symmetric])
  finally have "content sample_prims None st7 = Map.empty" using c4 by simp
  with prep c(1) step m k show ?thesis by (intro exI conjI) (assumption | rule refl)+
qed

end
