(* ===== verification/Decimal.thy ===== *)
theory Decimal
  imports Prelude
begin

text \<open>
  Decimal numbers as the Rust library prints and parses them: \<open>dec\<close> is the display of an unsigned
  integer, \<open>parse_uint\<close> is \<open>str::parse\<close> for an unsigned type with the given largest value (an optional
  plus sign, then at least one digit, no overflow).
\<close>

fun dec :: "nat \<Rightarrow> str" where
  "dec n = (if n < 10 then [of_nat (48 + n)] else dec (n div 10) @ [of_nat (48 + n mod 10)])"

declare dec.simps [simp del]

fun parse_digits :: "nat \<Rightarrow> nat \<Rightarrow> str \<Rightarrow> nat option" where
  "parse_digits largest acc [] = Some acc"
| "parse_digits largest acc (b # bs) =
    (if 48 \<le> b \<and> b \<le> 57 \<and> acc * 10 + unat (b - 48) \<le> largest
     then parse_digits largest (acc * 10 + unat (b - 48)) bs else None)"

definition parse_uint :: "nat \<Rightarrow> str \<Rightarrow> nat option" where
  "parse_uint largest bs =
    (case bs of
       [] \<Rightarrow> None
     | b # rest \<Rightarrow>
         if b = 43 then (if rest = [] then None else parse_digits largest 0 rest)
         else parse_digits largest 0 bs)"

abbreviation digit :: "byte \<Rightarrow> bool" where
  "digit b \<equiv> 48 \<le> b \<and> b \<le> 57"

lemma digit_of_nat:
  assumes "d < 10"
  shows "digit (of_nat (48 + d)) \<and> unat (of_nat (48 + d) - 48 :: byte) = d"
proof -
  have u: "unat (of_nat (48 + d) :: byte) = 48 + d" using assms by (simp only: unat_of_nat) simp
  have "of_nat (48 + d) - 48 = (of_nat d :: byte)" by simp
  then have "unat (of_nat (48 + d) - 48 :: byte) = d" using assms by (simp only: unat_of_nat) simp
  with u assms show ?thesis by (simp only: word_le_nat_alt) simp
qed

lemma dec_nonempty: "dec n \<noteq> []"
  by (subst dec.simps) simp

lemma dec_digits: "\<forall>b \<in> set (dec n). digit b"
proof (induction n rule: dec.induct)
  case (1 n)
  then show ?case
    using digit_of_nat [of n] digit_of_nat [of "n mod 10"] by (subst dec.simps) auto
qed

lemma parse_digits_append:
  "parse_digits largest acc (xs @ ys) = Option.bind (parse_digits largest acc xs) (\<lambda>a. parse_digits largest a ys)"
  by (induction xs arbitrary: acc) simp_all

lemma parse_dec: "n \<le> largest \<Longrightarrow> parse_digits largest 0 (dec n) = Some n"
proof (induction n rule: dec.induct)
  case (1 n)
  show ?case
  proof (cases "n < 10")
    case True
    with 1 digit_of_nat [OF True] show ?thesis by (simp add: dec.simps [of n])
  next
    case False
    then have "parse_digits largest 0 (dec (n div 10)) = Some (n div 10)"
      using 1 by (meson div_le_dividend order_trans)
    moreover have "n mod 10 < 10" by simp
    note digit_of_nat [OF this]
    ultimately show ?thesis
      using False 1(2) by (simp add: dec.simps [of n] parse_digits_append)
  qed
qed

lemma parse_uint_dec: "n \<le> largest \<Longrightarrow> parse_uint largest (dec n) = Some n"
  using dec_digits [of n] dec_nonempty [of n] parse_dec [of n largest]
  by (auto simp: parse_uint_def word_le_nat_alt split: list.splits)

end
