(* ===== verification/Config.thy ===== *)
theory Config
  imports Errors
begin

text \<open>
  The configuration of the engine (\<open>HakoConfig\<close> in \<open>src/config.rs\<close>) with its defaults. The durability
  modes and the clamp of the group-commit window are in \<open>Errors\<close>.
\<close>

record hako_config =
  mmap_size :: nat
  page_size :: nat
  page_cache_capacity :: nat
  query_workers :: nat
  auto_compaction_threshold_bytes :: nat
  cfg_durability_mode :: durability_mode
  cfg_group_commit_max_ops :: nat
  group_commit_interval_ms :: nat
  encryption_key :: "str option"
  encrypted_cols :: "str set option"
  enable_audit_log :: bool
  audit_log_path :: "str option"
  max_inlined_memory_bytes :: nat
  cfg_use_compression :: bool
  compression_level :: int
  value_blob_threshold_bytes :: nat
  replication_collections :: "str list option"
  wal_reserve_bytes :: nat
  background_maintenance :: bool
  sync_excluded :: "str list"
  lazy_collections :: "str list"
  soft_delete_retention_secs :: nat
  soft_delete_sweep_interval_secs :: nat
  soft_delete_max_bytes :: nat
  soft_delete_max_count :: nat

definition default_config :: hako_config where
  "default_config =
    \<lparr>mmap_size = 256 * 1024 * 1024,
     page_size = 4096,
     page_cache_capacity = 8192,
     query_workers = 4,
     auto_compaction_threshold_bytes = 8 * 1024 * 1024,
     cfg_durability_mode = Interval,
     cfg_group_commit_max_ops = 128,
     group_commit_interval_ms = default_group_commit_interval_ms,
     encryption_key = None,
     encrypted_cols = None,
     enable_audit_log = False,
     audit_log_path = None,
     max_inlined_memory_bytes = 64 * 1024 * 1024,
     cfg_use_compression = False,
     compression_level = 3,
     value_blob_threshold_bytes = 16 * 1024,
     replication_collections = None,
     wal_reserve_bytes = 4 * 1024 * 1024,
     background_maintenance = True,
     sync_excluded = [],
     lazy_collections = [],
     soft_delete_retention_secs = 86400,
     soft_delete_sweep_interval_secs = 300,
     soft_delete_max_bytes = 64 * 1024 * 1024,
     soft_delete_max_count = 1000000\<rparr>"

end
