(* ===== verification/Storage_Open.thy ===== *)
theory Storage_Open
  imports Storage_Tiers Decimal Config
begin

text \<open>
  Opening a shard (\<open>open\<close> and \<open>recover\<close> of \<open>src/storage/engine.rs\<close>): the names of segment files, the
  diagnosis of an empty open, the recovery of the index from the log, and the rewrite of a bloated log.
  The directory is given by the contents of the log and of the blob file and by the entries in the order
  in which they are listed.
\<close>

section \<open>Segment names\<close>

definition segment_name :: "u32 \<Rightarrow> u64 \<Rightarrow> str" where
  "segment_name level sid = ascii ''segment-l'' @ dec (unat level) @ ascii ''-'' @ dec (unat sid) @ ascii ''.dat''"

definition split_once :: "'a \<Rightarrow> 'a list \<Rightarrow> ('a list \<times> 'a list) option" where
  "split_once c xs =
    (case dropWhile (\<lambda>x. x \<noteq> c) xs of
       [] \<Rightarrow> None
     | _ # rest \<Rightarrow> Some (takeWhile (\<lambda>x. x \<noteq> c) xs, rest))"

definition parse_segment_name :: "str \<Rightarrow> (u32 \<times> u64) option" where
  "parse_segment_name name =
    (if \<not> prefix (ascii ''segment-l'') name \<or> \<not> suffix (ascii ''.dat'') name then None
     else case split_once 0x2D (subslice 9 (length name - 4) name) of
         None \<Rightarrow> None
       | Some (level, sid) \<Rightarrow>
           (case parse_uint (2 ^ 32 - 1) level of
              None \<Rightarrow> None
            | Some l \<Rightarrow> map_option (\<lambda>i. (of_nat l, of_nat i)) (parse_uint (2 ^ 64 - 1) sid)))"

definition empty_open_diagnosis_message :: "str \<Rightarrow> nat \<Rightarrow> nat \<Rightarrow> nat \<Rightarrow> nat \<Rightarrow> str option" where
  "empty_open_diagnosis_message name live ops_replayed wal_data_bytes nonzero_segments =
    (if 0 < live \<or> 0 < ops_replayed then None
     else if wal_data_bytes < 1024 \<and> nonzero_segments = 0 then None
     else Some (ascii ''[hakodb][loud-open] collection '' @ [0x27] @ name @ [0x27] @ ascii '' recovered 0 live documents '' @
       ascii ''and the WAL replay produced 0 operations, yet its on-disk history is '' @
       ascii ''not empty: wal.log holds '' @ dec wal_data_bytes @ ascii '' real record bytes and '' @
       dec nonzero_segments @ ascii '' nonzero segment file(s). Likely causes: (a) a live copy whose WAL/segment tail was '' @
       ascii ''truncated mid-record, (b) the copy skipped segment files, (c) a '' @
       ascii ''hand-edit or corruption that detached the WAL from its history. '' @
       ascii ''Compare against the source directory before writing anything.''))"

section \<open>Opening\<close>

record directory =
  dir_wal :: bytes
  dir_blobs :: bytes
  dir_entries :: "(str \<times> bytes) list"

text \<open>The segments found, in the order of the listing.\<close>

definition found_segments :: "(str \<times> bytes) list \<Rightarrow> (u32 \<times> u64 \<times> bytes) list" where
  "found_segments entries =
    List.map_filter (\<lambda>(name, contents). map_option (\<lambda>(level, sid). (level, sid, contents)) (parse_segment_name name)) entries"

definition recover :: "prims \<Rightarrow> visit \<Rightarrow> storage \<Rightarrow> (nat \<times> storage) result" where
  "recover P visit st =
    and_then (replay P (st_wal st)) (\<lambda>(ops, w). Ok (length ops, recover_index visit ops (st\<lparr>st_wal := w\<rparr>)))"

definition nonzero_segments :: "seg_visit \<Rightarrow> storage \<Rightarrow> nat" where
  "nonzero_segments seg_visit st =
    length (filter (\<lambda>sid. case segments st sid of None \<Rightarrow> False | Some m \<Rightarrow> 0 < current_size (sm_segment m))
      (seg_visit (segments st)))"

definition fresh_storage :: "hako_config \<Rightarrow> str \<Rightarrow> enc_ctx option \<Rightarrow> nat \<Rightarrow> directory \<Rightarrow> storage" where
  "fresh_storage cfg name enc now dir =
    (let found = found_segments (dir_entries dir);
         segs = (if found = [] then [0 \<mapsto> \<lparr>sm_level = 0, sm_segment = segment_open [] 0 enc\<rparr>]
                 else foldl (\<lambda>m (level, sid, contents).
                        m(sid \<mapsto> \<lparr>sm_level = level, sm_segment = segment_open contents sid enc\<rparr>)) Map.empty found);
         max_id = foldl (\<lambda>i (level, sid, contents). max i sid) 0 found;
         reserve = (if prefix (ascii ''__'') name then 0 else wal_reserve_bytes cfg)
     in \<lparr>index = Map.empty, sorted_keys = [], collection_counts = Map.empty, inlined_bytes = 0, logical_name = name,
         segments = segs, active_segment_id = max_id, next_segment_id = max_id + 1,
         st_wal = set_group_commit_interval (group_commit_interval_ms cfg)
           (wal_open (dir_wal dir) (cfg_durability_mode cfg) (cfg_group_commit_max_ops cfg) enc reserve now),
         next_tx_id = 1, compaction_threshold = auto_compaction_threshold_bytes cfg, st_enc = enc,
         max_inlined_bytes = max_inlined_memory_bytes cfg, blob_threshold = value_blob_threshold_bytes cfg,
         use_compression = cfg_use_compression cfg, st_cache = cache_new (page_cache_capacity cfg * page_size cfg),
         st_blobs = Some (blob_manager_new (dir_blobs dir) (of_nat (length (dir_blobs dir)))), blob_flush_queue = []\<rparr>)"

text \<open>The result carries the message for the console, if any.\<close>

definition storage_open :: "prims \<Rightarrow> visit \<Rightarrow> seg_visit \<Rightarrow> hako_config \<Rightarrow> str \<Rightarrow> enc_ctx option \<Rightarrow> nat \<Rightarrow> directory \<Rightarrow>
    (str option \<times> storage) result" where
  "storage_open P visit seg_visit cfg name enc now dir =
    and_then (recover P visit (fresh_storage cfg name enc now dir)) (\<lambda>(ops_replayed, st).
      let msg = empty_open_diagnosis_message (logical_name st) (length (sorted_keys st)) ops_replayed
                  (data_len (st_wal st)) (nonzero_segments seg_visit st)
      in if wal_snapshot_worthwhile st then
           (case rewrite_wal_snapshot P visit now st of
              (Ok _, st') \<Rightarrow> Ok (msg, st'\<lparr>st_wal := flush now (st_wal st')\<rparr>)
            | (Err _, st') \<Rightarrow> Ok (msg, st')
            | (Panic, st') \<Rightarrow> Panic)
         else Ok (msg, st))"

section \<open>Names read back\<close>

lemma split_once_digits:
  assumes "\<forall>b \<in> set xs. digit b"
  shows "split_once 0x2D (xs @ 0x2D # ys) = Some (xs, ys)"
proof -
  have no: "b \<noteq> 0x2D" if "b \<in> set xs" for b using assms that by (auto simp: word_le_nat_alt)
  then have "dropWhile (\<lambda>x. x \<noteq> 0x2D) (xs @ 0x2D # ys) = 0x2D # ys" "takeWhile (\<lambda>x. x \<noteq> 0x2D) (xs @ 0x2D # ys) = xs"
    by (simp_all add: dropWhile_append2 takeWhile_append2)
  then show ?thesis by (simp add: split_once_def)
qed

lemma segment_name_parsed: "parse_segment_name (segment_name level sid) = Some (level, sid)"
proof -
  let ?core = "dec (unat level) @ 0x2D # dec (unat sid)"
  have n: "segment_name level sid = ascii ''segment-l'' @ ?core @ ascii ''.dat''" by (simp add: segment_name_def)
  have "subslice 9 (length (segment_name level sid) - 4) (segment_name level sid) = ?core"
    by (simp add: n subslice_def)
  moreover have "prefix (ascii ''segment-l'') (segment_name level sid)" "suffix (ascii ''.dat'') (segment_name level sid)"
    unfolding n by (simp_all add: prefix_def suffix_def)
  moreover have "unat level < 4294967296" "unat sid < 18446744073709551616"
    by (rule order_less_le_trans [OF unsigned_less], simp)+
  then have "unat level \<le> 4294967295" "unat sid \<le> 18446744073709551615" by linarith+
  ultimately show ?thesis
    using split_once_digits [OF dec_digits, of "unat level" "dec (unat sid)"] parse_uint_dec
    by (simp add: parse_segment_name_def)
qed

section \<open>Snapshots replay to the index\<close>

definition durable :: "bool \<Rightarrow> nat \<Rightarrow> pointer \<Rightarrow> pointer" where
  "durable has_blobs threshold p =
    (case p of
       BlobPending d \<Rightarrow> Inlined (doc_encode (if has_blobs then extract_blobs_placeholder d threshold else d))
     | BlobPendingData _ skeleton \<Rightarrow> Inlined skeleton
     | _ \<Rightarrow> p)"

lemma snapshot_op_update: "op_update (snapshot_op hb t k p) = Some (k, durable hb t p)"
  by (cases p) (simp_all add: snapshot_op_def durable_def)

lemma replay_snapshot:
  assumes "distinct ks"
  shows "replay_table (List.map_filter (\<lambda>k. map_option (snapshot_op hb t k) (m k)) ks) m0 =
    (\<lambda>k. if k \<in> set ks \<and> m k \<noteq> None then map_option (durable hb t) (m k) else m0 k)"
  using assms
proof (induction ks arbitrary: m0)
  case (Cons k ks)
  show ?case
  proof (cases "m k")
    case None
    with Cons show ?thesis by (auto simp: map_filter_simps fun_eq_iff)
  next
    case (Some p)
    have "replay_table (List.map_filter (\<lambda>k. map_option (snapshot_op hb t k) (m k)) (k # ks)) m0 =
        replay_table (List.map_filter (\<lambda>k. map_option (snapshot_op hb t k) (m k)) ks) (m0(k \<mapsto> durable hb t p))"
      by (simp add: map_filter_simps Some replay_table_def snapshot_op_update)
    with Cons Some show ?thesis by (auto simp: fun_eq_iff)
  qed
qed (simp add: map_filter_simps replay_table_def)

lemma snapshot_table:
  assumes "visits visit" "finite (dom (index st))"
  shows "replay_table (snapshot_ops visit st) Map.empty =
    (\<lambda>k. map_option (durable (st_blobs st \<noteq> None) (blob_threshold st)) (index st k))"
proof -
  have v: "distinct (visit (index st))" "set (visit (index st)) = dom (index st)"
    using assms by (auto simp: visits_def)
  show ?thesis unfolding snapshot_ops_def replay_snapshot [OF v(1)] using v(2) by (auto simp: fun_eq_iff)
qed

lemma snapshot_committed: "filter_committed_ops (snapshot_ops visit st) = snapshot_ops visit st"
proof -
  have data: "\<forall>op \<in> set (snapshot_ops visit st). op_update op \<noteq> None"
    by (auto simp: snapshot_ops_def map_filter_def snapshot_op_update)
  have "filter_committed_loop out None [] ops = out @ ops" if "\<forall>op \<in> set ops. op_update op \<noteq> None" for out ops
    using that
  proof (induction ops arbitrary: out)
    case (Cons op ops)
    then show ?case by (cases op) simp_all
  qed simp
  with data show ?thesis by (simp add: filter_committed_ops_def)
qed

section \<open>Reopening\<close>

text \<open>The files a shard leaves behind.\<close>

definition files_of :: "seg_visit \<Rightarrow> storage \<Rightarrow> directory" where
  "files_of seg_visit st =
    \<lparr>dir_wal = wal_file (st_wal st),
     dir_blobs = (case st_blobs st of None \<Rightarrow> [] | Some bm \<Rightarrow> blob_file bm),
     dir_entries = List.map_filter (\<lambda>sid. map_option (\<lambda>m. (segment_name (sm_level m) sid, seg_file (sm_segment m))) (segments st sid))
       (seg_visit (segments st))\<rparr>"

lemma found_files:
  "found_segments (dir_entries (files_of seg_visit st)) =
    List.map_filter (\<lambda>sid. map_option (\<lambda>m. (sm_level m, sid, seg_file (sm_segment m))) (segments st sid)) (seg_visit (segments st))"
proof -
  have "found_segments (List.map_filter (\<lambda>sid. map_option (\<lambda>m. (segment_name (sm_level m) sid, seg_file (sm_segment m))) (segs sid)) ids) =
      List.map_filter (\<lambda>sid. map_option (\<lambda>m. (sm_level m, sid, seg_file (sm_segment m))) (segs sid)) ids" for segs ids
  proof (induction ids)
    case (Cons sid ids)
    then show ?case
      by (cases "segs sid") (simp_all add: found_segments_def map_filter_simps segment_name_parsed)
  qed (simp add: found_segments_def map_filter_simps)
  then show ?thesis by (simp add: files_of_def)
qed

lemma opened_segments:
  assumes "\<forall>sid. segments st sid = None \<or> sid \<in> set ids"
  shows "foldl (\<lambda>m (level, sid, contents). m(sid \<mapsto> \<lparr>sm_level = level, sm_segment = segment_open contents sid enc\<rparr>)) Map.empty
      (List.map_filter (\<lambda>sid. map_option (\<lambda>m. (sm_level m, sid, seg_file (sm_segment m))) (segments st sid)) ids) sid =
    map_option (\<lambda>m. \<lparr>sm_level = sm_level m, sm_segment = segment_open (seg_file (sm_segment m)) sid enc\<rparr>) (segments st sid)"
proof -
  have "foldl (\<lambda>m (level, sid, contents). m(sid \<mapsto> \<lparr>sm_level = level, sm_segment = segment_open contents sid enc\<rparr>)) m0
      (List.map_filter (\<lambda>sid. map_option (\<lambda>m. (sm_level m, sid, seg_file (sm_segment m))) (segments st sid)) ids) sid =
    (if sid \<in> set ids \<and> segments st sid \<noteq> None
     then map_option (\<lambda>m. \<lparr>sm_level = sm_level m, sm_segment = segment_open (seg_file (sm_segment m)) sid enc\<rparr>) (segments st sid)
     else m0 sid)" for m0
  proof (induction ids arbitrary: m0)
    case (Cons j ids)
    then show ?case by (cases "segments st j") (auto simp: map_filter_simps)
  qed (simp add: map_filter_simps)
  with assms show ?thesis by auto
qed

lemma max_id_bounds:
  fixes found :: "(u32 \<times> u64 \<times> bytes) list"
  defines "hi \<equiv> \<lambda>i. foldl (\<lambda>i (level, sid, contents). max i sid) i found"
  shows "i \<le> hi i" "(level, sid, contents) \<in> set found \<Longrightarrow> sid \<le> hi i"
    "hi i = i \<or> (\<exists>level contents. (level, hi i, contents) \<in> set found)"
  unfolding hi_def by (induction found rule: rev_induct) (auto simp: max_def split: prod.splits)

lemma fresh_segments:
  assumes "store_ok P Z st" "seg_visits seg_visit"
  shows "segments (fresh_storage cfg name enc now (files_of seg_visit st)) sid =
      map_option (\<lambda>m. \<lparr>sm_level = sm_level m, sm_segment = segment_open (seg_file (sm_segment m)) sid enc\<rparr>) (segments st sid)"
    "segments st (active_segment_id (fresh_storage cfg name enc now (files_of seg_visit st))) \<noteq> None"
    "segments st sid \<noteq> None \<Longrightarrow> sid < next_segment_id (fresh_storage cfg name enc now (files_of seg_visit st))"
proof -
  let ?found = "found_segments (dir_entries (files_of seg_visit st))" and ?st = "fresh_storage cfg name enc now (files_of seg_visit st)"
  have vis: "set (seg_visit (segments st)) = dom (segments st)" using assms(2) by (simp add: seg_visits_def)
  have mem: "(\<exists>level contents. (level, j, contents) \<in> set ?found) \<longleftrightarrow> segments st j \<noteq> None" for j
    using vis by (auto simp: found_files in_map_filter)
  have some: "?found \<noteq> []"
    using store_okD(7) [OF assms(1)] mem [of "active_segment_id st"] by auto
  show "segments ?st sid = map_option (\<lambda>m. \<lparr>sm_level = sm_level m, sm_segment = segment_open (seg_file (sm_segment m)) sid enc\<rparr>) (segments st sid)"
    using some opened_segments [of st "seg_visit (segments st)" enc sid] vis
    by (auto simp: fresh_storage_def Let_def found_files)
  define hi where "hi = foldl (\<lambda>i (level, sid, contents). max i sid) 0 ?found"
  have act: "active_segment_id ?st = hi" "next_segment_id ?st = hi + 1" by (simp_all add: fresh_storage_def Let_def hi_def)
  have le: "j \<le> hi" if "segments st j \<noteq> None" for j
    using that mem [of j] max_id_bounds(2) [of _ j _ ?found 0] by (auto simp: hi_def)
  show live: "segments st (active_segment_id ?st) \<noteq> None"
  proof (cases "hi = 0")
    case True
    with le [of "active_segment_id st"] store_okD(7) [OF assms(1)] show ?thesis by (auto simp: act)
  next
    case False
    with max_id_bounds(3) [of 0 ?found] mem [of hi] show ?thesis by (auto simp: act hi_def)
  qed
  then have "hi < next_segment_id st" using store_okD(2) [OF assms(1)] by (auto simp: act meta_ok_def)
  then have "hi < - 1" using order_less_le_trans [OF _ word_order.extremum] by blast
  moreover have "(- 1 :: u64) = 0xFFFFFFFFFFFFFFFF" by simp
  ultimately have "hi < 0xFFFFFFFFFFFFFFFF" by (simp only:)
  then have "hi < hi + 1" by (rule u64_succ_less)
  then show "sid < next_segment_id ?st" if "segments st sid \<noteq> None" using le [OF that] by (simp add: act)
qed

lemma replay_ops_storage:
  fixes st :: storage
  defines "st' ops \<equiv> foldl replay_op st ops"
  shows "segments (st' ops) = segments st" "st_enc (st' ops) = st_enc st" "st_wal (st' ops) = st_wal st" "st_cache (st' ops) = st_cache st"
    "st_blobs (st' ops) = st_blobs st" "next_segment_id (st' ops) = next_segment_id st"
    "active_segment_id (st' ops) = active_segment_id st"
  unfolding st'_def
  by (induction ops rule: rev_induct)
    (simp_all add: replay_op_def update_index_entry_nosort_def set_pointer_def split: option.splits)

lemma recover_index_storage [simp]:
  fixes st :: storage
  shows "segments (recover_index visit ops st) = segments st" "st_enc (recover_index visit ops st) = st_enc st"
    "st_wal (recover_index visit ops st) = st_wal st" "st_cache (recover_index visit ops st) = st_cache st"
    "st_blobs (recover_index visit ops st) = st_blobs st" "next_segment_id (recover_index visit ops st) = next_segment_id st"
    "active_segment_id (recover_index visit ops st) = active_segment_id st"
  by (simp_all add: recover_index_def Let_def replay_ops_storage)

lemma replay_interval:
  "replay P (set_group_commit_interval ms w) =
    and_then (replay P w) (\<lambda>(ops, w'). Ok (ops, set_group_commit_interval ms w'))"
proof -
  have "finish_replay (set_group_commit_interval ms w) r =
      and_then (finish_replay w r) (\<lambda>(ops, w'). Ok (ops, set_group_commit_interval ms w'))" for r
    by (cases r) (simp add: finish_replay_def set_group_commit_interval_def Let_def)
  then show ?thesis
    by (cases "replay_loop P (wal_enc w) (wal_file w) 0") (auto simp: replay_def set_group_commit_interval_def Let_def)
qed

lemma replay_enc: "replay P w = Ok (ops, w') \<Longrightarrow> wal_enc w' = wal_enc w"
  by (cases "replay_loop P (wal_enc w) (wal_file w) 0") (auto simp: replay_def finish_replay_def split: prod.splits)

text \<open>A flushed log that determines the index brings the whole shard back.\<close>

lemma recover_ok:
  assumes "store_ok P Z st" "visits visit" "seg_visits seg_visit" "same_key enc (st_enc st)"
    and "wal_inv P (st_wal st) log" "replay_table (filter_committed_ops log) Map.empty = index st" "st_blobs st \<noteq> None"
  shows "\<exists>n st'. recover P visit (fresh_storage cfg name enc now
        (files_of seg_visit (st\<lparr>st_wal := flush now0 (st_wal st)\<rparr>))) = Ok (n, st') \<and>
      store_ok P Z st' \<and> content P Z st' = content P Z st"
proof -
  let ?fl = "st\<lparr>st_wal := flush now0 (st_wal st)\<rparr>"
  have fe: "wal_enc (flush now0 (st_wal st)) = wal_enc (st_wal st)" by (simp add: flush_def write_all_def Let_def)
  note fl = wal_update_ok [OF assms(1) fe]
  let ?f = "fresh_storage cfg name enc now (files_of seg_visit ?fl)"
  note seg = fresh_segments [OF fl(1) assms(3), where cfg = cfg and name = name and enc = enc and now = now]
  have "map_option ctx_key enc = map_option ctx_key (wal_enc (st_wal st))"
    using assms(4) store_okD(6) [OF assms(1)] by (simp add: same_key_def)
  from reopen_inv [OF assms(5) this, where now = now0 and mode = "cfg_durability_mode cfg" and now' = now
      and max_ops = "cfg_group_commit_max_ops cfg"
      and reserve = "if prefix (ascii ''__'') name then 0 else wal_reserve_bytes cfg"] obtain w where
    w: "replay P (st_wal ?f) = Ok (filter_committed_ops log, w)"
    by (auto simp: fresh_storage_def files_of_def Let_def replay_interval)
  then have we: "wal_enc w = enc" by (auto simp: fresh_storage_def Let_def set_group_commit_interval_def wal_open_def dest: replay_enc)
  define st' where "st' = recover_index visit (filter_committed_ops log) (?f\<lparr>st_wal := w\<rparr>)"
  have "index ?f = Map.empty" "inlined_bytes ?f = 0" by (simp_all add: fresh_storage_def Let_def)
  then have idx: "index_ok st'" "index st' = index st"
    using recover_index_ok [OF assms(2), of "?f\<lparr>st_wal := w\<rparr>" "filter_committed_ops log"] assms(6)
    by (simp_all add: st'_def bytes_total_def)
  have enc: "st_enc st' = enc" "st_cache st' = cache_new (page_cache_capacity cfg * page_size cfg)" "wal_enc (st_wal st') = enc"
    using we by (simp_all add: st'_def fresh_storage_def Let_def)
  have segs: "segments st' sid = map_option (\<lambda>m. \<lparr>sm_level = sm_level m, sm_segment = segment_open (seg_file (sm_segment m)) sid enc\<rparr>) (segments st sid)"
    "segments st (active_segment_id st') \<noteq> None" "segments st sid \<noteq> None \<Longrightarrow> sid < next_segment_id st'" for sid
    using seg by (simp_all add: st'_def)
  have same: "in_segment P Z st' = in_segment P Z st"
    using placed_same_key [OF assms(4), of P Z] by (auto simp: in_segment_def fun_eq_iff segs enc segment_open_def)
  have metas: "\<forall>sid m. segments st' sid = Some m \<longrightarrow> meta_ok st' sid m"
    using segs by (auto simp: meta_ok_def segment_open_def enc)
  obtain bm where bm: "st_blobs st = Some bm" using assms(7) by blast
  have blobs: "st_blobs st' = Some (blob_manager_new (blob_file bm) (of_nat (length (blob_file bm))))"
    by (simp add: st'_def fresh_storage_def files_of_def Let_def bm)
  have ok: "store_ok P Z st'"
    unfolding store_ok_def
    using idx metas segs(1,2) store_okD(3) [OF assms(1)] same enc blobs
    by (auto simp: pages.holds_only_def cache_new_def)
  have "pointer_content P Z st' p = pointer_content P Z st p" if p: "index st k = Some p" for k p
  proof (cases "\<exists>sid off l. p = SegmentPtr sid off l")
    case True
    then obtain sid off l where i: "p = SegmentPtr sid off l" by blast
    with p store_okD(3) [OF assms(1)] obtain v where "in_segment P Z st sid off l v" by blast
    with i same pointer_content_segment [OF store_okD(2) [OF assms(1)]] pointer_content_segment [OF metas] show ?thesis by simp
  next
    case False
    then show ?thesis by (cases p) (auto simp: pointer_content_def bm blobs blob_read_at_def blob_manager_new_def)
  qed
  then have "content P Z st' = content P Z st"
    by (auto simp: content_def fun_eq_iff idx(2) split: Option.bind_splits)
  moreover have "recover P visit ?f = Ok (length (filter_committed_ops log), st')" using w by (simp add: recover_def st'_def)
  ultimately show ?thesis using ok by blast
qed

lemma append_batch_returns: "fst (append_batch P now ops is_remote w) \<noteq> Panic"
proof -
  have "fst (push_record P op w) \<noteq> Panic" for op w
    by (auto simp: push_record_def seal_op_def encrypt_def Let_def split: option.splits)
  then have "fst (push_records P ops w) \<noteq> Panic" for w
    by (induction ops arbitrary: w) (auto split: prod.splits result.splits, metis fst_conv)
  then show ?thesis by (auto simp: append_batch_def split: prod.splits result.splits) (metis fst_conv)
qed

lemma open_after_recover:
  assumes "recover P visit (fresh_storage cfg name enc now dir) = Ok (n, st)" "store_ok P Z st"
  shows "\<exists>msg st'. storage_open P visit seg_visit cfg name enc now dir = Ok (msg, st') \<and> store_ok P Z st' \<and> content P Z st' = content P Z st"
proof (cases "wal_snapshot_worthwhile st")
  case False
  with assms show ?thesis by (simp add: storage_open_def Let_def)
next
  case True
  obtain r st1 where rw: "rewrite_wal_snapshot P visit now st = (r, st1)" by fastforce
  note ok = rewrite_ok [OF assms(2) rw]
  have "r \<noteq> Panic"
    using rw append_batch_returns [of P now "snapshot_ops visit st" False]
    by (auto simp: rewrite_wal_snapshot_def on_wal_def Let_def split: prod.splits) (metis fst_conv)
  moreover have "wal_enc (flush now (st_wal st1)) = wal_enc (st_wal st1)" by (simp add: flush_def write_all_def Let_def)
  note wal_update_ok [OF ok(1) this]
  ultimately show ?thesis
    using assms(1) True rw ok by (cases r) (auto simp: storage_open_def Let_def)
qed


section \<open>Sample\<close>

definition sample_shard :: storage where
  "sample_shard = sample_store\<lparr>st_blobs := Some (blob_manager_new [] 0)\<rparr>"

lemma sample_shard_fields:
  "index sample_shard = [[97] \<mapsto> SegmentPtr 0 0 2]" "st_enc sample_shard = None" "st_blobs sample_shard \<noteq> None"
  by (simp_all add: sample_shard_def)

lemma sample_shard_same:
  "active_segment_id sample_shard = active_segment_id sample_store" "segments sample_shard = segments sample_store"
  "st_cache sample_shard = st_cache sample_store" "index sample_shard = index sample_store"
  "st_wal sample_shard = st_wal sample_store" "st_enc sample_shard = st_enc sample_store"
  "next_segment_id sample_shard = next_segment_id sample_store"
  by (simp_all add: sample_shard_def)

lemma sample_shard_ok: "store_ok sample_prims Z sample_shard" "content sample_prims Z sample_shard = [[97] \<mapsto> [8, 9]]"
proof -
  note ok = store_okD [OF sample_store_ok [of Z]]
  have same: "in_segment sample_prims Z sample_shard = in_segment sample_prims Z sample_store"
    unfolding in_segment_def fun_eq_iff sample_shard_same by blast
  have metas: "\<forall>sid m. segments sample_shard sid = Some m \<longrightarrow> meta_ok sample_shard sid m"
    using ok(2) unfolding sample_shard_same meta_ok_def by blast
  have cached: "cached_ok sample_prims Z sample_shard = cached_ok sample_prims Z sample_store"
    unfolding cached_ok_def fun_eq_iff same sample_shard_same by blast
  have idx: "index_ok sample_shard"
    using ok(1) index_ok_cong [of sample_shard sample_store] by (simp add: sample_shard_def)
  show "store_ok sample_prims Z sample_shard"
    unfolding store_ok_def cached same
    using idx metas ok(3,5-7) sample_shard_fields(3) unfolding sample_shard_same by blast
  have "in_segment sample_prims Z sample_shard 0 0 2 [8, 9]" using sample_placed same by simp
  then show "content sample_prims Z sample_shard = [[97] \<mapsto> [8, 9]]"
    using pointer_content_segment [OF metas] by (auto simp: content_def fun_eq_iff sample_shard_fields)
qed


end
