(* ===== verification/Storage_Durability.thy ===== *)
theory Storage_Durability
  imports Storage_Open
begin

text \<open>
  Committed batches survive. The log of a shard describes its index when replaying the committed units
  gives the index; a batch keeps that, so the shard can be closed and opened after it. A value above the
  blob threshold is the exception: it enters the index and no record is written for it.
\<close>

section \<open>The log describes the index\<close>

definition described :: "prims \<Rightarrow> wal_unit list \<Rightarrow> storage \<Rightarrow> bool" where
  "described P us st \<longleftrightarrow> wal_inv P (st_wal st) (concat (map unit_log us)) \<and> (\<forall>u \<in> set us. unit_ok u) \<and>
    replay_table (concat (map unit_data us)) Map.empty = index st"

lemma committed_units:
  "\<forall>u \<in> set us. unit_ok u \<Longrightarrow> filter_committed_ops (concat (map unit_log us)) = concat (map unit_data us)"
proof (induction us)
  case (Cons u us)
  then show ?case using filter_committed_unit [of u "concat (map unit_log us)"] by simp
qed (simp add: filter_committed_ops_def)

fun mutation_ok :: "nat \<Rightarrow> storage_mutation \<Rightarrow> bool" where
  "mutation_ok threshold (MPut k v) = (wal_key_ok k \<and> length v < 2 ^ 30 \<and> (length v < 4096 \<or> length v \<le> threshold))"
| "mutation_ok threshold (MDelete k) = wal_key_ok k"

definition updates_of :: "wal_op list \<Rightarrow> (str \<times> pointer option) list" where
  "updates_of ops = List.map_filter (\<lambda>op. map_option (\<lambda>(k, p). (k, Some p)) (op_update op)) ops"

lemma replay_table_updates: "replay_table ops m = foldl (\<lambda>m (key, p). m(key := p)) m (updates_of ops)"
  unfolding replay_table_def updates_of_def
  by (induction ops arbitrary: m) (auto simp: map_filter_simps split: option.splits)

lemma updates_of_simps [simp]:
  "updates_of [] = []" "updates_of (xs @ ys) = updates_of xs @ updates_of ys"
  "updates_of (op # ops) = (case op_update op of None \<Rightarrow> updates_of ops | Some (k, p) \<Rightarrow> (k, Some p) # updates_of ops)"
  by (simp_all add: updates_of_def map_filter_def split: option.splits)

lemma plan_ops:
  assumes "\<forall>mu \<in> set muts. mutation_ok threshold mu"
  shows "\<exists>ops. bp_ops (plan_batch threshold collection now tx_id muts) = BeginTx tx_id # ops \<and>
    updates_of ops = bp_updates (plan_batch threshold collection now tx_id muts) \<and>
    (\<forall>op \<in> set ops. data_op op \<and> op_ok op) \<and>
    (\<forall>(k, v) \<in> set (bp_segment (plan_batch threshold collection now tx_id muts)). wal_key_ok k)"
  using assms
proof (induction muts rule: rev_induct)
  case Nil
  show ?case by (simp add: plan_batch_def)
next
  case (snoc mu muts)
  then obtain ops where "bp_ops (plan_batch threshold collection now tx_id muts) = BeginTx tx_id # ops"
    "updates_of ops = bp_updates (plan_batch threshold collection now tx_id muts)" "\<forall>op \<in> set ops. data_op op \<and> op_ok op"
    "\<forall>(k, v) \<in> set (bp_segment (plan_batch threshold collection now tx_id muts)). wal_key_ok k"
    by auto
  with snoc.prems show ?case
    by (cases mu) (auto simp: plan_batch_def)
qed

lemma segment_ops_updates: "updates_of (segment_ops sid puts offsets) = segment_updates sid puts offsets"
proof (induction puts arbitrary: offsets)
  case (Cons p puts)
  then show ?case
    by (cases offsets; cases p) (auto simp: segment_ops_def segment_updates_def split: prod.splits)
qed (simp add: segment_ops_def segment_updates_def)

lemma segment_ops_ok:
  "\<forall>(k, v) \<in> set puts. wal_key_ok k \<Longrightarrow> \<forall>op \<in> set (segment_ops sid puts offsets). data_op op \<and> op_ok op"
  by (auto simp: segment_ops_def dest!: set_zip_leftD)

lemma described_batch:
  assumes "aead_ok P" "store_ok P Z st" "described P us st" "apply_batch P now clock muts is_remote st = (Ok r, st')"
    and "next_segment_id st < 0xFFFFFFFFFFFFFFFF" "capacity st'" "\<forall>mu \<in> set muts. mutation_ok (blob_threshold st) mu"
  shows "\<exists>us'. described P us' st'"
proof (cases "muts = []")
  case True
  with assms(3,4) show ?thesis by (auto simp: apply_batch_def)
next
  case False
  from assms(4) False obtain st1 st2 st3 plan offsets u where
    1: "maybe_rotate_active_segment (st\<lparr>next_tx_id := next_tx_id st + 1\<rparr>) = (Ok (), st1)" and
    plan: "plan = plan_batch (blob_threshold st1) (logical_name st1) now (next_tx_id st) muts" and
    2: "(if bp_segment plan = [] then (Ok [], st1) else on_segment (active_segment_id st1)
      (segment_append_batch P (map snd (bp_segment plan))) st1) = (Ok offsets, st2)" and
    3: "on_wal (append_batch P clock (bp_ops plan @ segment_ops (active_segment_id st1) (bp_segment plan) offsets @
      [CommitTx (next_tx_id st)]) is_remote) st2 = (Ok u, st3)" and
    st': "st' = update_batch (bp_updates plan @ segment_updates (active_segment_id st1) (bp_segment plan) offsets) st3"
    by (rule apply_batch_stages)
  note tx = next_tx_ok [OF assms(2), of "next_tx_id st + 1"]
  have "next_segment_id (st\<lparr>next_tx_id := next_tx_id st + 1\<rparr>) < 0xFFFFFFFFFFFFFFFF" using assms(5) by simp
  note rot = maybe_rotate_ok [OF tx(1) this 1]
  have "st_wal st1 = st_wal st"
    using 1 by (auto simp: maybe_rotate_active_segment_def rotate_segment_def Let_def split: option.splits if_splits)
  moreover have "st_wal st2 = st_wal st1" "index st2 = index st1"
    using 2 by (auto simp: on_segment_def Let_def split: if_splits option.splits prod.splits)
  ultimately have w: "st_wal st2 = st_wal st" "index st2 = index st" using rot(4) by simp_all
  have thr: "\<forall>mu \<in> set muts. mutation_ok (blob_threshold st1) mu" using assms(7) rot(5) by simp
  from plan_ops [OF this, of "logical_name st1" now "next_tx_id st", folded plan] obtain ops where
    ops: "bp_ops plan = BeginTx (next_tx_id st) # ops" "updates_of ops = bp_updates plan"
      "\<forall>op \<in> set ops. data_op op \<and> op_ok op" "\<forall>(k, v) \<in> set (bp_segment plan). wal_key_ok k" by blast
  define unit where "unit = Batch (next_tx_id st) (ops @ segment_ops (active_segment_id st1) (bp_segment plan) offsets)"
  have uok: "unit_ok unit" using ops(3) segment_ops_ok [OF ops(4)] by (auto simp: unit_ok_def unit_def)
  have log: "bp_ops plan @ segment_ops (active_segment_id st1) (bp_segment plan) offsets @ [CommitTx (next_tx_id st)] = unit_log unit"
    by (simp add: ops(1) unit_def)
  have seg: "segments st3 = segments st2" "index st3 = index st2" using 3 by (auto simp: on_wal_def Let_def split: prod.splits)
  have cap: "capacity st2" using assms(6) seg by (simp add: capacity_def st')
  have sizes: "\<forall>mu \<in> set muts. mutation_size mu < 2 ^ 30"
  proof
    fix mu assume "mu \<in> set muts"
    with assms(7) show "mutation_size mu < 2 ^ 30" by (cases mu) auto
  qed
  have "\<forall>v \<in> set (map snd (bp_segment plan)). length v < 2 ^ 30" unfolding plan by (rule plan_sizes [OF sizes])
  then have ok2: "store_ok P Z st2"
    using 2 rot(2) append_to_segment_ok(1) [OF assms(1) rot(2) _ cap] by (auto split: if_splits)
  have key: "map_option ctx_key (wal_enc (st_wal st2)) = map_option ctx_key (st_enc st2)"
    using store_okD(6) [OF ok2] by (simp add: same_key_def)
  have "wal_inv P ((st_wal st2)\<lparr>wal_enc := st_enc st2\<rparr>) (concat (map unit_log us))"
    using assms(3) unfolding described_def wal_inv_def w(1) [symmetric] by (simp add: wal_holds_cong [OF key, of P])
  moreover have "append_batch P clock (unit_log unit) is_remote ((st_wal st2)\<lparr>wal_enc := st_enc st2\<rparr>) = (Ok u, st_wal st3)"
    using 3 unfolding log by (auto simp: on_wal_def Let_def split: prod.splits)
  moreover have "\<forall>op \<in> set (unit_log unit). op_ok op" using uok by (auto simp: unit_ok_def unit_def)
  ultimately have "wal_inv P (st_wal st3) (concat (map unit_log us) @ unit_log unit)"
    using wal_inv_append_batch [OF _ assms(1)] by blast
  then have "wal_inv P (st_wal st') (concat (map unit_log (us @ [unit])))" by (simp add: st')
  moreover have "replay_table (concat (map unit_data (us @ [unit]))) Map.empty = index st'"
    using assms(3) ops(2) by (simp add: replay_table_updates described_def unit_def segment_ops_updates st' index_batch seg w)
  ultimately have "described P (us @ [unit]) st'" using assms(3) uok by (auto simp: described_def)
  then show ?thesis by blast
qed

text \<open>C1. A committed batch is durable. When the log describes the index, which creating, reopening and every
  batch establish, and a batch without values above the blob threshold succeeds, then flushing the log,
  closing the shard and opening its files gives the map with the batch applied, under any configuration
  with the same key; and the log describes the index again.\<close>

theorem batch_durable:
  assumes "aead_ok P" "store_ok P Z st" "described P us st" "visits visit" "seg_visits seg_visit" "st_blobs st \<noteq> None"
    and "apply_batch P now clock muts is_remote st = (Ok r, st')" "next_segment_id st < 0xFFFFFFFFFFFFFFFF" "capacity st'"
    and "\<forall>mu \<in> set muts. mutation_ok (blob_threshold st) mu" "same_key enc (st_enc st)" "distinct (map mutation_key muts)"
  shows "(\<exists>us'. described P us' st') \<and>
    (\<exists>msg st''. storage_open P visit seg_visit cfg name enc now1
        (files_of seg_visit (st'\<lparr>st_wal := flush now0 (st_wal st')\<rparr>)) = Ok (msg, st'') \<and>
      store_ok P Z st'' \<and> content P Z st'' = foldl apply_mutation (content P Z st) muts)"
proof -
  obtain us' where d: "described P us' st'" using described_batch [OF assms(1-3,7-10)] by blast
  have sizes: "mutation_size mu < 2 ^ 30" if "mu \<in> set muts" for mu
    using assms(10) that by (cases mu) auto
  then have "\<forall>mu \<in> set muts. mutation_size mu < 2 ^ 30" by blast
  note b = apply_batch_content [OF assms(1,2,7-9) this]
  then have key: "same_key enc (st_enc st')" "st_blobs st' \<noteq> None"
    using assms(6,11) same_key_trans same_key_simps(2) unfolding extends_def by metis+
  have "replay_table (filter_committed_ops (concat (map unit_log us'))) Map.empty = index st'"
    using d committed_units [of us'] by (simp add: described_def)
  moreover have "wal_inv P (st_wal st') (concat (map unit_log us'))" using d by (simp add: described_def)
  ultimately obtain n st'' where r: "recover P visit (fresh_storage cfg name enc now1
      (files_of seg_visit (st'\<lparr>st_wal := flush now0 (st_wal st')\<rparr>))) = Ok (n, st'')"
    "store_ok P Z st''" "content P Z st'' = content P Z st'"
    using recover_ok [OF conjunct1 [OF b] assms(4,5) key(1) _ _ key(2)] by blast
  from open_after_recover [OF r(1,2), of seg_visit] r(3) b assms(12) d show ?thesis by metis
qed

text \<open>The exception: a committed value above the blob threshold is readable until the shard is opened again.\<close>

lemma large_put_lost:
  assumes "aead_ok P" "store_ok P Z st" "described P us st" "visits visit" "seg_visits seg_visit" "st_blobs st \<noteq> None"
    and "apply_batch P now clock [MPut k v] is_remote st = (Ok r, st')" "next_segment_id st < 0xFFFFFFFFFFFFFFFF" "capacity st'"
    and "4096 \<le> length v" "blob_threshold st < length v" "length v < 2 ^ 30" "same_key enc (st_enc st)"
  shows "content P Z st' k = Some v"
    "\<exists>msg st''. storage_open P visit seg_visit cfg name enc now1
        (files_of seg_visit (st'\<lparr>st_wal := flush now0 (st_wal st')\<rparr>)) = Ok (msg, st'') \<and> content P Z st'' = content P Z st"
proof -
  have small: "\<forall>mu \<in> set [MPut k v]. mutation_size mu < 2 ^ 30" using assms(12) by simp
  note b = apply_batch_content [OF assms(1,2,7-9) small]
  show "content P Z st' k = Some v" using b assms(10,11) by simp
  from assms(7) obtain st1 st2 st3 plan offsets u where
    1: "maybe_rotate_active_segment (st\<lparr>next_tx_id := next_tx_id st + 1\<rparr>) = (Ok (), st1)" and
    plan: "plan = plan_batch (blob_threshold st1) (logical_name st1) now (next_tx_id st) [MPut k v]" and
    2: "(if bp_segment plan = [] then (Ok [], st1) else on_segment (active_segment_id st1)
      (segment_append_batch P (map snd (bp_segment plan))) st1) = (Ok offsets, st2)" and
    3: "on_wal (append_batch P clock (bp_ops plan @ segment_ops (active_segment_id st1) (bp_segment plan) offsets @
      [CommitTx (next_tx_id st)]) is_remote) st2 = (Ok u, st3)" and
    st': "st' = update_batch (bp_updates plan @ segment_updates (active_segment_id st1) (bp_segment plan) offsets) st3"
    by (rule apply_batch_stages) simp
  note tx = next_tx_ok [OF assms(2), of "next_tx_id st + 1"]
  have "next_segment_id (st\<lparr>next_tx_id := next_tx_id st + 1\<rparr>) < 0xFFFFFFFFFFFFFFFF" using assms(8) by simp
  note rot = maybe_rotate_ok [OF tx(1) this 1]
  have p: "bp_ops plan = [BeginTx (next_tx_id st)]" "bp_segment plan = []"
    using assms(10,11) rot(5) by (simp_all add: plan plan_batch_def)
  with 2 have st2: "st2 = st1" by simp
  have w: "store_ok P Z st3" "content P Z st3 = content P Z st1" "extends P Z st1 st3"
    using on_wal_ok(1,2,5) [OF rot(2) 3 [unfolded st2]] append_batch_key by blast+
  define unit where "unit = Batch (next_tx_id st) []"
  have walst: "st_wal st1 = st_wal st"
    using 1 by (auto simp: maybe_rotate_active_segment_def rotate_segment_def Let_def split: option.splits if_splits)
  have key: "map_option ctx_key (wal_enc (st_wal st1)) = map_option ctx_key (st_enc st1)"
    using store_okD(6) [OF rot(2)] by (simp add: same_key_def)
  have "wal_inv P ((st_wal st1)\<lparr>wal_enc := st_enc st1\<rparr>) (concat (map unit_log us))"
    using assms(3) unfolding described_def wal_inv_def walst [symmetric] by (simp add: wal_holds_cong [OF key, of P])
  moreover have "append_batch P clock (unit_log unit) is_remote ((st_wal st1)\<lparr>wal_enc := st_enc st1\<rparr>) = (Ok u, st_wal st3)"
    using 3 by (auto simp: on_wal_def Let_def p st2 unit_def segment_ops_def split: prod.splits)
  moreover have "\<forall>op \<in> set (unit_log unit). op_ok op" by (simp add: unit_def)
  ultimately have "wal_inv P (st_wal st3) (concat (map unit_log us) @ unit_log unit)"
    using wal_inv_append_batch [OF _ assms(1)] by blast
  then have inv: "wal_inv P (st_wal st3) (concat (map unit_log (us @ [unit])))" by simp
  have "index st3 = index st" using 3 rot(4) by (auto simp: on_wal_def Let_def st2 split: prod.splits)
  moreover have "\<forall>u \<in> set (us @ [unit]). unit_ok u" using assms(3) by (auto simp: described_def unit_def unit_ok_def)
  note committed_units [OF this]
  ultimately have table: "replay_table (filter_committed_ops (concat (map unit_log (us @ [unit])))) Map.empty = index st3"
    using assms(3) by (simp add: described_def unit_def)
  have grow: "extends P Z st st3" using extends_trans [OF tx(3) extends_trans [OF rot(7) w(3)]] .
  then have k3: "same_key enc (st_enc st3)" "st_blobs st3 \<noteq> None"
    using assms(6,13) same_key_trans same_key_simps(2) unfolding extends_def by metis+
  have files: "files_of seg_visit (st'\<lparr>st_wal := flush now0 (st_wal st')\<rparr>) = files_of seg_visit (st3\<lparr>st_wal := flush now0 (st_wal st3)\<rparr>)"
    by (simp add: files_of_def st')
  from recover_ok [OF w(1) assms(4,5) k3(1) inv table k3(2), where cfg = cfg and name = name and now = now1 and now0 = now0] obtain n st'' where
    r: "recover P visit (fresh_storage cfg name enc now1 (files_of seg_visit (st3\<lparr>st_wal := flush now0 (st_wal st3)\<rparr>))) = Ok (n, st'')"
    "store_ok P Z st''" "content P Z st'' = content P Z st3" by blast
  have "content P Z st3 = content P Z st" using w(2) rot(3) tx(2) by simp
  with open_after_recover [OF r(1,2), of seg_visit] r(3) files
  show "\<exists>msg st''. storage_open P visit seg_visit cfg name enc now1
      (files_of seg_visit (st'\<lparr>st_wal := flush now0 (st_wal st')\<rparr>)) = Ok (msg, st'') \<and> content P Z st'' = content P Z st" by metis
qed

section \<open>Sample\<close>

definition new_shard :: storage where
  "new_shard = fresh_storage default_config [120] None 0 \<lparr>dir_wal = [], dir_blobs = [], dir_entries = []\<rparr>"

lemma new_shard_fields:
  "segments new_shard = [0 \<mapsto> \<lparr>sm_level = 0, sm_segment = segment_open [] 0 None\<rparr>]"
  "active_segment_id new_shard = 0" "next_segment_id new_shard = 1" "index new_shard = Map.empty" "st_enc new_shard = None"
  "blob_threshold new_shard = 16384" "st_blobs new_shard \<noteq> None" "compaction_threshold new_shard = 8 * 1024 * 1024"
  by (simp_all add: new_shard_def fresh_storage_def found_segments_def map_filter_simps default_config_def)

lemma new_shard_ok: "store_ok sample_prims None new_shard" "content sample_prims None new_shard = Map.empty"
  "described sample_prims [] new_shard"
proof -
  have "live_keys new_shard = {}" by (simp add: live_keys_def is_live_def live_pointer_def new_shard_fields)
  then have "index_ok new_shard"
    by (simp add: index_ok_def stats_ok_def view_ok_def new_shard_fields bytes_total_def)
      (simp add: new_shard_def fresh_storage_def found_segments_def map_filter_simps)
  moreover have "wal_enc (st_wal new_shard) = None" "cache_blocks (st_cache new_shard) = Map.empty"
    by (simp_all add: new_shard_def fresh_storage_def set_group_commit_interval_def wal_open_def cache_new_def Let_def)
  ultimately show "store_ok sample_prims None new_shard"
    unfolding store_ok_def pages.holds_only_def by (auto simp: new_shard_fields meta_ok_def segment_open_def)
  show "content sample_prims None new_shard = Map.empty" by (simp add: content_def fun_eq_iff new_shard_fields)
  show "described sample_prims [] new_shard"
    by (simp add: described_def new_shard_fields replay_table_def)
      (simp add: new_shard_def fresh_storage_def set_group_commit_interval_def wal_open_def wal_inv_def set_len_def wal_holds_Nil Let_def)
qed

theorem batch_durable_witness:
  "\<exists>r st' msg st''. apply_batch sample_prims 7 0 [MPut [98] [1, 2]] False new_shard = (Ok r, st') \<and>
    storage_open sample_prims sample_visit all_segments default_config [120] None 9
      (files_of all_segments (st'\<lparr>st_wal := flush 8 (st_wal st')\<rparr>)) = Ok (msg, st'') \<and>
    content sample_prims None st'' = [[98] \<mapsto> [1, 2]]"
proof -
  obtain r st' where b: "apply_batch sample_prims 7 0 [MPut [98] [1, 2]] False new_shard = (Ok r, st')"
    using apply_batch_total [of new_shard sample_prims 7 0 "[MPut [98] [1, 2]]" False] by (auto simp: new_shard_fields seals_def)
  have "segments st' = segments new_shard"
    using b by (auto simp: apply_batch_def maybe_rotate_active_segment_def plan_batch_def segment_open_def on_wal_def Let_def
        new_shard_fields split: prod.splits result.splits)
  then have cap: "capacity st'" by (simp add: capacity_def new_shard_fields segment_open_def)
  have "\<forall>mu \<in> set [MPut [98] [1, 2]]. mutation_ok (blob_threshold new_shard) mu"
    by (simp add: wal_key_ok_def utf8_valid.simps)
  then have "\<exists>msg st''. storage_open sample_prims sample_visit all_segments default_config [120] None 9
      (files_of all_segments (st'\<lparr>st_wal := flush 8 (st_wal st')\<rparr>)) = Ok (msg, st'') \<and>
      content sample_prims None st'' = foldl apply_mutation (content sample_prims None new_shard) [MPut [98] [1, 2]]"
    using batch_durable [OF sample_prims_ok new_shard_ok(1,3) sample_visits all_segments_visits new_shard_fields(7) b _ cap, of None
      default_config "[120]" 9 8] by (auto simp: new_shard_fields)
  with b show ?thesis by (simp add: new_shard_ok)
qed

end
