(* ===== verification/Storage_Checkpoint.thy ===== *)
theory Storage_Checkpoint
  imports Storage_Tiers
begin

text \<open>
  The background tick (\<open>run_background_maintenance\<close> in \<open>src/storage/engine.rs\<close>): flushing the log,
  rotating the active segment and spilling the inlined values into a new segment change where values
  are, and never what a read returns.
\<close>

lemma inlined_entries_spec:
  assumes "visits visit" "finite (dom (index st))"
  shows "distinct (map fst (inlined_entries visit st))"
    "map_of (inlined_entries visit st) k = Some v \<longleftrightarrow> index st k = Some (Inlined v)"
proof -
  have v: "distinct (visit (index st))" "set (visit (index st)) = dom (index st)" using assms by (auto simp: visits_def)
  let ?f = "\<lambda>k. case index st k of Some (Inlined d) \<Rightarrow> Some (k, d) | _ \<Rightarrow> None"
  have f: "?f j = Some e \<longleftrightarrow> (\<exists>d. index st j = Some (Inlined d) \<and> e = (j, d))" for j e
    by (auto split: option.splits pointer.splits)
  have d: "distinct (map fst (List.map_filter ?f ks)) \<and> fst ` set (List.map_filter ?f ks) \<subseteq> set ks" if "distinct ks" for ks
    using that
  proof (induction ks)
    case (Cons j ks)
    then show ?case
      by (cases "?f j") (auto simp: map_filter_simps f, force)
  qed (simp add: map_filter_simps)
  show 1: "distinct (map fst (inlined_entries visit st))" using d [OF v(1)] by (simp add: inlined_entries_def)
  have "(k, v) \<in> set (inlined_entries visit st) \<longleftrightarrow> index st k = Some (Inlined v)"
    using v(2) by (auto simp: inlined_entries_def in_map_filter f)
  with 1 show "map_of (inlined_entries visit st) k = Some v \<longleftrightarrow> index st k = Some (Inlined v)"
    by (metis map_of_SomeD map_of_is_SomeI)
qed

lemma update_fold_storage:
  fixes st :: storage and ptrs :: "str \<rightharpoonup> pointer"
  defines "st' ks \<equiv> foldl (\<lambda>st k. update_index_entry k (ptrs k) st) st ks"
  shows "segments (st' ks) = segments st" "st_enc (st' ks) = st_enc st" "st_wal (st' ks) = st_wal st" "st_cache (st' ks) = st_cache st"
    "st_blobs (st' ks) = st_blobs st" "next_segment_id (st' ks) = next_segment_id st"
    "active_segment_id (st' ks) = active_segment_id st"
    "index (st' ks) = (\<lambda>k. if k \<in> set ks then ptrs k else index st k)"
    "index_ok st \<Longrightarrow> index_ok (st' ks)"
  unfolding st'_def
proof (induction ks rule: rev_induct)
  case (snoc k ks)
  { case 1 from snoc show ?case by (simp add: update_index_entry_def Let_def) }
  { case 2 from snoc show ?case by (simp add: update_index_entry_def Let_def) }
  { case 3 from snoc show ?case by (simp add: update_index_entry_def Let_def) }
  { case 4 from snoc show ?case by (simp add: update_index_entry_def Let_def) }
  { case 5 from snoc show ?case by (simp add: update_index_entry_def Let_def) }
  { case 6 from snoc show ?case by (simp add: update_index_entry_def Let_def) }
  { case 7 from snoc show ?case by (simp add: update_index_entry_def Let_def) }
  { case 8 from snoc show ?case by (auto simp add: update_index_entry_def Let_def fun_eq_iff) }
  { case 9 with snoc show ?case by (simp add: index_ok_update) }
qed simp_all

lemma checkpoint_ok:
  assumes "aead_ok P" "\<forall>z. Z = Some z \<longrightarrow> zstd_ok z" "store_ok P Z st" "visits visit" "next_segment_id st < 0xFFFFFFFFFFFFFFFF"
    and "\<forall>k v. content P Z st k = Some v \<longrightarrow> length v < 2 ^ 30"
    and "checkpoint_inlined_data P Z visit clock st = (r, st')" "capacity st'"
  shows "store_ok P Z st'" "content P Z st' = content P Z st" "r = Ok True \<Longrightarrow> index st' k \<noteq> Some (Inlined d)"
proof -
  let ?es = "inlined_entries visit st"
  have fin: "finite (dom (index st))" using store_okD(1) [OF assms(3)] by (simp add: index_ok_def stats_ok_def)
  note es = inlined_entries_spec [OF assms(4) fin]
  have res: "store_ok P Z st' \<and> content P Z st' = content P Z st \<and> (r = Ok True \<longrightarrow> index st' k \<noteq> Some (Inlined d))"
  proof (cases "inlined_bytes st < max_inlined_bytes st \<or> ?es = []")
    case True
    with assms(3,7) show ?thesis by (auto simp: checkpoint_inlined_data_def Let_def split: if_splits)
  next
    case go: False
    obtain r1 ptrs target tid st1 where w: "write_target P Z ?es st = (r1, ptrs, target, tid, st1)" by (metis prod_cases5)
    note wt = write_target_ok [OF assms(1-3,5) w]
    show ?thesis
    proof (cases "r1 = Ok ()")
      case False
      with assms(7) go w have "st' = st1 \<and> r \<noteq> Ok True"
        by (cases r1) (auto simp: checkpoint_inlined_data_def Let_def)
      with wt(1,2) show ?thesis by simp
    next
      case True
      define st2 where "st2 = foldl (\<lambda>st k. update_index_entry k (ptrs k) st) st1 (visit ptrs)"
      define st3 where "st3 = st2\<lparr>segments := (segments st2)(tid \<mapsto> \<lparr>sm_level = 0, sm_segment = target\<rparr>)\<rparr>"
      from assms(7) go w True obtain r4 where rw: "rewrite_wal_snapshot P visit clock st3 = (r4, st')"
        by (auto simp: checkpoint_inlined_data_def Let_def st3_def st2_def split: prod.splits result.splits)
      note f = rewrite_fields [OF rw]
      have len: "length (seg_file target) < 2 ^ 64"
        using assms(8) [unfolded capacity_def f(1), rule_format, of tid "\<lparr>sm_level = 0, sm_segment = target\<rparr>"] by (simp add: st3_def)
      have val: "content P Z st j = Some v" if "map_of ?es j = Some v" for j v
        using that es(2) by (simp add: content_def pointer_content_def)
      have "\<forall>(j, v) \<in> set ?es. length v < 2 ^ 30" using val assms(6) es(1) by auto
      note t = wt(12) [OF True es(1) len this]
      have dom: "dom ptrs = dom (map_of ?es)" using t unfolding target_ok_def by (auto simp: dom_def) fastforce
      then have vis: "set (visit ptrs) = dom ptrs" using assms(4) finite_dom_map_of [of ?es] by (simp add: visits_def)
      note u = update_fold_storage [where ptrs = ptrs and st = st1 and ks = "visit ptrs", folded st2_def]
      have idx: "index st2 = index st1 ++ ptrs" using vis by (auto simp: u(8) fun_eq_iff map_add_def split: option.splits)
      have ok2: "index_ok st2" by (rule u(9) [OF store_okD(1) [OF wt(1)]])
      have "swap_fits P Z [] tid target ptrs st1"
        unfolding swap_fits_def
      proof (intro conjI allI impI)
        show "unseen tid st1" by (rule wt(6))
        show "seg_id target = tid" "seg_map target \<le> length (seg_file target)" "same_key (seg_enc target) (st_enc st1)"
          using t by (simp_all add: target_ok_def)
        show "\<exists>off l v. content P Z st1 j = Some v \<and> p = SegmentPtr tid off l \<and> placed P Z (st_enc st1) (seg_file target) off l v"
          if "ptrs j = Some p" for j p
        proof -
          from that dom obtain v where "map_of ?es j = Some v" by blast
          with t val wt(2) that show ?thesis unfolding target_ok_def by fastforce
        qed
      qed simp_all
      note sw = swap_state_ok [OF wt(1) this, of st3 0]
      have "index_ok st3" using ok2 index_ok_cong [of st3 st2] by (simp add: st3_def)
      then have ok3: "store_ok P Z st3" "content P Z st3 = content P Z st1"
        by (intro sw; simp add: st3_def u(1-7) idx swap_in_def remove_segments_def)+
      have "index st' k \<noteq> Some (Inlined d)"
      proof
        assume "index st' k = Some (Inlined d)"
        then have a: "(index st1 ++ ptrs) k = Some (Inlined d)" by (simp add: f(2) st3_def idx)
        show False
        proof (cases "ptrs k")
          case None
          with a wt(4) es(2) dom show False by (auto simp: map_add_def)
        next
          case (Some p)
          with dom obtain v where "map_of ?es k = Some v" by blast
          with t have "\<exists>off l. ptrs k = Some (SegmentPtr tid off l)" unfolding target_ok_def by blast
          with a show False by (auto simp: map_add_def)
        qed
      qed
      with rewrite_ok [OF ok3(1) rw] ok3(2) wt(2) show ?thesis by simp
    qed
  qed
  then show "store_ok P Z st'" "content P Z st' = content P Z st" "r = Ok True \<Longrightarrow> index st' k \<noteq> Some (Inlined d)" by blast+
qed

text \<open>C7. The background tick is invisible. Flushing the log, rotating the active segment and spilling the
  inlined values into a new segment, or deferring the spill, leave the abstract map as it was and keep the
  invariant, whether the tick succeeds or fails; and a spill that happens leaves no value inlined.\<close>

theorem background_maintenance_preserves:
  assumes "aead_ok P" "\<forall>z. Z = Some z \<longrightarrow> zstd_ok z" "store_ok P Z st" "visits visit" "next_segment_id st < 0xFFFFFFFFFFFFFFFE"
    and "\<forall>k v. content P Z st k = Some v \<longrightarrow> length v < 2 ^ 30"
    and "run_background_maintenance P Z visit clock defer_heavy st = (r, st')" "capacity st'"
  shows "store_ok P Z st' \<and> content P Z st' = content P Z st \<and>
    (\<forall>st2. checkpoint_inlined_data P Z visit clock st = (Ok True, st2) \<longrightarrow> capacity st2 \<longrightarrow>
      content P Z st2 = content P Z st \<and> (\<forall>k d. index st2 k \<noteq> Some (Inlined d)))"
proof -
  define st1 where "st1 = (if should_tick_flush clock (st_wal st) then st\<lparr>st_wal := flush clock (st_wal st)\<rparr> else st)"
  have nx: "next_segment_id st < 0xFFFFFFFFFFFFFFFF" using assms(5) by (simp add: word_less_nat_alt)
  have "wal_enc (flush clock (st_wal st)) = wal_enc (st_wal st)" by (simp add: flush_def write_all_def Let_def)
  note wal_update_ok [OF assms(3) this]
  then have s1: "store_ok P Z st1" "content P Z st1 = content P Z st" "next_segment_id st1 = next_segment_id st"
    using assms(3) by (simp_all add: st1_def)
  obtain r0 st0 where rot: "maybe_rotate_active_segment st1 = (r0, st0)" by fastforce
  note ok = maybe_rotate_ok [OF s1(1) nx [folded s1(3)] rot]
  have "next_segment_id st0 \<le> next_segment_id st1 + 1"
    using rot u64_succ_less [OF nx] s1(3)
    by (auto simp: maybe_rotate_active_segment_def rotate_segment_def Let_def split: option.splits if_splits)
  then have nx0: "next_segment_id st0 < 0xFFFFFFFFFFFFFFFF"
    using s1(3) assms(5) by (simp add: word_less_nat_alt word_le_nat_alt unat_word_ariths)
  have sizes: "\<forall>k v. content P Z st0 k = Some v \<longrightarrow> length v < 2 ^ 30" using assms(6) ok(3) s1(2) by simp
  have "store_ok P Z st' \<and> content P Z st' = content P Z st"
  proof (cases defer_heavy)
    case True
    with assms(7) rot ok(1-3) s1(2) show ?thesis by (simp add: run_background_maintenance_def st1_def [symmetric] Let_def)
  next
    case False
    obtain r3 st3 where c: "checkpoint_inlined_data P Z visit clock st0 = (r3, st3)" by fastforce
    with False assms(7) rot ok(1) have "st' = st3"
      by (cases r3) (simp_all add: run_background_maintenance_def st1_def [symmetric] Let_def)
    with checkpoint_ok(1,2) [OF assms(1,2) ok(2) assms(4) nx0 sizes c] assms(8) ok(3) s1(2) show ?thesis by simp
  qed
  with checkpoint_ok(2,3) [OF assms(1-4) nx assms(6)] show ?thesis by blast
qed

section \<open>Sample\<close>

definition sample_spill :: storage where
  "sample_spill = sample_store\<lparr>index := [[97] \<mapsto> Inlined [8, 9]], inlined_bytes := 2, max_inlined_bytes := 1\<rparr>"

lemma sample_spill_fields:
  "segments sample_spill = segments sample_store" "active_segment_id sample_spill = 0" "next_segment_id sample_spill = 1"
  "st_enc sample_spill = None" "index sample_spill = [[97] \<mapsto> Inlined [8, 9]]" "st_cache sample_spill = cache_new 64"
  "inlined_bytes sample_spill = 2" "max_inlined_bytes sample_spill = 1" "wal_enc (st_wal sample_spill) = None"
  "compaction_threshold sample_spill = 0"
  by (simp_all add: sample_spill_def)

lemma sample_spill_ok: "store_ok sample_prims None sample_spill" "content sample_prims None sample_spill = [[97] \<mapsto> [8, 9]]"
proof -
  have live: "live_keys sample_spill = {[97]}"
    by (auto simp: live_keys_def is_live_def live_pointer_def is_tombstone_def sample_spill_fields split: if_splits)
  have "bytes_total (index sample_spill) = 2" by (simp add: bytes_total_def pointer_bytes_def sample_spill_fields)
  then have "index_ok sample_spill"
    using live by (simp add: index_ok_def stats_ok_def view_ok_def sample_spill_fields) (simp add: sample_spill_def sample_store_def)
  moreover have "pages.holds_only R (cache_new 64)" for R by (simp add: pages.holds_only_def cache_new_def)
  ultimately show "store_ok sample_prims None sample_spill"
    by (auto simp: store_ok_def meta_ok_def segment_open_def sample_spill_fields)
  show "content sample_prims None sample_spill = [[97] \<mapsto> [8, 9]]"
    by (auto simp: content_def pointer_content_def fun_eq_iff sample_spill_fields)
qed

lemma sample_spilled:
  assumes "run_background_maintenance sample_prims None sample_visit 0 False sample_spill = (r, st')"
  shows "segments st' = (segments sample_store)(1 \<mapsto> \<lparr>sm_level = 0, sm_segment = (segment_open [] 1 None)\<lparr>seg_file := u32_le 2 @ [8, 9]\<rparr>\<rparr>)"
proof -
  have "\<not> should_tick_flush 0 (st_wal sample_spill)"
    by (simp add: sample_spill_def sample_store_def should_tick_flush_def wal_open_def has_pending_def)
  moreover have "maybe_rotate_active_segment sample_spill = (Ok (), sample_spill)"
    by (simp add: maybe_rotate_active_segment_def sample_spill_fields segment_open_def)
  moreover have "inlined_entries sample_visit sample_spill = [([97], [8, 9])]"
    by (simp add: inlined_entries_def sample_spill_fields sample_visit_single map_filter_simps)
  moreover have "write_target sample_prims None [([97], [8, 9])] sample_spill =
      (Ok (), [[97] \<mapsto> SegmentPtr 1 0 2], (segment_open [] 1 None)\<lparr>seg_file := u32_le 2 @ [8, 9]\<rparr>, 1,
       sample_spill\<lparr>next_segment_id := 2, st_enc := None\<rparr>)"
    by (simp add: write_target_def compact_segment_def sample_spill_fields segment_open_def segment_truncate_def
        compress_value_def seal_value_def append_raw_with_len_def Let_def)
  ultimately show ?thesis
    using assms
    by (auto simp: run_background_maintenance_def checkpoint_inlined_data_def sample_spill_fields sample_visit_single Let_def
        update_index_entry_def rewrite_fields(1) split: prod.splits result.splits dest!: rewrite_fields(1))
qed

theorem background_maintenance_preserves_witness:
  "\<exists>r st'. run_background_maintenance sample_prims None sample_visit 0 False sample_spill = (r, st') \<and>
    content sample_prims None st' = [[97] \<mapsto> [8, 9]] \<and> segments st' 1 \<noteq> None"
proof -
  obtain r st' where m: "run_background_maintenance sample_prims None sample_visit 0 False sample_spill = (r, st')" by fastforce
  note seg = sample_spilled [OF m]
  have "capacity st'" by (simp add: capacity_def seg segment_open_def)
  then have "content sample_prims None st' = [[97] \<mapsto> [8, 9]]"
    using background_maintenance_preserves [OF sample_prims_ok _ sample_spill_ok(1) sample_visits _ _ m]
    by (simp add: sample_spill_ok sample_spill_fields)
  with m seg show ?thesis by simp
qed

end
