(* ===== verification/Graph_Order.thy ===== *)
theory Graph_Order
  imports Errors
begin

text \<open>
  Directed graph analytics of \<open>src/engine/engine.rs\<close>: the numbering of the nodes and the topological order
  (\<open>graph_topo_sort\<close>, after Kahn). The graph is the node list and the adjacency map that \<open>graph_adjacency\<close> returns; nodes are pairs
  of a collection and an identifier. An index out of range and a counter below zero are panics.
\<close>

type_synonym graph_node = "str \<times> str"
type_synonym graph_adj = "graph_node \<rightharpoonup> graph_node list"

section \<open>Numbering\<close>

definition pos :: "graph_node list \<Rightarrow> graph_node \<rightharpoonup> nat" where
  "pos nodes = map_of (rev (zip nodes [0..<length nodes]))"

definition graph_children :: "graph_node list \<Rightarrow> graph_adj \<Rightarrow> nat list list" where
  "graph_children nodes adj =
    map (\<lambda>k. case adj k of Some ts \<Rightarrow> List.map_filter (pos nodes) ts | None \<Rightarrow> []) nodes"

definition graph_edges :: "graph_node list \<Rightarrow> graph_adj \<Rightarrow> (graph_node \<times> graph_node) set" where
  "graph_edges nodes adj = {(a, b). a \<in> set nodes \<and> b \<in> set nodes \<and> (\<exists>ts. adj a = Some ts \<and> b \<in> set ts)}"

definition child_edges :: "nat list list \<Rightarrow> (nat \<times> nat) set" where
  "child_edges children = {(m, c). m < length children \<and> c \<in> set (children ! m)}"

section \<open>Topological order\<close>

fun tally :: "nat list \<Rightarrow> nat list \<Rightarrow> nat list result" where
  "tally indeg [] = Ok indeg"
| "tally indeg (c # cs) = (if c < length indeg then tally (indeg[c := indeg ! c + 1]) cs else Panic)"

fun release :: "nat list \<Rightarrow> nat list \<Rightarrow> nat list \<Rightarrow> (nat list \<times> nat list) result" where
  "release indeg frontier [] = Ok (indeg, frontier)"
| "release indeg frontier (c # cs) =
    (if c < length indeg \<and> 0 < indeg ! c
     then release (indeg[c := indeg ! c - 1])
            (if indeg ! c - 1 = 0 then insort_insert c frontier else frontier) cs
     else Panic)"

definition positive :: "nat list \<Rightarrow> nat" where
  "positive indeg = length (filter ((<) 0) indeg)"

lemma positive_update:
  assumes "c < length indeg"
  shows "positive (indeg[c := x]) + (if 0 < indeg ! c then 1 else 0) = positive indeg + (if 0 < x then 1 else 0)"
  using assms
proof (induction indeg arbitrary: c)
  case (Cons a as)
  show ?case
  proof (cases c)
    case (Suc d)
    then show ?thesis using Cons.IH [of d] Cons.prems by (auto simp: positive_def)
  qed (auto simp: positive_def)
qed simp

lemma insort_insert_length: "length (insort_insert c xs) \<le> Suc (length xs)"
  by (simp add: insort_insert_key_def)

lemma release_measure:
  "release indeg frontier cs = Ok (indeg', frontier') \<Longrightarrow>
    length frontier' + positive indeg' \<le> length frontier + positive indeg"
proof (induction indeg frontier cs rule: release.induct)
  case (2 indeg frontier c cs)
  then have c: "c < length indeg" "0 < indeg ! c" by (auto split: if_splits)
  let ?ind = "indeg[c := indeg ! c - 1]" and ?fr = "if indeg ! c - 1 = 0 then insort_insert c frontier else frontier"
  have "length frontier' + positive indeg' \<le> length ?fr + positive ?ind"
    using "2.IH" "2.prems" c by simp
  also have "\<dots> \<le> length frontier + positive indeg"
    using positive_update [OF c(1), of "indeg ! c - 1"] insort_insert_length [of c frontier] c(2) by (auto split: if_splits)
  finally show ?case .
qed simp

function topo_loop ::
  "graph_node list \<Rightarrow> nat list list \<Rightarrow> nat list \<Rightarrow> nat list \<Rightarrow> graph_node list \<Rightarrow> graph_node list result" where
  "topo_loop nodes children indeg [] out = Ok out"
| "topo_loop nodes children indeg (n # frontier) out =
    (if n < length nodes \<and> n < length children then
       (case release indeg frontier (children ! n) of
          Ok (indeg', frontier') \<Rightarrow> topo_loop nodes children indeg' frontier' (out @ [nodes ! n])
        | Err e \<Rightarrow> Err e
        | Panic \<Rightarrow> Panic)
     else Panic)"
  by pat_completeness auto

termination
  by (relation "measure (\<lambda>(nodes, children, indeg, frontier, out). length frontier + positive indeg)")
     (auto dest: release_measure)

definition graph_topo_sort :: "graph_node list \<Rightarrow> graph_adj \<Rightarrow> graph_node list option result" where
  "graph_topo_sort nodes adj =
    (let children = graph_children nodes adj in
     and_then (tally (replicate (length nodes) 0) (concat children)) (\<lambda>indeg.
     and_then (topo_loop nodes children indeg (filter (\<lambda>i. indeg ! i = 0) [0..<length nodes]) []) (\<lambda>out.
     Ok (if length out = length nodes then Some out else None))))"

section \<open>Edges of the numbering\<close>

lemma pos_nth:
  assumes "distinct nodes"
  shows "pos nodes k = Some i \<longleftrightarrow> i < length nodes \<and> nodes ! i = k"
proof -
  have "distinct (map fst (rev (zip nodes [0..<length nodes])))" using assms by (simp add: rev_map [symmetric])
  then have "pos nodes k = Some i \<longleftrightarrow> (k, i) \<in> set (zip nodes [0..<length nodes])"
    by (simp add: pos_def)
  then show ?thesis by (auto simp: in_set_zip)
qed

lemma children_length [simp]: "length (graph_children nodes adj) = length nodes"
  by (simp add: graph_children_def)

lemma children_edge:
  assumes "distinct nodes" "i < length nodes"
  shows "j \<in> set (graph_children nodes adj ! i) \<longleftrightarrow> j < length nodes \<and> (nodes ! i, nodes ! j) \<in> graph_edges nodes adj"
proof (cases "adj (nodes ! i)")
  case (Some ts)
  then show ?thesis using assms by (auto simp: graph_children_def graph_edges_def in_map_filter pos_nth)
qed (use assms in \<open>simp add: graph_children_def graph_edges_def\<close>)

lemma child_edges_graph:
  assumes "distinct nodes"
  shows "child_edges (graph_children nodes adj) =
    {(i, j). i < length nodes \<and> j < length nodes \<and> (nodes ! i, nodes ! j) \<in> graph_edges nodes adj}"
  using children_edge [OF assms] by (auto simp: child_edges_def)

lemma edges_image:
  assumes "distinct nodes"
  shows "graph_edges nodes adj = (\<lambda>(i, j). (nodes ! i, nodes ! j)) ` child_edges (graph_children nodes adj)"
proof (intro set_eqI iffI)
  fix e assume e: "e \<in> graph_edges nodes adj"
  then obtain i j where "i < length nodes" "j < length nodes" "e = (nodes ! i, nodes ! j)"
    by (auto simp: graph_edges_def in_set_conv_nth)
  with e show "e \<in> (\<lambda>(i, j). (nodes ! i, nodes ! j)) ` child_edges (graph_children nodes adj)"
    unfolding child_edges_graph [OF assms] by (intro image_eqI [of _ _ "(i, j)"]) auto
qed (auto simp: child_edges_graph [OF assms])

lemma acyclic_children:
  assumes "distinct nodes"
  shows "acyclic (child_edges (graph_children nodes adj)) \<longleftrightarrow> acyclic (graph_edges nodes adj)"
proof -
  let ?C = "child_edges (graph_children nodes adj)" and ?E = "graph_edges nodes adj"
  have up: "(nodes ! i, nodes ! j) \<in> ?E\<^sup>+" if "(i, j) \<in> ?C\<^sup>+" for i j
    using that
  proof induction
    case (base j)
    then show ?case by (simp add: child_edges_graph [OF assms] r_into_trancl)
  next
    case (step j k)
    then have "(nodes ! j, nodes ! k) \<in> ?E" by (simp add: child_edges_graph [OF assms])
    with step show ?case by (blast intro: trancl_into_trancl)
  qed
  have down: "\<exists>i j. i < length nodes \<and> j < length nodes \<and> nodes ! i = a \<and> nodes ! j = b \<and> (i, j) \<in> ?C\<^sup>+"
    if "(a, b) \<in> ?E\<^sup>+" for a b
    using that
  proof induction
    case (base b)
    then show ?case unfolding child_edges_graph [OF assms] by (auto simp: graph_edges_def in_set_conv_nth intro!: r_into_trancl)
  next
    case (step b c)
    then obtain i j where ij: "i < length nodes" "j < length nodes" "nodes ! i = a" "nodes ! j = b" "(i, j) \<in> ?C\<^sup>+" by blast
    from step(2) obtain k where k: "k < length nodes" "nodes ! k = c" by (auto simp: graph_edges_def in_set_conv_nth)
    with ij step(2) have "(j, k) \<in> ?C" by (simp add: child_edges_graph [OF assms])
    with ij k show ?case by (blast intro: trancl_into_trancl)
  qed
  show ?thesis
    unfolding acyclic_def
  proof (intro iffI allI notI)
    fix a assume "\<forall>x. (x, x) \<notin> ?C\<^sup>+" "(a, a) \<in> ?E\<^sup>+"
    with down [of a a] assms show False by (metis nth_eq_iff_index_eq)
  next
    fix i assume "\<forall>x. (x, x) \<notin> ?E\<^sup>+" "(i, i) \<in> ?C\<^sup>+"
    with up show False by blast
  qed
qed

section \<open>The topological order is an order\<close>

lemma tally_ok:
  "\<forall>c\<in>set cs. c < length indeg \<Longrightarrow>
    \<exists>indeg'. tally indeg cs = Ok indeg' \<and> length indeg' = length indeg \<and>
      (\<forall>i<length indeg. indeg' ! i = indeg ! i + count_list cs i)"
proof (induction indeg cs rule: tally.induct)
  case (2 indeg c cs)
  then obtain indeg' where "tally (indeg[c := indeg ! c + 1]) cs = Ok indeg'" "length indeg' = length indeg"
    "\<forall>i<length indeg. indeg' ! i = indeg[c := indeg ! c + 1] ! i + count_list cs i" by auto
  then show ?case using "2.prems" by (auto simp: nth_list_update)
qed simp

lemma sum_count_concat: "count_list (concat xss) c = (\<Sum>m<length xss. count_list (xss ! m) c)"
  by (induction xss rule: rev_induct) (auto simp: nth_append)

lemma insort_insert_set [simp]: "set (insort_insert c xs) = insert c (set xs)"
  by (simp add: set_insort_insert)

text \<open>
  While the targets \<open>cs\<close> of a node are released, a counter holds what the other open nodes contribute,
  \<open>b c\<close>, and the targets still to come; it is zero exactly on the closed nodes and the frontier.
\<close>

definition counters_ok :: "(nat \<Rightarrow> nat) \<Rightarrow> nat set \<Rightarrow> nat list \<Rightarrow> nat list \<Rightarrow> nat list \<Rightarrow> bool" where
  "counters_ok b closed cs indeg frontier \<longleftrightarrow>
    distinct frontier \<and> sorted frontier \<and> closed \<inter> set frontier = {} \<and> set frontier \<subseteq> {..<length indeg} \<and>
    (\<forall>c<length indeg. indeg ! c = b c + count_list cs c \<and> (c \<in> closed \<union> set frontier \<longleftrightarrow> indeg ! c = 0))"

lemma release_ok:
  assumes "counters_ok b closed cs indeg frontier" "\<forall>c\<in>set cs. c < length indeg"
  shows "\<exists>indeg' frontier'. release indeg frontier cs = Ok (indeg', frontier') \<and>
    length indeg' = length indeg \<and> counters_ok b closed [] indeg' frontier'"
  using assms
proof (induction indeg frontier cs rule: release.induct)
  case (2 indeg frontier c cs)
  from "2.prems" have c: "c < length indeg" "0 < indeg ! c" "c \<notin> closed" "c \<notin> set frontier"
    by (auto simp: counters_ok_def)
  have "counters_ok b closed cs (indeg[c := indeg ! c - 1])
    (if indeg ! c - 1 = 0 then insort_insert c frontier else frontier)"
    using "2.prems" c by (auto simp: counters_ok_def nth_list_update sorted_insort_insert distinct_insort_insert)
  then show ?case using "2.IH" "2.prems" c by simp
qed auto

definition topo_inv :: "nat list list \<Rightarrow> nat list \<Rightarrow> nat list \<Rightarrow> nat list \<Rightarrow> bool" where
  "topo_inv children indeg frontier ps \<longleftrightarrow>
    length indeg = length children \<and> distinct ps \<and> set ps \<subseteq> {..<length children} \<and>
    counters_ok (\<lambda>c. \<Sum>m\<in>{..<length children} - set ps. count_list (children ! m) c) (set ps) [] indeg frontier \<and>
    (\<forall>k<length ps. \<forall>m<length children. ps ! k \<in> set (children ! m) \<longrightarrow> m \<in> set (take k ps))"

definition children_ok :: "nat list list \<Rightarrow> bool" where
  "children_ok children \<longleftrightarrow> (\<forall>ts\<in>set children. \<forall>c\<in>set ts. c < length children)"

lemma topo_step:
  assumes inv: "topo_inv children indeg (n # frontier) ps" and ok: "children_ok children"
  shows "n < length children \<and> (\<exists>indeg' frontier'. release indeg frontier (children ! n) = Ok (indeg', frontier') \<and>
    topo_inv children indeg' frontier' (ps @ [n]))"
proof -
  define N where "N = length children"
  define b where "b ps c = (\<Sum>m\<in>{..<N} - set ps. count_list (children ! m) c)" for ps c
  from inv have cnt: "counters_ok (b ps) (set ps) [] indeg (n # frontier)" and len: "length indeg = N"
    and ps: "distinct ps" "set ps \<subseteq> {..<N}"
    and earlier: "\<And>k m. k < length ps \<Longrightarrow> m < N \<Longrightarrow> ps ! k \<in> set (children ! m) \<Longrightarrow> m \<in> set (take k ps)"
    by (auto simp: topo_inv_def b_def [abs_def] N_def)
  then have n: "n < N" "n \<notin> set ps" "b ps n = 0" by (auto simp: counters_ok_def)
  have open_n: "b ps c = b (ps @ [n]) c + count_list (children ! n) c" for c
  proof -
    have "{..<N} - set (ps @ [n]) = ({..<N} - set ps) - {n}" by auto
    then show ?thesis using n sum.remove [of "{..<N} - set ps" n "\<lambda>m. count_list (children ! m) c"] by (simp add: b_def)
  qed
  have fresh: "n \<notin> set (children ! m)" if "m < N" "m \<notin> set ps" for m
    using that n(3) by (simp add: b_def count_list_0_iff)
  have held: "counters_ok (b (ps @ [n])) (set (ps @ [n])) (children ! n) indeg frontier"
    using cnt by (auto simp: counters_ok_def open_n)
  have "\<forall>c\<in>set (children ! n). c < length indeg" using ok n len by (auto simp: children_ok_def N_def)
  from release_ok [OF held this] obtain indeg' frontier' where r: "release indeg frontier (children ! n) = Ok (indeg', frontier')"
    "length indeg' = length indeg" "counters_ok (b (ps @ [n])) (set (ps @ [n])) [] indeg' frontier'"
    by blast
  have "m \<in> set (take k (ps @ [n]))" if "k < length (ps @ [n])" "m < N" "(ps @ [n]) ! k \<in> set (children ! m)" for k m
    using that earlier [of k m] fresh [of m] by (cases "k < length ps") (auto simp: nth_append)
  with r ps n len have "topo_inv children indeg' frontier' (ps @ [n])"
    by (simp add: topo_inv_def b_def [abs_def] N_def [symmetric])
  with r n show ?thesis by (simp add: N_def)
qed

lemma topo_loop_ok:
  assumes "topo_inv children indeg frontier ps" "children_ok children" "length nodes = length children"
  shows "\<exists>indeg' ps'. topo_loop nodes children indeg frontier (map ((!) nodes) ps) = Ok (map ((!) nodes) ps') \<and>
    topo_inv children indeg' [] ps'"
  using assms
proof (induction nodes children indeg frontier "map ((!) nodes) ps" arbitrary: ps rule: topo_loop.induct)
  case (2 nodes children indeg n frontier)
  from topo_step [OF "2.prems"(1,2)] obtain indeg' frontier' where
    r: "n < length children" "release indeg frontier (children ! n) = Ok (indeg', frontier')"
      "topo_inv children indeg' frontier' (ps @ [n])" by blast
  then show ?case using "2.hyps" [of "(indeg', frontier')" indeg' frontier' "ps @ [n]"] "2.prems" by simp
qed auto

lemma topo_start:
  assumes "children_ok children"
  shows "\<exists>indeg. tally (replicate (length children) 0) (concat children) = Ok indeg \<and>
    topo_inv children indeg (filter (\<lambda>i. indeg ! i = 0) [0..<length children]) []"
proof -
  let ?N = "length children"
  have "\<forall>c\<in>set (concat children). c < length (replicate ?N (0::nat))" using assms by (auto simp: children_ok_def)
  from tally_ok [OF this] obtain indeg where "tally (replicate ?N 0) (concat children) = Ok indeg"
    "length indeg = ?N" "\<forall>i<?N. indeg ! i = count_list (concat children) i" by auto
  then show ?thesis by (auto simp: topo_inv_def counters_ok_def sum_count_concat lessThan_def sorted_wrt_filter)
qed

lemma topo_stuck:
  assumes "topo_inv children indeg [] ps" "children_ok children" "length ps \<noteq> length children"
  shows "\<not> acyclic (child_edges children)"
proof
  let ?N = "length children" and ?Q = "{..<length children} - set ps"
  assume "acyclic (child_edges children)"
  moreover have "child_edges children \<subseteq> {..<?N} \<times> {..<?N}"
    using assms(2) by (auto simp: child_edges_def children_ok_def)
  then have "finite (child_edges children)" by (rule finite_subset) simp
  ultimately have wf: "wf (child_edges children)" by (simp add: finite_acyclic_wf)
  have "?Q \<noteq> {}"
  proof
    assume "?Q = {}"
    then have "set ps = {..<?N}" using assms(1) by (auto simp: topo_inv_def)
    then have "length ps = ?N" using assms(1) distinct_card [of ps] by (simp add: topo_inv_def)
    with assms(3) show False by simp
  qed
  then obtain c where c: "c \<in> ?Q" "\<And>m. (m, c) \<in> child_edges children \<Longrightarrow> m \<notin> ?Q"
    using wfE_min [OF wf] by (metis ex_in_conv)
  then have "indeg ! c \<noteq> 0" "indeg ! c = (\<Sum>m\<in>?Q. count_list (children ! m) c)"
    using assms(1) by (auto simp: topo_inv_def counters_ok_def)
  then obtain m where "m \<in> ?Q" "count_list (children ! m) c \<noteq> 0" by (metis (no_types, lifting) sum.neutral)
  then have "(m, c) \<in> child_edges children" by (auto simp: child_edges_def count_list_0_iff)
  with c \<open>m \<in> ?Q\<close> show False by blast
qed

lemma graph_children_ok:
  assumes "distinct nodes"
  shows "children_ok (graph_children nodes adj)"
  unfolding children_ok_def
proof (intro ballI)
  fix ts c assume "ts \<in> set (graph_children nodes adj)" "c \<in> set ts"
  then obtain i where "i < length nodes" "c \<in> set (graph_children nodes adj ! i)"
    by (auto simp: in_set_conv_nth [of ts])
  then show "c < length (graph_children nodes adj)" by (simp add: children_edge [OF assms])
qed

text \<open>An order of the nodes in which no edge leads backwards.\<close>

definition edge_order :: "graph_node list \<Rightarrow> graph_adj \<Rightarrow> graph_node list \<Rightarrow> bool" where
  "edge_order nodes adj out \<longleftrightarrow> distinct out \<and> set out = set nodes \<and>
    (\<forall>k<length out. \<forall>a. (a, out ! k) \<in> graph_edges nodes adj \<longrightarrow> a \<in> set (take k out))"

lemma topo_done:
  assumes "distinct nodes" "topo_inv (graph_children nodes adj) indeg [] ps" "length ps = length nodes"
  shows "edge_order nodes adj (map ((!) nodes) ps)"
proof -
  have ps: "distinct ps" "set ps \<subseteq> {..<length nodes}" using assms(2) by (auto simp: topo_inv_def)
  then have all: "set ps = {..<length nodes}" using assms(3) distinct_card [of ps] by (simp add: card_subset_eq)
  have "distinct (map ((!) nodes) ps)" using ps assms(1) by (simp add: distinct_map inj_on_nth [of nodes "set ps"] subset_iff)
  moreover have "set (map ((!) nodes) ps) = set nodes" unfolding set_map all by (metis map_nth set_map set_upt atLeast0LessThan)
  moreover have "a \<in> set (take k (map ((!) nodes) ps))"
    if k: "k < length ps" and e: "(a, nodes ! (ps ! k)) \<in> graph_edges nodes adj" for k a
  proof -
    from e obtain m where m: "m < length nodes" "a = nodes ! m" by (auto simp: graph_edges_def in_set_conv_nth)
    moreover have "ps ! k < length nodes" using k ps nth_mem [OF k] by blast
    ultimately have "ps ! k \<in> set (graph_children nodes adj ! m)" using e by (simp add: children_edge [OF assms(1)])
    with assms(2) k m have "m \<in> set (take k ps)" by (auto simp: topo_inv_def)
    with m show ?thesis by (auto simp: take_map)
  qed
  ultimately show ?thesis by (simp add: edge_order_def)
qed

lemma edge_order_acyclic:
  assumes "edge_order nodes adj out"
  shows "acyclic (graph_edges nodes adj)"
proof -
  let ?r = "\<lambda>a. LEAST k. k < length out \<and> out ! k = a"
  have rank: "?r (out ! k) = k" if "k < length out" for k
    using assms that by (intro Least_equality) (auto simp: edge_order_def nth_eq_iff_index_eq)
  have "?r a < ?r b" if e: "(a, b) \<in> graph_edges nodes adj" for a b
  proof -
    have "b \<in> set out" using e assms by (auto simp: edge_order_def graph_edges_def)
    then obtain k where k: "k < length out" "b = out ! k" by (auto simp: in_set_conv_nth)
    with e assms have "a \<in> set (take k out)" unfolding edge_order_def by blast
    then obtain j where "j < k" "a = out ! j" by (auto simp: in_set_conv_nth)
    with k show ?thesis by (simp add: rank)
  qed
  then have "graph_edges nodes adj \<subseteq> measure ?r" by auto
  then show ?thesis by (meson acyclic_subset wf_acyclic wf_measure)
qed

text \<open>C14. \<open>graph_topo_sort\<close> always returns: an order of exactly the nodes in which every edge leads forward when the
  graph has no directed cycle, and \<open>None\<close> exactly when it has one.\<close>

theorem topo_sort_correct:
  assumes "distinct nodes"
  shows "(acyclic (graph_edges nodes adj) \<and> (\<exists>out. graph_topo_sort nodes adj = Ok (Some out) \<and> edge_order nodes adj out)) \<or>
    (\<not> acyclic (graph_edges nodes adj) \<and> graph_topo_sort nodes adj = Ok None)"
proof -
  let ?ch = "graph_children nodes adj"
  note ok = graph_children_ok [OF assms, of adj]
  from topo_start [OF ok] obtain indeg where start: "tally (replicate (length nodes) 0) (concat ?ch) = Ok indeg"
    "topo_inv ?ch indeg (filter (\<lambda>i. indeg ! i = 0) [0..<length nodes]) []" by auto
  from topo_loop_ok [OF start(2) ok, of nodes] obtain indeg' ps where run:
    "topo_loop nodes ?ch indeg (filter (\<lambda>i. indeg ! i = 0) [0..<length nodes]) [] = Ok (map ((!) nodes) ps)"
    "topo_inv ?ch indeg' [] ps" by auto
  have eq: "graph_topo_sort nodes adj = Ok (if length ps = length nodes then Some (map ((!) nodes) ps) else None)"
    using start run by (simp add: graph_topo_sort_def)
  show ?thesis
  proof (cases "length ps = length nodes")
    case True
    from topo_done [OF assms run(2) True] edge_order_acyclic eq True show ?thesis by auto
  next
    case False
    with topo_stuck [OF run(2) ok] eq show ?thesis by (simp add: acyclic_children [OF assms])
  qed
qed

definition sample_nodes :: "graph_node list" where
  "sample_nodes = [(ascii ''users'', ascii ''ann''), (ascii ''users'', ascii ''bob''), (ascii ''users'', ascii ''cid'')]"

definition sample_adj :: graph_adj where
  "sample_adj = map_of
    [((ascii ''users'', ascii ''ann''), []),
     ((ascii ''users'', ascii ''bob''), [(ascii ''users'', ascii ''gone'')]),
     ((ascii ''users'', ascii ''cid''), [(ascii ''users'', ascii ''ann''), (ascii ''users'', ascii ''bob'')])]"

lemma sample_nodes_distinct: "distinct sample_nodes"
  by code_simp

theorem topo_sort_correct_witness:
  "distinct sample_nodes \<and>
   graph_topo_sort sample_nodes sample_adj =
     Ok (Some [(ascii ''users'', ascii ''cid''), (ascii ''users'', ascii ''ann''), (ascii ''users'', ascii ''bob'')]) \<and>
   edge_order sample_nodes sample_adj
     [(ascii ''users'', ascii ''cid''), (ascii ''users'', ascii ''ann''), (ascii ''users'', ascii ''bob'')]"
proof -
  have "graph_topo_sort sample_nodes sample_adj =
     Ok (Some [(ascii ''users'', ascii ''cid''), (ascii ''users'', ascii ''ann''), (ascii ''users'', ascii ''bob'')])"
    by code_simp
  with topo_sort_correct [OF sample_nodes_distinct, of sample_adj] sample_nodes_distinct show ?thesis by simp
qed

end
