(* ===== verification/Graph_Cycle.thy ===== *)
theory Graph_Cycle
  imports Graph_Order
begin

text \<open>
  The search for a directed cycle of \<open>src/engine/engine.rs\<close> (\<open>graph_find_cycle\<close>): a depth-first colour scan
  with an explicit stack of nodes and child indices, from every node that is still white. The scan is shown to
  return on every graph, to report only real cycles, and to report none exactly on acyclic graphs.
\<close>

section \<open>Cycles\<close>

definition whites :: "nat list \<Rightarrow> nat" where
  "whites color = length (filter ((=) 0) color)"

definition unseen :: "nat list list \<Rightarrow> (nat \<times> nat) list \<Rightarrow> nat" where
  "unseen children stack = sum_list (map (\<lambda>(n, i). Suc (length (children ! n) - i)) stack)"

lemma whites_update:
  assumes "c < length color"
  shows "whites (color[c := x]) + (if color ! c = 0 then 1 else 0) = whites color + (if x = 0 then 1 else 0)"
  using assms
proof (induction color arbitrary: c)
  case (Cons a as)
  show ?case
  proof (cases c)
    case (Suc d)
    then show ?thesis using Cons.IH [of d] Cons.prems by (auto simp: whites_def)
  qed (auto simp: whites_def)
qed simp

lemma whites_grey: "c < length color \<Longrightarrow> color ! c = 0 \<Longrightarrow> whites (color[c := Suc x]) < whites color"
  using whites_update [of c color "Suc x"] by simp

lemma whites_black: "n < length color \<Longrightarrow> whites (color[n := Suc x]) \<le> whites color"
  using whites_update [of n color "Suc x"] by simp

definition nodes_at :: "graph_node list \<Rightarrow> nat list \<Rightarrow> graph_node list result" where
  "nodes_at nodes vs = (if list_all (\<lambda>v. v < length nodes) vs then Ok (map ((!) nodes) vs) else Panic)"

text \<open>The stack has its top first; the source pushes at the back, so the reported slice is cut from its reverse.\<close>

function dfs_loop ::
  "graph_node list \<Rightarrow> nat list list \<Rightarrow> nat list \<Rightarrow> (nat \<times> nat) list \<Rightarrow> (nat list + graph_node list) result" where
  "dfs_loop nodes children color [] = Ok (Inl color)"
| "dfs_loop nodes children color ((n, i) # stack) =
    (if length children \<le> n then Panic
     else if length (children ! n) \<le> i then
       (if n < length color then dfs_loop nodes children (color[n := 2]) stack else Panic)
     else let c = children ! n ! i; stack' = (n, i + 1) # stack in
       if length color \<le> c then Panic
       else if color ! c = 0 then dfs_loop nodes children (color[c := 1]) ((c, 0) # stack')
       else if color ! c = 1 then
         (case dropWhile (\<lambda>(v, j). v \<noteq> c) (rev stack') of
            [] \<Rightarrow> Panic
          | cycle \<Rightarrow> and_then (nodes_at nodes (map fst cycle)) (\<lambda>p. Ok (Inr p)))
       else dfs_loop nodes children color stack')"
  by pat_completeness auto

termination
proof (relation "measures [\<lambda>(nodes, children, color, stack). whites color,
    \<lambda>(nodes, children, color, stack). unseen children stack]", goal_cases)
  case (2 nodes children color n i stack)
  then show ?case using whites_black [of n color 1] by (auto simp: unseen_def numeral_2_eq_2)
next
  case (3 nodes children color n i stack c stack')
  then show ?case using whites_grey [of c color 0] by auto
next
  case (4 nodes children color n i stack c stack')
  then show ?case by (auto simp: unseen_def)
qed simp

fun cycle_scan :: "graph_node list \<Rightarrow> nat list list \<Rightarrow> nat list \<Rightarrow> nat list \<Rightarrow> graph_node list option result" where
  "cycle_scan nodes children color [] = Ok None"
| "cycle_scan nodes children color (s # ss) =
    (if length color \<le> s then Panic
     else if color ! s \<noteq> 0 then cycle_scan nodes children color ss
     else case dfs_loop nodes children (color[s := 1]) [(s, 0)] of
         Ok (Inl color') \<Rightarrow> cycle_scan nodes children color' ss
       | Ok (Inr path) \<Rightarrow> Ok (Some path)
       | Err e \<Rightarrow> Err e
       | Panic \<Rightarrow> Panic)"

definition graph_find_cycle :: "graph_node list \<Rightarrow> graph_adj \<Rightarrow> graph_node list option result" where
  "graph_find_cycle nodes adj =
    cycle_scan nodes (graph_children nodes adj) (replicate (length nodes) 0) [0..<length nodes]"

section \<open>The reported cycle is one\<close>

definition is_cycle :: "('a \<times> 'a) set \<Rightarrow> 'a list \<Rightarrow> bool" where
  "is_cycle E vs \<longleftrightarrow> vs \<noteq> [] \<and> distinct vs \<and> successively (\<lambda>a b. (a, b) \<in> E) vs \<and> (last vs, hd vs) \<in> E"

text \<open>
  Every frame of the stack has its targets before the index closed, but for the last one, which is the node
  of the frame over (\<open>over\<close>).
\<close>

fun frames_ok :: "nat list list \<Rightarrow> nat list \<Rightarrow> nat option \<Rightarrow> (nat \<times> nat) list \<Rightarrow> bool" where
  "frames_ok children color over [] = True"
| "frames_ok children color over ((n, i) # stack) =
    (n < length children \<and> i \<le> length (children ! n) \<and>
     (\<forall>j<i. color ! (children ! n ! j) = 2 \<or> (Suc j = i \<and> over = Some (children ! n ! j))) \<and>
     (\<forall>c. over = Some c \<longrightarrow> c \<in> set (children ! n)) \<and>
     frames_ok children color (Some n) stack)"

definition dfs_inv :: "nat list list \<Rightarrow> nat list \<Rightarrow> (nat \<times> nat) list \<Rightarrow> bool" where
  "dfs_inv children color stack \<longleftrightarrow>
    length color = length children \<and> distinct (map fst stack) \<and>
    (\<forall>v<length children. color ! v = 1 \<longleftrightarrow> v \<in> fst ` set stack) \<and>
    (\<forall>v<length children. color ! v \<le> 2) \<and>
    (\<forall>v<length children. color ! v = 2 \<longrightarrow>
      (\<forall>w\<in>set (children ! v). color ! w = 2) \<and> (v, v) \<notin> (child_edges children)\<^sup>+) \<and>
    frames_ok children color None stack"

lemma dfs_invD:
  assumes "dfs_inv children color stack"
  shows "length color = length children" "distinct (map fst stack)" "frames_ok children color None stack"
    "v < length children \<Longrightarrow> color ! v = 1 \<longleftrightarrow> v \<in> fst ` set stack" "v < length children \<Longrightarrow> color ! v \<le> 2"
    "v < length children \<Longrightarrow> color ! v = 2 \<Longrightarrow>
      (\<forall>w\<in>set (children ! v). color ! w = 2) \<and> (v, v) \<notin> (child_edges children)\<^sup>+"
  using assms unfolding dfs_inv_def by blast+

lemma frames_bounds: "frames_ok children color over stack \<Longrightarrow> v \<in> fst ` set stack \<Longrightarrow> v < length children"
  by (induction children color over stack rule: frames_ok.induct) auto

lemma child_bound: "children_ok children \<Longrightarrow> n < length children \<Longrightarrow> i < length (children ! n) \<Longrightarrow> children ! n ! i < length children"
  unfolding children_ok_def by (meson nth_mem)

lemma frames_chain:
  "frames_ok children color over stack \<Longrightarrow> successively (\<lambda>m n. (n, m) \<in> child_edges children) (map fst stack) \<and>
    (\<forall>c. over = Some c \<longrightarrow> stack \<noteq> [] \<longrightarrow> (fst (hd stack), c) \<in> child_edges children)"
  by (induction children color over stack rule: frames_ok.induct)
     (auto simp: successively_Cons child_edges_def hd_map)

lemma frames_mono:
  assumes "frames_ok children color over stack" "children_ok children"
    "\<And>v. v < length children \<Longrightarrow> color ! v = 2 \<Longrightarrow> color' ! v = 2"
  shows "frames_ok children color' over stack"
  using assms
proof (induction children color over stack rule: frames_ok.induct)
  case (2 children color over n i stack)
  have "children ! n ! j < length children" if "j < i" for j
    using "2.prems"(1,2) that by (simp add: child_bound)
  with 2 show ?case by auto
qed simp

lemma frames_close:
  assumes "frames_ok children color (Some n) stack" "color ! n = 2"
  shows "frames_ok children color None stack"
  using assms by (cases stack) auto

lemma closed_edges:
  assumes "dfs_inv children color stack" "color ! v = 2" "(v, w) \<in> (child_edges children)\<^sup>*"
  shows "color ! w = 2"
  using assms(3,2)
proof induction
  case (step y z)
  then show ?case using assms(1) by (auto simp: dfs_inv_def child_edges_def)
qed

lemma dfs_close:
  assumes inv: "dfs_inv children color ((n, i) # stack)" and ok: "children_ok children" and i: "length (children ! n) \<le> i"
  shows "dfs_inv children (color[n := 2]) stack"
proof -
  from inv have n: "n < length children" "color ! n = 1" and len: "length color = length children"
    and fr: "frames_ok children color (Some n) stack"
    by (auto simp: dfs_inv_def dest: frames_bounds)
  have kids: "color ! w = 2" if "w \<in> set (children ! n)" for w
  proof -
    from that obtain j where "j < length (children ! n)" "w = children ! n ! j" by (auto simp: in_set_conv_nth)
    then show ?thesis using inv i by (simp add: dfs_inv_def)
  qed
  have loop: "(n, n) \<notin> (child_edges children)\<^sup>+"
  proof
    assume "(n, n) \<in> (child_edges children)\<^sup>+"
    then obtain w where "(n, w) \<in> child_edges children" "(w, n) \<in> (child_edges children)\<^sup>*" by (meson tranclD)
    then have "color ! n = 2" using closed_edges [OF inv kids, of w n] by (simp add: child_edges_def)
    with n show False by simp
  qed
  have "frames_ok children (color[n := 2]) (Some n) stack"
    by (rule frames_mono [OF fr ok]) (use len n in \<open>auto simp: nth_list_update\<close>)
  then have frames: "frames_ok children (color[n := 2]) None stack" by (rule frames_close) (use len n in simp)
  have stays: "color[n := 2] ! w = 2" if "color ! w = 2" for w using that n len by (cases "w = n") auto
  have black: "(\<forall>w\<in>set (children ! v). color ! w = 2) \<and> (v, v) \<notin> (child_edges children)\<^sup>+"
    if "v < length children" "color[n := 2] ! v = 2" for v
    using that inv kids loop by (cases "v = n") (auto simp: dfs_inv_def)
  have grey: "color[n := 2] ! v = 1 \<longleftrightarrow> v \<in> fst ` set stack" if "v < length children" for v
    using that inv len by (cases "v = n") (auto simp: dfs_inv_def)
  have "color[n := 2] ! v \<le> 2" if "v < length children" for v
    using that inv len by (cases "v = n") (auto simp: dfs_inv_def)
  with inv len frames black stays grey show ?thesis by (simp add: dfs_inv_def)
qed

lemma dfs_advance:
  assumes "dfs_inv children color ((n, i) # stack)" "i < length (children ! n)" "color ! (children ! n ! i) = 2"
  shows "dfs_inv children color ((n, i + 1) # stack)"
  using assms by (auto simp: dfs_inv_def less_Suc_eq)

lemma dfs_enter:
  assumes inv: "dfs_inv children color ((n, i) # stack)" and ok: "children_ok children"
    and i: "i < length (children ! n)" and c: "c = children ! n ! i" "color ! c = 0"
  shows "dfs_inv children (color[c := 1]) ((c, 0) # (n, i + 1) # stack)"
proof -
  note D = dfs_invD [OF inv]
  have n: "n < length children" using D(3) by simp
  then have b: "c < length children" using ok i c by (simp add: child_bound)
  have "frames_ok children color (Some c) ((n, i + 1) # stack)" using D(3) i c by (auto simp: less_Suc_eq)
  then have frames: "frames_ok children (color[c := 1]) (Some c) ((n, i + 1) # stack)"
    by (rule frames_mono [OF _ ok]) (metis c(2) nth_list_update_neq zero_neq_numeral)
  have fresh: "c \<notin> fst ` set ((n, i) # stack)" using D(4) [OF b] c(2) by simp
  have keep: "color[c := 1] ! v = (if v = c then 1 else color ! v)" for v using b D(1) by simp
  have black: "(\<forall>w\<in>set (children ! v). color[c := 1] ! w = 2) \<and> (v, v) \<notin> (child_edges children)\<^sup>+"
    if "v < length children" "color[c := 1] ! v = 2" for v
  proof -
    have "v \<noteq> c" "color ! v = 2" using that(2) keep [of v] by (auto split: if_splits)
    then show ?thesis using D(6) [OF that(1)] c(2) keep by (auto split: if_splits)
  qed
  have "color[c := 1] ! v = 1 \<longleftrightarrow> v \<in> fst ` set ((c, 0) # (n, i + 1) # stack)" if "v < length children" for v
    using D(4) [OF that] keep [of v] by simp
  moreover have "color[c := 1] ! v \<le> 2" if "v < length children" for v
    using D(5) [OF that] keep [of v] by simp
  moreover have "frames_ok children (color[c := 1]) None ((c, 0) # (n, i + 1) # stack)" using frames b by simp
  ultimately show ?thesis using D(1,2) fresh black unfolding dfs_inv_def by auto
qed

lemma dropWhile_hd: "x \<in> set xs \<Longrightarrow> dropWhile ((\<noteq>) x) xs \<noteq> [] \<and> hd (dropWhile ((\<noteq>) x) xs) = x"
  by (induction xs) auto

lemma dropWhile_last: "dropWhile P xs \<noteq> [] \<Longrightarrow> last (dropWhile P xs) = last xs"
  by (metis last_appendR takeWhile_dropWhile_id)

lemma dropWhile_successively: "successively P xs \<Longrightarrow> successively P (dropWhile Q xs)"
  by (metis successively_append_iff takeWhile_dropWhile_id)

lemma map_fst_dropWhile: "map fst (dropWhile (\<lambda>(v, j). v \<noteq> c) xs) = dropWhile ((\<noteq>) c) (map fst xs)"
  by (induction xs) auto

lemma dfs_found:
  assumes inv: "dfs_inv children color ((n, i) # stack)" and i: "i < length (children ! n)"
    and c: "c = children ! n ! i" "c < length children" "color ! c = 1"
  defines "vs \<equiv> map fst (dropWhile (\<lambda>(v, j). v \<noteq> c) (rev ((n, i + 1) # stack)))"
  shows "is_cycle (child_edges children) vs \<and> (\<forall>v\<in>set vs. v < length children)"
proof -
  let ?ns = "map fst (rev ((n, i + 1) # stack))"
  have vs: "vs = dropWhile ((\<noteq>) c) ?ns" by (simp add: vs_def map_fst_dropWhile)
  note fr = dfs_invD(3) [OF inv]
  have d: "distinct ?ns" using dfs_invD(2) [OF inv] by (simp add: rev_map [symmetric])
  have mem: "c \<in> set ?ns" using inv c by (auto simp: dfs_inv_def)
  have "successively (\<lambda>a b. (a, b) \<in> child_edges children) ?ns"
    using frames_chain [OF fr] by (simp add: rev_map [symmetric] successively_rev del: rev.simps)
  moreover have "(n, c) \<in> child_edges children" using fr i c by (auto simp: child_edges_def)
  moreover have "last vs = n" using dropWhile_hd [OF mem] by (simp add: vs dropWhile_last)
  moreover have "hd vs = c" "vs \<noteq> []" using dropWhile_hd [OF mem] by (simp_all add: vs)
  ultimately have "is_cycle (child_edges children) vs"
    using d by (simp add: is_cycle_def vs dropWhile_successively distinct_dropWhile)
  moreover have "\<forall>v\<in>set vs. v < length children"
    using frames_bounds [OF fr] set_dropWhileD [of _ "(\<noteq>) c" ?ns] by (fastforce simp: vs)
  ultimately show ?thesis ..
qed

text \<open>What a search from one root gives: a cycle, or all it has seen is closed.\<close>

definition dfs_result :: "graph_node list \<Rightarrow> nat list list \<Rightarrow> nat list \<Rightarrow> (nat list + graph_node list) result \<Rightarrow> bool" where
  "dfs_result nodes children color r \<longleftrightarrow>
    (\<exists>color'. r = Ok (Inl color') \<and> dfs_inv children color' [] \<and>
       (\<forall>v<length children. color ! v \<noteq> 0 \<longrightarrow> color' ! v \<noteq> 0)) \<or>
    (\<exists>vs. r = Ok (Inr (map ((!) nodes) vs)) \<and> is_cycle (child_edges children) vs \<and> (\<forall>v\<in>set vs. v < length children))"

lemma dfs_result_mono:
  assumes "dfs_result nodes children color' r" "\<And>v. v < length children \<Longrightarrow> color ! v \<noteq> 0 \<Longrightarrow> color' ! v \<noteq> 0"
  shows "dfs_result nodes children color r"
  using assms unfolding dfs_result_def by blast

lemma dfs_loop_ok:
  assumes "dfs_inv children color stack" "children_ok children" "length nodes = length children"
  shows "dfs_result nodes children color (dfs_loop nodes children color stack)"
  using assms
proof (induction nodes children color stack rule: dfs_loop.induct)
  case (1 nodes children color)
  then show ?case by (auto simp: dfs_result_def)
next
  case (2 nodes children color n i stack)
  let ?c = "children ! n ! i"
  from "2.prems" have n: "n < length children" "n < length color" and len: "length color = length children"
    by (auto simp: dfs_inv_def)
  consider (close) "length (children ! n) \<le> i" | (enter) "i < length (children ! n)" "color ! ?c = 0"
    | (found) "i < length (children ! n)" "color ! ?c = 1" | (skip) "i < length (children ! n)" "color ! ?c \<noteq> 0" "color ! ?c \<noteq> 1"
    by linarith
  then show ?case
  proof cases
    case close
    then have "dfs_result nodes children (color[n := 2]) (dfs_loop nodes children (color[n := 2]) stack)"
      using "2.IH"(1) "2.prems" n dfs_close by simp
    then show ?thesis using close n by (auto elim!: dfs_result_mono simp: nth_list_update)
  next
    case enter
    then have b: "?c < length color" using "2.prems" n len by (simp add: child_bound)
    from enter have "dfs_result nodes children (color[?c := 1])
        (dfs_loop nodes children (color[?c := 1]) ((?c, 0) # (n, i + 1) # stack))"
      using "2.IH"(2) [OF _ _ refl refl] "2.prems" n b dfs_enter [OF "2.prems"(1,2) enter(1) refl] by simp
    then have "dfs_result nodes children color
        (dfs_loop nodes children (color[?c := 1]) ((?c, 0) # (n, i + 1) # stack))"
      by (rule dfs_result_mono) (use b in \<open>simp add: nth_list_update\<close>)
    then show ?thesis using enter n b by (simp add: Let_def)
  next
    case found
    then have b: "?c < length children" using "2.prems" n by (simp add: child_bound)
    define cyc where "cyc = dropWhile (\<lambda>(v, j). v \<noteq> ?c) (rev ((n, i + 1) # stack))"
    have cyc: "is_cycle (child_edges children) (map fst cyc)" "\<forall>v\<in>set (map fst cyc). v < length children"
      using dfs_found [OF "2.prems"(1) found(1) refl b found(2)] unfolding cyc_def by blast+
    then have "cyc \<noteq> []" "nodes_at nodes (map fst cyc) = Ok (map ((!) nodes) (map fst cyc))"
      using "2.prems"(3) by (auto simp: is_cycle_def nodes_at_def list_all_iff)
    then have "dfs_loop nodes children color ((n, i) # stack) = Ok (Inr (map ((!) nodes) (map fst cyc)))"
      using found n b len by (subst dfs_loop.simps(2), unfold Let_def cyc_def [symmetric], cases cyc) simp_all
    with cyc show ?thesis unfolding dfs_result_def by blast
  next
    case skip
    then have b: "?c < length children" using "2.prems" n by (simp add: child_bound)
    then have "color ! ?c \<le> 2" using "2.prems"(1) by (auto simp: dfs_inv_def)
    then have "color ! ?c = 2" using skip by linarith
    then have "dfs_result nodes children color (dfs_loop nodes children color ((n, i + 1) # stack))"
      using "2.IH"(3) [OF _ _ refl refl] "2.prems" n b len skip dfs_advance [OF "2.prems"(1)] by simp
    then show ?thesis using skip n b len by (simp add: Let_def)
  qed
qed

lemma dfs_root:
  assumes inv: "dfs_inv children color []" and s: "s < length children" "color ! s = 0"
  shows "dfs_inv children (color[s := 1]) [(s, 0)]"
proof -
  note D = dfs_invD [OF inv]
  have keep: "color[s := 1] ! v = (if v = s then 1 else color ! v)" for v using s D(1) by simp
  have "(\<forall>w\<in>set (children ! v). color[s := 1] ! w = 2) \<and> (v, v) \<notin> (child_edges children)\<^sup>+"
    if "v < length children" "color[s := 1] ! v = 2" for v
  proof -
    have "color ! v = 2" using that(2) keep [of v] by (auto split: if_splits)
    then show ?thesis using D(6) [OF that(1)] s(2) keep by (auto split: if_splits)
  qed
  moreover have "color[s := 1] ! v = 1 \<longleftrightarrow> v \<in> fst ` set [(s, 0)]" "color[s := 1] ! v \<le> 2" if "v < length children" for v
    using D(4,5) [OF that] keep [of v] by auto
  ultimately show ?thesis using D(1) s(1) unfolding dfs_inv_def by auto
qed

lemma cycle_scan_ok:
  assumes "dfs_inv children color []" "children_ok children" "length nodes = length children"
    "\<forall>s\<in>set ss. s < length children" "\<And>v. v < length children \<Longrightarrow> v \<notin> set ss \<Longrightarrow> color ! v \<noteq> 0"
  shows "(cycle_scan nodes children color ss = Ok None \<and> acyclic (child_edges children)) \<or>
    (\<exists>vs. cycle_scan nodes children color ss = Ok (Some (map ((!) nodes) vs)) \<and>
      is_cycle (child_edges children) vs \<and> (\<forall>v\<in>set vs. v < length children))"
  using assms
proof (induction ss arbitrary: color)
  case Nil
  have "(v, v) \<notin> (child_edges children)\<^sup>+" for v
  proof
    assume v: "(v, v) \<in> (child_edges children)\<^sup>+"
    then have "v < length children" by (metis (no_types, lifting) case_prodD child_edges_def mem_Collect_eq tranclD)
    moreover from this have "color ! v = 2"
      using dfs_invD(4,5) [OF Nil.prems(1), of v] Nil.prems(5) [of v] by fastforce
    ultimately show False using dfs_invD(6) [OF Nil.prems(1)] v by blast
  qed
  then show ?case by (simp add: acyclic_def)
next
  case (Cons s ss)
  from Cons.prems have s: "s < length children" "s < length color" by (auto simp: dfs_inv_def)
  show ?case
  proof (cases "color ! s = 0")
    case False
    then show ?thesis using Cons.IH [of color] Cons.prems s by auto
  next
    case True
    from dfs_loop_ok [OF dfs_root [OF Cons.prems(1) s(1) True] Cons.prems(2,3)]
    consider (closed) color' where "dfs_loop nodes children (color[s := 1]) [(s, 0)] = Ok (Inl color')" "dfs_inv children color' []"
        "\<forall>v<length children. color[s := 1] ! v \<noteq> 0 \<longrightarrow> color' ! v \<noteq> 0"
      | (found) vs where "dfs_loop nodes children (color[s := 1]) [(s, 0)] = Ok (Inr (map ((!) nodes) vs))"
        "is_cycle (child_edges children) vs" "\<forall>v\<in>set vs. v < length children"
      unfolding dfs_result_def by blast
    then show ?thesis
    proof cases
      case closed
      have "color' ! v \<noteq> 0" if "v < length children" "v \<notin> set ss" for v
        using closed(3) Cons.prems(5) [of v] that s by (auto simp: nth_list_update split: if_splits)
      then show ?thesis using Cons.IH [OF closed(2) Cons.prems(2,3)] Cons.prems(4) closed(1) s True by simp
    next
      case found
      then show ?thesis using s True by auto
    qed
  qed
qed

lemma is_cycle_graph:
  assumes "distinct nodes" "is_cycle (child_edges (graph_children nodes adj)) vs" "\<forall>v\<in>set vs. v < length nodes"
  shows "is_cycle (graph_edges nodes adj) (map ((!) nodes) vs)"
proof -
  have vs: "vs \<noteq> []" "distinct vs" "(last vs, hd vs) \<in> child_edges (graph_children nodes adj)"
    "successively (\<lambda>a b. (a, b) \<in> child_edges (graph_children nodes adj)) vs"
    using assms(2) by (auto simp: is_cycle_def)
  have e: "(nodes ! a, nodes ! b) \<in> graph_edges nodes adj" if "(a, b) \<in> child_edges (graph_children nodes adj)" for a b
    using that by (simp add: child_edges_graph [OF assms(1)])
  have "successively (\<lambda>a b. (a, b) \<in> graph_edges nodes adj) (map ((!) nodes) vs)"
    unfolding successively_map by (rule successively_mono [OF vs(4)]) (use e in blast)
  moreover have "distinct (map ((!) nodes) vs)"
    using vs(2) assms(1,3) by (simp add: distinct_map inj_on_nth)
  ultimately show ?thesis using vs(1) e [OF vs(3)] by (simp add: is_cycle_def last_map hd_map)
qed

text \<open>C15. \<open>graph_find_cycle\<close> always returns: \<open>None\<close> exactly when the graph has no directed cycle, and otherwise
  a list of distinct nodes each with an edge to the next and the last with an edge to the first.\<close>

theorem find_cycle_correct:
  assumes "distinct nodes"
  shows "(graph_find_cycle nodes adj = Ok None \<and> acyclic (graph_edges nodes adj)) \<or>
    (\<exists>path. graph_find_cycle nodes adj = Ok (Some path) \<and> is_cycle (graph_edges nodes adj) path)"
proof -
  let ?ch = "graph_children nodes adj"
  have "dfs_inv ?ch (replicate (length nodes) 0) []" by (simp add: dfs_inv_def)
  from cycle_scan_ok [OF this graph_children_ok [OF assms], of nodes "[0..<length nodes]"]
  show ?thesis
    using is_cycle_graph [OF assms] by (auto simp: graph_find_cycle_def acyclic_children [OF assms])
qed

definition sample_loop :: graph_adj where
  "sample_loop = map_of
    [((ascii ''users'', ascii ''ann''), [(ascii ''users'', ascii ''bob'')]),
     ((ascii ''users'', ascii ''bob''), [(ascii ''users'', ascii ''cid'')]),
     ((ascii ''users'', ascii ''cid''), [(ascii ''users'', ascii ''bob'')])]"

theorem find_cycle_correct_witness:
  "distinct sample_nodes \<and>
   graph_find_cycle sample_nodes sample_loop = Ok (Some [(ascii ''users'', ascii ''bob''), (ascii ''users'', ascii ''cid'')]) \<and>
   is_cycle (graph_edges sample_nodes sample_loop) [(ascii ''users'', ascii ''bob''), (ascii ''users'', ascii ''cid'')]"
proof -
  have "graph_find_cycle sample_nodes sample_loop = Ok (Some [(ascii ''users'', ascii ''bob''), (ascii ''users'', ascii ''cid'')])"
    by code_simp
  with find_cycle_correct [OF sample_nodes_distinct, of sample_loop] sample_nodes_distinct show ?thesis by simp
qed

end
