(* ===== verification/Graph_Components.thy ===== *)
theory Graph_Components
  imports Graph_Order "HOL-Library.Product_Lexorder"
begin

text \<open>
  The weak connected components of \<open>src/engine/engine.rs\<close> (\<open>graph_components\<close>): a union-find over the
  positions of the nodes, without ranks and without path compression. The inner loop of \<open>find\<close> follows a
  parent vector until it meets a fixed point and would not end on a cyclic one, so it is a partial function;
  an out-of-range index is a panic. The adjacency is a hash table, so the order in which its entries are
  visited is an argument. Every run is shown to end, and the buckets to be the weak components.
\<close>

section \<open>Union-find\<close>

partial_function (option) uf_find :: "nat list \<Rightarrow> nat \<Rightarrow> nat result option" where
  "uf_find parent x =
    (if length parent \<le> x then Some Panic
     else if parent ! x \<noteq> x then uf_find parent (parent ! x)
     else Some (Ok x))"

declare uf_find.simps [code]

fun run_then :: "'a result option \<Rightarrow> ('a \<Rightarrow> 'b result option) \<Rightarrow> 'b result option" where
  "run_then None f = None"
| "run_then (Some (Ok x)) f = f x"
| "run_then (Some (Err e)) f = Some (Err e)"
| "run_then (Some Panic) f = Some Panic"

definition unite :: "nat list \<Rightarrow> nat \<Rightarrow> nat \<Rightarrow> nat list result option" where
  "unite parent sp tp =
    run_then (uf_find parent sp) (\<lambda>ra.
    run_then (uf_find parent tp) (\<lambda>rb.
    Some (if ra \<noteq> rb then
            (if min ra rb < length parent then Ok (parent[min ra rb := max ra rb]) else Panic)
          else Ok parent)))"

fun unite_targets :: "graph_node list \<Rightarrow> nat list \<Rightarrow> nat \<Rightarrow> graph_node list \<Rightarrow> nat list result option" where
  "unite_targets nodes parent sp [] = Some (Ok parent)"
| "unite_targets nodes parent sp (t # ts) =
    (case pos nodes t of
       None \<Rightarrow> unite_targets nodes parent sp ts
     | Some tp \<Rightarrow> run_then (unite parent sp tp) (\<lambda>parent'. unite_targets nodes parent' sp ts))"

fun unite_all :: "graph_node list \<Rightarrow> nat list \<Rightarrow> (graph_node \<times> graph_node list) list \<Rightarrow> nat list result option" where
  "unite_all nodes parent [] = Some (Ok parent)"
| "unite_all nodes parent ((src, targets) # adj) =
    (case pos nodes src of
       None \<Rightarrow> unite_all nodes parent adj
     | Some sp \<Rightarrow> run_then (unite_targets nodes parent sp targets) (\<lambda>parent'. unite_all nodes parent' adj))"

text \<open>The buckets are an association list in order of creation; the sort behind them removes the order of the table.\<close>

fun push_bucket :: "nat \<Rightarrow> graph_node \<Rightarrow> (nat \<times> graph_node list) list \<Rightarrow> (nat \<times> graph_node list) list" where
  "push_bucket r k [] = [(r, [k])]"
| "push_bucket r k ((q, ks) # bs) = (if q = r then (q, ks @ [k]) # bs else (q, ks) # push_bucket r k bs)"

fun fill_buckets ::
  "nat list \<Rightarrow> (nat \<times> graph_node) list \<Rightarrow> (nat \<times> graph_node list) list \<Rightarrow> (nat \<times> graph_node list) list result option" where
  "fill_buckets parent [] buckets = Some (Ok buckets)"
| "fill_buckets parent ((i, key) # rest) buckets =
    run_then (uf_find parent i) (\<lambda>r. fill_buckets parent rest (push_bucket r key buckets))"

definition graph_components ::
  "graph_node list \<Rightarrow> (graph_node \<times> graph_node list) list \<Rightarrow> graph_node list list result option" where
  "graph_components nodes adj =
    run_then (unite_all nodes [0..<length nodes] adj) (\<lambda>parent.
    run_then (fill_buckets parent (zip [0..<length nodes] nodes) []) (\<lambda>buckets.
    Some (Ok (sort (map snd buckets)))))"

section \<open>Following parents ends\<close>

definition forest :: "nat list \<Rightarrow> bool" where
  "forest parent \<longleftrightarrow> (\<forall>x<length parent. x \<le> parent ! x \<and> parent ! x < length parent)"

definition root :: "nat list \<Rightarrow> nat \<Rightarrow> nat" where
  "root parent x = (case uf_find parent x of Some (Ok r) \<Rightarrow> r | _ \<Rightarrow> x)"

lemma forestD: "forest parent \<Longrightarrow> x < length parent \<Longrightarrow> x \<le> parent ! x \<and> parent ! x < length parent"
  by (simp add: forest_def)

lemma find_ends:
  assumes "forest parent" "x < length parent"
  shows "\<exists>r. uf_find parent x = Some (Ok r) \<and> x \<le> r \<and> r < length parent \<and> parent ! r = r"
  using assms(2)
proof (induction "length parent - x" arbitrary: x rule: less_induct)
  case less
  show ?case
  proof (cases "parent ! x = x")
    case True
    then show ?thesis using less.prems by (subst uf_find.simps) simp
  next
    case False
    then have p: "x < parent ! x" "parent ! x < length parent" using forestD [OF assms(1) less.prems] by auto
    from less.hyps [OF _ p(2)] p obtain r where
      "uf_find parent (parent ! x) = Some (Ok r)" "parent ! x \<le> r" "r < length parent" "parent ! r = r" by force
    then show ?thesis using False less.prems p by (subst uf_find.simps) auto
  qed
qed

lemma find_root:
  assumes "forest parent" "x < length parent"
  shows "uf_find parent x = Some (Ok (root parent x))" "x \<le> root parent x" "root parent x < length parent"
    "parent ! root parent x = root parent x"
  using find_ends [OF assms] by (auto simp: root_def)

lemma root_fixed: "x < length parent \<Longrightarrow> parent ! x = x \<Longrightarrow> root parent x = x"
  by (simp add: root_def uf_find.simps [of parent x])

lemma root_step:
  assumes "forest parent" "x < length parent"
  shows "root parent (parent ! x) = root parent x"
proof (cases "parent ! x = x")
  case False
  have "uf_find parent x = uf_find parent (parent ! x)" using False assms(2) by (subst uf_find.simps) simp
  then show ?thesis using find_ends [OF assms(1), of "parent ! x"] forestD [OF assms] by (auto simp: root_def)
qed simp

lemma root_induct [consumes 2, case_names fixed step]:
  assumes "forest parent" "x < length parent"
    "\<And>x. x < length parent \<Longrightarrow> parent ! x = x \<Longrightarrow> P x"
    "\<And>x. x < length parent \<Longrightarrow> parent ! x < length parent \<Longrightarrow> parent ! x \<noteq> x \<Longrightarrow> P (parent ! x) \<Longrightarrow> P x"
  shows "P x"
  using assms(2)
proof (induction "length parent - x" arbitrary: x rule: less_induct)
  case less
  have p: "x \<le> parent ! x" "parent ! x < length parent" using forestD [OF assms(1) less.prems] by auto
  show ?case
  proof (cases "parent ! x = x")
    case False
    with less.hyps [OF _ p(2)] p less.prems assms(4) show ?thesis by force
  qed (use less.prems assms(3) in blast)
qed

lemma forest_update:
  assumes "forest parent" "a < b" "b < length parent"
  shows "forest (parent[a := b])"
  using assms by (auto simp: forest_def nth_list_update)

lemma root_update:
  assumes f: "forest parent" and a: "parent ! a = a" and b: "parent ! b = b" and ab: "a < b" "b < length parent"
    and x: "x < length parent"
  shows "root (parent[a := b]) x = (if root parent x = a then b else root parent x)"
  using f x
proof (induction rule: root_induct)
  case (fixed x)
  show ?case
  proof (cases "x = a")
    case True
    have "root (parent[a := b]) a = root (parent[a := b]) (parent[a := b] ! a)"
      by (rule root_step [OF forest_update [OF f ab], symmetric]) (use ab in simp)
    also have "parent[a := b] ! a = b" using ab by simp
    also have "root (parent[a := b]) b = b" by (rule root_fixed) (use ab b in simp_all)
    finally show ?thesis using True root_fixed [OF fixed] by simp
  qed (use fixed in \<open>simp add: root_fixed\<close>)
next
  case (step x)
  then have "x \<noteq> a" using a by auto
  then have "root (parent[a := b]) x = root (parent[a := b]) (parent ! x)"
    using root_step [OF forest_update [OF f ab], of x] step by simp
  also note step(4)
  also have "root parent (parent ! x) = root parent x" using root_step [OF f] step by blast
  finally show ?case .
qed

section \<open>The buckets are the weak components\<close>

definition weak :: "graph_node list \<Rightarrow> graph_adj \<Rightarrow> (graph_node \<times> graph_node) set" where
  "weak nodes adj = (graph_edges nodes adj \<union> (graph_edges nodes adj)\<inverse>)\<^sup>*"

lemma weak_sym: "(a, b) \<in> weak nodes adj \<Longrightarrow> (b, a) \<in> weak nodes adj"
  unfolding weak_def by (rule symD [OF sym_rtrancl]) (auto simp: sym_def)

lemma weak_trans: "(a, b) \<in> weak nodes adj \<Longrightarrow> (b, c) \<in> weak nodes adj \<Longrightarrow> (a, c) \<in> weak nodes adj"
  by (simp add: weak_def)

text \<open>Parents lie in the component of their node, and united positions have one root.\<close>

definition uf_inv :: "graph_node list \<Rightarrow> graph_adj \<Rightarrow> (nat \<times> nat) set \<Rightarrow> nat list \<Rightarrow> bool" where
  "uf_inv nodes adj D parent \<longleftrightarrow> forest parent \<and> length parent = length nodes \<and>
    (\<forall>x<length nodes. (nodes ! x, nodes ! (parent ! x)) \<in> weak nodes adj) \<and>
    (\<forall>(x, y)\<in>D. x < length nodes \<and> y < length nodes \<and> root parent x = root parent y)"

lemma root_weak:
  assumes "uf_inv nodes adj D parent" "x < length nodes"
  shows "(nodes ! x, nodes ! root parent x) \<in> weak nodes adj"
proof -
  have f: "forest parent" "x < length parent" using assms by (auto simp: uf_inv_def)
  then show ?thesis
  proof (induction rule: root_induct)
    case (fixed x)
    then show ?case by (simp add: root_fixed weak_def)
  next
    case (step x)
    then have "(nodes ! x, nodes ! (parent ! x)) \<in> weak nodes adj" using assms(1) by (simp add: uf_inv_def)
    with step show ?case using root_step [OF f(1), of x] weak_trans by metis
  qed
qed

lemma unite_ok:
  assumes inv: "uf_inv nodes adj D parent" and x: "x < length nodes" "y < length nodes"
    and e: "(nodes ! x, nodes ! y) \<in> weak nodes adj"
  shows "\<exists>parent'. unite parent x y = Some (Ok parent') \<and> uf_inv nodes adj (insert (x, y) D) parent'"
proof -
  from inv have f: "forest parent" and len: "length parent = length nodes" by (auto simp: uf_inv_def)
  note rx = find_root [OF f, of x] and ry = find_root [OF f, of y]
  show ?thesis
  proof (cases "root parent x = root parent y")
    case True
    then show ?thesis using inv x rx ry len by (auto simp: unite_def uf_inv_def)
  next
    case False
    define a where "a = min (root parent x) (root parent y)"
    define b where "b = max (root parent x) (root parent y)"
    have ab: "a < b" "b < length parent" "parent ! a = a" "parent ! b = b"
      using False rx ry x len by (auto simp: a_def b_def min_def max_def)
    have "(nodes ! root parent x, nodes ! root parent y) \<in> weak nodes adj"
      using root_weak [OF inv x(1)] root_weak [OF inv x(2)] e weak_trans weak_sym by metis
    then have w: "(nodes ! a, nodes ! b) \<in> weak nodes adj"
      using weak_sym by (auto simp: a_def b_def min_def max_def)
    have new: "root (parent[a := b]) z = (if root parent z = a then b else root parent z)" if "z < length nodes" for z
      using root_update [OF f ab(3,4,1,2)] that len by simp
    have "root (parent[a := b]) x = root (parent[a := b]) y"
      using new [OF x(1)] new [OF x(2)] False by (auto simp: a_def b_def min_def max_def)
    then have "uf_inv nodes adj (insert (x, y) D) (parent[a := b])"
      using inv x w ab forest_update [OF f ab(1,2)] new by (auto simp: uf_inv_def nth_list_update)
    moreover have "unite parent x y = Some (Ok (parent[a := b]))"
      using False rx ry x len by (simp add: unite_def a_def b_def)
    ultimately show ?thesis by blast
  qed
qed

lemma uf_inv_mono: "uf_inv nodes adj D parent \<Longrightarrow> D' \<subseteq> D \<Longrightarrow> uf_inv nodes adj D' parent"
  unfolding uf_inv_def by blast

text \<open>The pairs of positions that the entries of the table unite.\<close>

definition target_pairs :: "graph_node list \<Rightarrow> nat \<Rightarrow> graph_node list \<Rightarrow> (nat \<times> nat) set" where
  "target_pairs nodes sp ts = {(sp, tp) | tp. \<exists>t\<in>set ts. pos nodes t = Some tp}"

definition entry_pairs :: "graph_node list \<Rightarrow> (graph_node \<times> graph_node list) list \<Rightarrow> (nat \<times> nat) set" where
  "entry_pairs nodes entries = {(sp, tp) | sp tp. \<exists>(src, ts)\<in>set entries. pos nodes src = Some sp \<and> (sp, tp) \<in> target_pairs nodes sp ts}"

lemma target_pairs_Cons:
  "target_pairs nodes sp (t # ts) = (case pos nodes t of None \<Rightarrow> {} | Some tp \<Rightarrow> {(sp, tp)}) \<union> target_pairs nodes sp ts"
  by (auto simp: target_pairs_def split: option.splits)

lemma unite_targets_ok:
  assumes "uf_inv nodes adj D parent" "sp < length nodes"
    "\<And>tp. (sp, tp) \<in> target_pairs nodes sp ts \<Longrightarrow> tp < length nodes \<and> (nodes ! sp, nodes ! tp) \<in> weak nodes adj"
  shows "\<exists>parent'. unite_targets nodes parent sp ts = Some (Ok parent') \<and>
    uf_inv nodes adj (target_pairs nodes sp ts \<union> D) parent'"
  using assms
proof (induction ts arbitrary: parent D)
  case Nil
  then show ?case by (simp add: target_pairs_def)
next
  case (Cons t ts)
  show ?case
  proof (cases "pos nodes t")
    case None
    then show ?thesis using Cons.IH [OF Cons.prems(1,2)] Cons.prems(3) by (simp add: target_pairs_Cons)
  next
    case (Some tp)
    then obtain parent' where p: "unite parent sp tp = Some (Ok parent')" "uf_inv nodes adj (insert (sp, tp) D) parent'"
      using unite_ok [OF Cons.prems(1,2), of tp] Cons.prems(3) [of tp] by (auto simp: target_pairs_Cons)
    have "target_pairs nodes sp (t # ts) \<union> D = target_pairs nodes sp ts \<union> insert (sp, tp) D"
      using Some by (auto simp: target_pairs_Cons)
    then show ?thesis using Cons.IH [OF p(2) Cons.prems(2)] Cons.prems(3) Some p(1) by (simp add: target_pairs_Cons)
  qed
qed

definition weak_pairs :: "graph_node list \<Rightarrow> graph_adj \<Rightarrow> (nat \<times> nat) set" where
  "weak_pairs nodes adj = {(x, y). x < length nodes \<and> y < length nodes \<and> (nodes ! x, nodes ! y) \<in> weak nodes adj}"

lemma entry_pairs_Cons:
  "entry_pairs nodes ((src, ts) # entries) =
    (case pos nodes src of None \<Rightarrow> {} | Some sp \<Rightarrow> target_pairs nodes sp ts) \<union> entry_pairs nodes entries"
  by (auto simp: entry_pairs_def target_pairs_def split: option.splits)

lemma unite_all_ok:
  assumes "distinct nodes" "uf_inv nodes adj D parent" "entry_pairs nodes entries \<subseteq> weak_pairs nodes adj"
  shows "\<exists>parent'. unite_all nodes parent entries = Some (Ok parent') \<and> uf_inv nodes adj (entry_pairs nodes entries \<union> D) parent'"
  using assms(2,3)
proof (induction entries arbitrary: parent D)
  case Nil
  then show ?case by (simp add: entry_pairs_def)
next
  case (Cons e entries)
  obtain src ts where e: "e = (src, ts)" by (cases e)
  have rest: "entry_pairs nodes entries \<subseteq> weak_pairs nodes adj" using Cons.prems(2) by (simp add: e entry_pairs_Cons)
  show ?case
  proof (cases "pos nodes src")
    case None
    with Cons.IH [OF Cons.prems(1) rest] show ?thesis by (simp add: e entry_pairs_Cons)
  next
    case (Some sp)
    then have sp: "sp < length nodes" by (simp add: pos_nth [OF assms(1)])
    have "target_pairs nodes sp ts \<subseteq> weak_pairs nodes adj" using Cons.prems(2) Some by (simp add: e entry_pairs_Cons)
    then have "tp < length nodes \<and> (nodes ! sp, nodes ! tp) \<in> weak nodes adj" if "(sp, tp) \<in> target_pairs nodes sp ts" for tp
      using that by (auto simp: weak_pairs_def)
    from unite_targets_ok [OF Cons.prems(1) sp this] obtain parent' where
      p: "unite_targets nodes parent sp ts = Some (Ok parent')" "uf_inv nodes adj (target_pairs nodes sp ts \<union> D) parent'"
      by blast
    from Cons.IH [OF p(2) rest] p(1) Some show ?thesis by (simp add: e entry_pairs_Cons Un_ac)
  qed
qed

lemma uf_start: "uf_inv nodes adj {} [0..<length nodes]"
  by (simp add: uf_inv_def forest_def weak_def)

text \<open>The entries of a table are the edges of its graph, whatever the order they are visited in.\<close>

definition lists_adj :: "(graph_node \<times> graph_node list) list \<Rightarrow> graph_adj \<Rightarrow> bool" where
  "lists_adj entries adj \<longleftrightarrow> distinct (map fst entries) \<and> map_of entries = adj"

lemma entry_pairs_edges:
  assumes "distinct nodes" "lists_adj entries adj"
  shows "(sp, tp) \<in> entry_pairs nodes entries \<longleftrightarrow>
    sp < length nodes \<and> tp < length nodes \<and> (nodes ! sp, nodes ! tp) \<in> graph_edges nodes adj"
proof -
  have entry: "(src, ts) \<in> set entries \<longleftrightarrow> adj src = Some ts" for src ts using assms(2) by (auto simp: lists_adj_def)
  have "(sp, tp) \<in> entry_pairs nodes entries \<longleftrightarrow>
    (\<exists>src ts t. adj src = Some ts \<and> pos nodes src = Some sp \<and> t \<in> set ts \<and> pos nodes t = Some tp)"
    unfolding entry_pairs_def target_pairs_def by (auto simp: entry Bex_def)
  also have "\<dots> \<longleftrightarrow> sp < length nodes \<and> tp < length nodes \<and> (\<exists>ts. adj (nodes ! sp) = Some ts \<and> nodes ! tp \<in> set ts)"
    unfolding pos_nth [OF assms(1)] by blast
  finally show ?thesis by (auto simp: graph_edges_def)
qed

lemma weak_edge: "(a, b) \<in> graph_edges nodes adj \<Longrightarrow> (a, b) \<in> weak nodes adj"
  by (auto simp: weak_def)

lemma united:
  assumes "distinct nodes" "lists_adj entries adj"
  shows "\<exists>parent. unite_all nodes [0..<length nodes] entries = Some (Ok parent) \<and> forest parent \<and> length parent = length nodes \<and>
    (\<forall>x<length nodes. \<forall>y<length nodes. root parent x = root parent y \<longleftrightarrow> (nodes ! x, nodes ! y) \<in> weak nodes adj)"
proof -
  note e = entry_pairs_edges [OF assms]
  have pairs: "entry_pairs nodes entries \<subseteq> weak_pairs nodes adj" by (auto simp: weak_pairs_def e weak_edge)
  obtain parent where p: "unite_all nodes [0..<length nodes] entries = Some (Ok parent)"
    "uf_inv nodes adj (entry_pairs nodes entries \<union> {}) parent"
    using unite_all_ok [OF assms(1) uf_start pairs] by blast
  have fwd: "(nodes ! x, nodes ! y) \<in> weak nodes adj"
    if "x < length nodes" "y < length nodes" "root parent x = root parent y" for x y
    using root_weak [OF p(2) that(1)] root_weak [OF p(2) that(2)] that(3) weak_sym weak_trans by metis
  have edge: "root parent x = root parent y"
    if "x < length nodes" "y < length nodes" "(nodes ! x, nodes ! y) \<in> graph_edges nodes adj" for x y
    using p(2) that e [of x y] unfolding uf_inv_def by blast
  have "\<exists>y<length nodes. nodes ! y = b \<and> root parent x = root parent y"
    if x: "x < length nodes" and w: "(nodes ! x, b) \<in> weak nodes adj" for x b
    using w unfolding weak_def
  proof (induction rule: rtrancl_induct)
    case base
    then show ?case using x by blast
  next
    case (step b c)
    then obtain y where y: "y < length nodes" "nodes ! y = b" "root parent x = root parent y" by blast
    from step(2) obtain z where "z < length nodes" "nodes ! z = c" by (auto simp: graph_edges_def in_set_conv_nth)
    with step(2) y edge [of y z] edge [of z y] show ?case by auto
  qed
  then have bwd: "root parent x = root parent y"
    if "x < length nodes" "y < length nodes" "(nodes ! x, nodes ! y) \<in> weak nodes adj" for x y
    using that assms(1) by (metis nth_eq_iff_index_eq)
  show ?thesis using p fwd bwd unfolding uf_inv_def by blast
qed

lemma push_bucket_map_of:
  "map_of (push_bucket r k bs) = (map_of bs)(r \<mapsto> (case map_of bs r of None \<Rightarrow> [k] | Some ks \<Rightarrow> ks @ [k]))"
  by (induction r k bs rule: push_bucket.induct) (auto simp: fun_upd_twist)

lemma push_bucket_keys: "fst ` set (push_bucket r k bs) = insert r (fst ` set bs)"
  by (induction r k bs rule: push_bucket.induct) auto

lemma push_bucket_distinct: "distinct (map fst bs) \<Longrightarrow> distinct (map fst (push_bucket r k bs))"
  by (induction r k bs rule: push_bucket.induct) (auto simp: push_bucket_keys)

text \<open>The bucket of a root holds, in order, the nodes seen so far whose position has that root.\<close>

definition bucket_of :: "nat list \<Rightarrow> (nat \<times> graph_node) list \<Rightarrow> nat \<Rightarrow> graph_node list" where
  "bucket_of parent seen r = map snd (filter (\<lambda>(i, k). root parent i = r) seen)"

definition buckets_ok :: "nat list \<Rightarrow> (nat \<times> graph_node) list \<Rightarrow> (nat \<times> graph_node list) list \<Rightarrow> bool" where
  "buckets_ok parent seen bs \<longleftrightarrow> distinct (map fst bs) \<and>
    (\<forall>r. map_of bs r = (if bucket_of parent seen r = [] then None else Some (bucket_of parent seen r)))"

lemma buckets_ok_push:
  assumes "buckets_ok parent seen bs"
  shows "buckets_ok parent (seen @ [(i, k)]) (push_bucket (root parent i) k bs)"
  using assms by (auto simp: buckets_ok_def push_bucket_distinct push_bucket_map_of bucket_of_def)

lemma fill_buckets_ok:
  assumes "forest parent" "buckets_ok parent seen bs" "\<forall>i\<in>fst ` set rest. i < length parent"
  shows "\<exists>bs'. fill_buckets parent rest bs = Some (Ok bs') \<and> buckets_ok parent (seen @ rest) bs'"
  using assms(2,3)
proof (induction rest arbitrary: seen bs)
  case (Cons e rest)
  obtain i k where e: "e = (i, k)" by (cases e)
  then have "uf_find parent i = Some (Ok (root parent i))" using Cons.prems(2) find_root [OF assms(1)] by simp
  with Cons.IH [OF buckets_ok_push [OF Cons.prems(1)]] Cons.prems(2) show ?case by (simp add: e)
qed simp

definition weak_class :: "graph_node list \<Rightarrow> graph_adj \<Rightarrow> graph_node \<Rightarrow> graph_node list" where
  "weak_class nodes adj a = filter (\<lambda>b. (a, b) \<in> weak nodes adj) nodes"

lemma bucket_class:
  assumes "x < length nodes"
    "\<forall>x<length nodes. \<forall>y<length nodes. root parent x = root parent y \<longleftrightarrow> (nodes ! x, nodes ! y) \<in> weak nodes adj"
  shows "bucket_of parent (zip [0..<length nodes] nodes) (root parent x) = weak_class nodes adj (nodes ! x)"
proof -
  let ?z = "zip [0..<length nodes] nodes"
  have "filter (\<lambda>(i, k). root parent i = root parent x) ?z = filter (\<lambda>(i, k). (nodes ! x, k) \<in> weak nodes adj) ?z"
  proof (rule filter_cong [OF refl], clarify)
    fix i a b assume "(i, a, b) \<in> set ?z"
    then have i: "i < length nodes" "nodes ! i = (a, b)" by (auto simp: in_set_zip)
    with assms show "root parent i = root parent x \<longleftrightarrow> (nodes ! x, a, b) \<in> weak nodes adj" by metis
  qed
  moreover have "map snd (filter (\<lambda>(i, k). (nodes ! x, k) \<in> weak nodes adj) ?z) =
      filter (\<lambda>k. (nodes ! x, k) \<in> weak nodes adj) (map snd ?z)"
    unfolding filter_map by (rule arg_cong [where f = "map snd"], rule filter_cong) auto
  ultimately show ?thesis by (simp add: bucket_of_def weak_class_def)
qed

lemma buckets_classes:
  assumes nodes: "distinct nodes" and ok: "buckets_ok parent (zip [0..<length nodes] nodes) bs"
    and w: "\<forall>x<length nodes. \<forall>y<length nodes. root parent x = root parent y \<longleftrightarrow> (nodes ! x, nodes ! y) \<in> weak nodes adj"
  shows "distinct (map snd bs)" "set (map snd bs) = weak_class nodes adj ` set nodes"
proof -
  let ?z = "zip [0..<length nodes] nodes"
  have d: "distinct (map fst bs)" using ok by (simp add: buckets_ok_def)
  have in_bs: "(r, ks) \<in> set bs \<longleftrightarrow> ks = bucket_of parent ?z r \<and> ks \<noteq> []" for r ks
    using ok map_of_eq_Some_iff [OF d, of r ks] by (auto simp: buckets_ok_def split: if_splits)
  have rooted: "\<exists>x<length nodes. r = root parent x" if "bucket_of parent ?z r \<noteq> []" for r
    using that by (fastforce simp: bucket_of_def filter_empty_conv in_set_zip)
  have self: "nodes ! x \<in> set (weak_class nodes adj (nodes ! x))" if "x < length nodes" for x
    using that by (simp add: weak_class_def weak_def)
  show "set (map snd bs) = weak_class nodes adj ` set nodes"
  proof (intro set_eqI iffI)
    fix ks assume "ks \<in> set (map snd bs)"
    then obtain r where r: "ks = bucket_of parent ?z r" "ks \<noteq> []" using in_bs by force
    then obtain x where "x < length nodes" "r = root parent x" using rooted by blast
    then show "ks \<in> weak_class nodes adj ` set nodes" using r bucket_class [OF _ w] by (metis imageI nth_mem)
  next
    fix ks assume "ks \<in> weak_class nodes adj ` set nodes"
    then obtain x where x: "x < length nodes" "ks = weak_class nodes adj (nodes ! x)" by (auto simp: in_set_conv_nth)
    then have "(root parent x, ks) \<in> set bs" using in_bs bucket_class [OF x(1) w] self [OF x(1)] by force
    then show "ks \<in> set (map snd bs)" by force
  qed
  have at: "\<exists>i<length nodes. nodes ! i = e \<and> root parent i = r" if "e \<in> set (bucket_of parent ?z r)" for e r
    using that by (auto simp: bucket_of_def in_set_zip)
  have "r = r'" if "(r, ks) \<in> set bs" "(r', ks) \<in> set bs" for r r' ks
  proof -
    have "hd ks \<in> set (bucket_of parent ?z r)" "hd ks \<in> set (bucket_of parent ?z r')"
      using that by (auto simp: in_bs)
    then show ?thesis using at nodes by (metis nth_eq_iff_index_eq)
  qed
  then have "inj_on snd (set bs)" by (auto simp: inj_on_def)
  then show "distinct (map snd bs)" using d by (simp add: distinct_map)
qed

text \<open>C16. \<open>graph_components\<close> always returns, although \<open>find\<close> would follow a cyclic parent vector for ever: its result
  is the sorted list of the weakly connected classes of the nodes, each in node order, whatever the order the
  adjacency table is visited in.\<close>

theorem components_correct:
  assumes "distinct nodes" "lists_adj entries adj"
  shows "graph_components nodes entries = Some (Ok (sorted_list_of_set (weak_class nodes adj ` set nodes)))"
proof -
  from united [OF assms] obtain parent where p: "unite_all nodes [0..<length nodes] entries = Some (Ok parent)"
    "forest parent" "length parent = length nodes"
    "\<forall>x<length nodes. \<forall>y<length nodes. root parent x = root parent y \<longleftrightarrow> (nodes ! x, nodes ! y) \<in> weak nodes adj"
    by blast
  have "buckets_ok parent [] []" by (simp add: buckets_ok_def bucket_of_def)
  moreover have "\<forall>i\<in>fst ` set (zip [0..<length nodes] nodes). i < length parent" using p(3) by (auto simp: in_set_zip)
  ultimately obtain bs where b:
    "fill_buckets parent (zip [0..<length nodes] nodes) [] = Some (Ok bs)"
    "buckets_ok parent (zip [0..<length nodes] nodes) bs"
    using fill_buckets_ok [OF p(2)] by fastforce
  have "sort (map snd bs) = sorted_list_of_set (set (map snd bs))"
    using buckets_classes(1) [OF assms(1) b(2) p(4)] by (simp add: sorted_list_of_set_sort_remdups distinct_remdups_id del: set_map)
  then show ?thesis using p(1) b(1) buckets_classes(2) [OF assms(1) b(2) p(4)] by (simp add: graph_components_def)
qed

definition sample_links :: "(graph_node \<times> graph_node list) list" where
  "sample_links =
    [((ascii ''users'', ascii ''cid''), [(ascii ''users'', ascii ''gone'')]),
     ((ascii ''users'', ascii ''bob''), [(ascii ''users'', ascii ''ann'')])]"

theorem components_correct_witness:
  "distinct sample_nodes \<and> lists_adj sample_links (map_of sample_links) \<and>
   graph_components sample_nodes sample_links =
     Some (Ok [[(ascii ''users'', ascii ''ann''), (ascii ''users'', ascii ''bob'')], [(ascii ''users'', ascii ''cid'')]]) \<and>
   sorted_list_of_set (weak_class sample_nodes (map_of sample_links) ` set sample_nodes) =
     [[(ascii ''users'', ascii ''ann''), (ascii ''users'', ascii ''bob'')], [(ascii ''users'', ascii ''cid'')]]"
proof -
  have l: "lists_adj sample_links (map_of sample_links)" unfolding lists_adj_def by (intro conjI refl) code_simp
  have "graph_components sample_nodes sample_links =
    Some (Ok [[(ascii ''users'', ascii ''ann''), (ascii ''users'', ascii ''bob'')], [(ascii ''users'', ascii ''cid'')]])"
    by code_simp
  with components_correct [OF sample_nodes_distinct l] sample_nodes_distinct l show ?thesis by simp
qed

end
