(* ===== verification/Spec2Isabelle.thy ===== *)
theory Spec2Isabelle
  imports Doc_View Value_Order Index_Key Storage_Durability Storage_Checkpoint Graph_Cycle Graph_Components
begin

text \<open>
  A verification development for HakoDB, an embedded document database written in Rust.
\<close>

end
